(* ===== verification/Js_Prelude.thy ===== *)
theory Js_Prelude
  imports Main "HOL-Library.Sublist"
begin

text \<open>
  The part of the JavaScript runtime the modelled sources use: strings as lists of characters
  (every operation below counts and compares single characters, as the sources do on the ASCII
  text they handle), \<open>String.split\<close> and \<open>Array.join\<close>, the few regular expression shapes the
  sources match with, decimal numerals, and the error value for a thrown \<open>TypeError\<close>.
  The collection \<open>js_simps\<close> carries the automation of the component theories.
\<close>

named_theorems js_simps \<open>equations of the string and array operations\<close>

section \<open>Errors and small helpers\<close>

text \<open>
  A thrown exception is a value: reading a property of \<open>null\<close> is a \<open>TypeError\<close>, repeating a string a
  negative number of times a \<open>RangeError\<close>, naming an undeclared variable a \<open>ReferenceError\<close>,
  evaluating text that is no expression a \<open>SyntaxError\<close>.
\<close>

datatype js_error = TypeError | RangeError | ReferenceError | SyntaxError

type_synonym 'a js_result = "js_error + 'a"

text \<open>Sequencing: an exception ends the computation.\<close>

definition res_bind :: "'a js_result \<Rightarrow> ('a \<Rightarrow> 'b js_result) \<Rightarrow> 'b js_result" where
  "res_bind r f = (case r of Inl e \<Rightarrow> Inl e | Inr x \<Rightarrow> f x)"

primrec fold_res :: "('a \<Rightarrow> 's \<Rightarrow> 's js_result) \<Rightarrow> 'a list \<Rightarrow> 's \<Rightarrow> 's js_result" where
  "fold_res f [] s = Inr s"
| "fold_res f (x # xs) s = res_bind (f x s) (fold_res f xs)"

lemma res_bind_simps [simp]: "res_bind (Inl e) f = Inl e" "res_bind (Inr x) f = f x"
  by (simp_all add: res_bind_def)

lemma res_bind_Inr_iff: "res_bind r f = Inr y \<longleftrightarrow> (\<exists>x. r = Inr x \<and> f x = Inr y)"
  by (cases r) auto

lemma fold_res_append: "fold_res f (xs @ ys) s = res_bind (fold_res f xs s) (fold_res f ys)"
  by (induction xs arbitrary: s) (auto simp: res_bind_def split: sum.splits)

text \<open>\<open>xs[i]\<close>, \<open>undefined\<close> out of range.\<close>

definition nth_opt :: "'a list \<Rightarrow> nat \<Rightarrow> 'a option" where
  "nth_opt xs i = (if i < length xs then Some (xs ! i) else None)"

section \<open>Splitting and joining\<close>

text \<open>\<open>s.split(c)\<close> for a separator of one character.\<close>

fun split_on :: "char \<Rightarrow> string \<Rightarrow> string list" where
  "split_on c [] = [[]]"
| "split_on c (x # xs) =
     (if x = c then [] # split_on c xs
      else (case split_on c xs of [] \<Rightarrow> [[x]] | w # ws \<Rightarrow> (x # w) # ws))"

text \<open>\<open>xs.join(sep)\<close>.\<close>

fun join :: "string \<Rightarrow> string list \<Rightarrow> string" where
  "join sep [] = []"
| "join sep [w] = w"
| "join sep (w # v # ws) = w @ sep @ join sep (v # ws)"

lemma split_on_not_Nil [simp]: "split_on c s \<noteq> []"
  by (cases s) (auto split: list.splits)

lemma join_Cons [js_simps]:
  "join sep (w # ws) = (if ws = [] then w else w @ sep @ join sep ws)"
  by (cases ws) auto

lemma set_join: "set (join sep ws) \<subseteq> set sep \<union> (\<Union>w \<in> set ws. set w)"
  by (induction sep ws rule: join.induct) auto

lemma join_split_on [simp]: "join [c] (split_on c s) = s"
proof (induction s)
  case Nil
  then show ?case by simp
next
  case (Cons x xs)
  then show ?case by (cases "split_on c xs") (auto simp: join_Cons)
qed

lemma split_on_free [simp]: "c \<notin> set s \<Longrightarrow> split_on c s = [s]"
  by (induction s) auto

lemma split_on_append_sep [js_simps]:
  "c \<notin> set u \<Longrightarrow> split_on c (u @ c # v) = u # split_on c v"
  by (induction u) auto

lemma split_on_append: "split_on c (u @ c # v) = split_on c u @ split_on c v"
proof (induction u)
  case (Cons x u)
  then show ?case by (cases "split_on c u") auto
qed simp

lemma join_append:
  "xs \<noteq> [] \<Longrightarrow> ys \<noteq> [] \<Longrightarrow> join sep (xs @ ys) = join sep xs @ sep @ join sep ys"
  by (induction sep xs rule: join.induct) (auto simp: join_Cons)

lemma join_nested: "ys \<noteq> [] \<Longrightarrow> join sep (xs @ join sep ys # zs) = join sep (xs @ ys @ zs)"
proof (induction xs)
  case Nil
  then show ?case by (cases zs) (simp_all add: join_append)
next
  case (Cons x xs)
  then show ?case by (cases xs) (auto simp: join_Cons)
qed

lemma join_eq_Nil: "join sep xs = [] \<longleftrightarrow> xs = [] \<or> xs = [[]] \<or> (sep = [] \<and> (\<forall>x \<in> set xs. x = []))"
  by (induction sep xs rule: join.induct) auto

lemma split_on_part_free: "w \<in> set (split_on c s) \<Longrightarrow> c \<notin> set w"
proof (induction s arbitrary: w)
  case Nil
  then show ?case by simp
next
  case (Cons x xs)
  then show ?case
    by (cases "split_on c xs") (auto split: if_splits)
qed

lemma split_on_join:
  assumes "ws \<noteq> []" and "\<And>w. w \<in> set ws \<Longrightarrow> c \<notin> set w"
  shows "split_on c (join [c] ws) = ws"
  using assms
proof (induction ws)
  case Nil
  then show ?case by simp
next
  case (Cons w ws)
  then show ?case
    by (cases ws) (auto simp: split_on_append_sep)
qed

lemma split_on_part_subset: "w \<in> set (split_on c s) \<Longrightarrow> set w \<subseteq> set s"
proof (induction s arbitrary: w)
  case Nil
  then show ?case by simp
next
  case (Cons x xs)
  then show ?case
    by (cases "split_on c xs") (fastforce split: if_splits)+
qed

lemma split_on_eq_iff:
  "split_on c s = ws \<longleftrightarrow> ws \<noteq> [] \<and> (\<forall>w \<in> set ws. c \<notin> set w) \<and> s = join [c] ws"
  using split_on_join split_on_part_free by (metis join_split_on split_on_not_Nil)

section \<open>White space\<close>

text \<open>The character class \<open>[\t ]\<close>, and removal of a leading or trailing run of it.\<close>

definition is_ws :: "char \<Rightarrow> bool" where
  "is_ws c \<longleftrightarrow> c = CHR 0x09 \<or> c = CHR '' ''"

definition ltrim :: "string \<Rightarrow> string" where
  "ltrim s = dropWhile is_ws s"

definition rtrim :: "string \<Rightarrow> string" where
  "rtrim s = rev (dropWhile is_ws (rev s))"

lemma ltrim_id: "(\<forall>c \<in> set s. \<not> is_ws c) \<Longrightarrow> ltrim s = s"
  by (cases s) (auto simp: ltrim_def)

lemma rtrim_id: "(\<forall>c \<in> set s. \<not> is_ws c) \<Longrightarrow> rtrim s = s"
proof -
  assume "\<forall>c \<in> set s. \<not> is_ws c"
  then have "dropWhile is_ws (rev s) = rev s"
    by (metis dropWhile_eq_self_iff hd_in_set set_rev)
  then show "rtrim s = s" by (simp add: rtrim_def)
qed

text \<open>
  \<open>s.split(/[\t ]*c[\t ]*/)\<close>: the separator takes the white space around it with it, so every
  piece but the first loses its leading white space and every piece but the last its trailing one.
\<close>

fun trim_pieces :: "string list \<Rightarrow> string list" where
  "trim_pieces [] = []"
| "trim_pieces [w] = [ltrim w]"
| "trim_pieces (w # v # ws) = rtrim (ltrim w) # trim_pieces (v # ws)"

definition split_sep_ws :: "char \<Rightarrow> string \<Rightarrow> string list" where
  "split_sep_ws c s =
     (case split_on c s of
        [] \<Rightarrow> []
      | [w] \<Rightarrow> [w]
      | w # v # ws \<Rightarrow> rtrim w # trim_pieces (v # ws))"

text \<open>\<open>s.split(/[P]+/)\<close>: split at every maximal run of separator characters.\<close>

fun split_runs_aux :: "(char \<Rightarrow> bool) \<Rightarrow> bool \<Rightarrow> string \<Rightarrow> string list" where
  "split_runs_aux P in_run [] = [[]]"
| "split_runs_aux P in_run (x # xs) =
     (if P x then (if in_run then split_runs_aux P True xs else [] # split_runs_aux P True xs)
      else (case split_runs_aux P False xs of [] \<Rightarrow> [[x]] | w # ws \<Rightarrow> (x # w) # ws))"

definition split_runs :: "(char \<Rightarrow> bool) \<Rightarrow> string \<Rightarrow> string list" where
  "split_runs P s = split_runs_aux P False s"

lemma split_runs_aux_not_Nil [simp]: "split_runs_aux P b s \<noteq> []"
  by (induction P b s rule: split_runs_aux.induct) (auto split: list.splits)

lemma split_sep_ws_free [simp]: "c \<notin> set s \<Longrightarrow> split_sep_ws c s = [s]"
  by (simp add: split_sep_ws_def)

lemma split_runs_free [simp]:
  assumes "\<forall>c \<in> set s. \<not> P c" shows "split_runs P s = [s]"
proof -
  have "split_runs_aux P False s = [s]"
    using assms by (induction s) auto
  then show ?thesis by (simp add: split_runs_def)
qed

section \<open>Regular expressions built from strings\<close>

text \<open>
  \<open>key.match(str)\<close> with a string argument builds a regular expression from it. The strings the
  sources pass are configuration names, whose only metacharacter is the dot: a pattern is a list
  of tokens, a dot matches any character but a line terminator, and the search is not anchored.
\<close>

datatype re_tok = Lit char | AnyChar

definition is_newline :: "char \<Rightarrow> bool" where
  "is_newline c \<longleftrightarrow> c = CHR 0x0A \<or> c = CHR 0x0D"

fun re_tok_match :: "re_tok \<Rightarrow> char \<Rightarrow> bool" where
  "re_tok_match (Lit p) c = (p = c)"
| "re_tok_match AnyChar c = (\<not> is_newline c)"

fun re_prefix :: "re_tok list \<Rightarrow> string \<Rightarrow> bool" where
  "re_prefix [] s = True"
| "re_prefix (p # ps) [] = False"
| "re_prefix (p # ps) (c # cs) = (re_tok_match p c \<and> re_prefix ps cs)"

fun re_search :: "re_tok list \<Rightarrow> string \<Rightarrow> bool" where
  "re_search ps [] = re_prefix ps []"
| "re_search ps (c # cs) = (re_prefix ps (c # cs) \<or> re_search ps cs)"

definition re_of_string :: "string \<Rightarrow> re_tok list" where
  "re_of_string s = map (\<lambda>c. if c = CHR ''.'' then AnyChar else Lit c) s"

lemma re_prefix_Lit [simp]: "re_prefix (map Lit p) s \<longleftrightarrow> prefix p s"
proof (induction p arbitrary: s)
  case Nil
  then show ?case by simp
next
  case (Cons a p)
  then show ?case by (cases s) auto
qed

lemma re_search_append: "re_prefix p s \<Longrightarrow> re_search p (u @ s)"
proof (induction u)
  case Nil
  then show ?case by (cases s) auto
next
  case (Cons a u)
  then show ?case by simp
qed

lemma re_search_iff: "re_search p s \<longleftrightarrow> (\<exists>u v. s = u @ v \<and> re_prefix p v)"
proof
  assume "re_search p s"
  then show "\<exists>u v. s = u @ v \<and> re_prefix p v"
  proof (induction s)
    case Nil
    then show ?case by simp
  next
    case (Cons c cs)
    then consider "re_prefix p (c # cs)" | "re_search p cs" by auto
    then show ?case
    proof cases
      case 1
      then show ?thesis by (metis append_Nil)
    next
      case 2
      with Cons.IH obtain u v where "cs = u @ v" "re_prefix p v" by blast
      then show ?thesis by (metis append_Cons)
    qed
  qed
next
  assume "\<exists>u v. s = u @ v \<and> re_prefix p v"
  then show "re_search p s" by (auto intro: re_search_append)
qed

lemma re_search_Lit: "re_search (map Lit p) s \<longleftrightarrow> sublist p s"
  by (auto simp: re_search_iff sublist_def prefix_def)

lemma re_of_string_free:
  "CHR ''.'' \<notin> set s \<Longrightarrow> re_of_string s = map Lit s"
  by (auto simp: re_of_string_def)

end
