(* ===== verification/Uci_Container.thy ===== *)
theory Uci_Container
  imports Js_Prelude
begin

text \<open>
  The browser-side configuration container \<open>UCIContainer\<close> of \<open>common.js\<close>: an ordered list of
  keys \<open>pkg.section\<close> or \<open>pkg.section.option\<close>, a table of values, and the set of keys declared as
  list options. Every method is one definition. The theory ends with the container's invariant,
  its preservation by every method, and the read-over-write laws of the interface.
\<close>

section \<open>State\<close>

text \<open>
  A value is a string, or an array of strings for a list option. Arrays are modelled by value:
  the container copies the items it is given into arrays of its own.
\<close>

datatype uci_val = Str string | Lst "string list"

record uci =
  ukeys :: "string list"
  uvals :: "string \<Rightarrow> uci_val option"
  ulists :: "string \<Rightarrow> bool"

definition newUCIContainer :: uci where
  "newUCIContainer = \<lparr>ukeys = [], uvals = Map.empty, ulists = (\<lambda>_. False)\<rparr>"

text \<open>The string a value is coerced to by \<open>==\<close> against a string and by concatenation.\<close>

fun val_string :: "uci_val \<Rightarrow> string" where
  "val_string (Str s) = s"
| "val_string (Lst xs) = join '','' xs"

text \<open>The items \<open>value\<close> contributes to a list option: an array's items, or the value itself.\<close>

fun val_items :: "uci_val \<Rightarrow> string list" where
  "val_items (Str s) = [s]"
| "val_items (Lst xs) = xs"

text \<open>The items of the array stored under a key declared as a list option.\<close>

fun arr_items :: "uci_val \<Rightarrow> string list" where
  "arr_items (Lst xs) = xs"
| "arr_items (Str s) = []"

section \<open>Operations\<close>

text \<open>
  An omitted, \<open>null\<close> or empty \<open>option\<close> argument is the empty string: both tests of the source
  (\<open>option != null\<close> and \<open>option != ""\<close>) then leave the section's own key.
\<close>

definition uci_key :: "string \<Rightarrow> string \<Rightarrow> string \<Rightarrow> string" where
  "uci_key pkg section option =
     (let next_key = pkg @ ''.'' @ section
      in if option \<noteq> '''' then next_key @ ''.'' @ option else next_key)"

text \<open>
  The argument \<open>destroy_existing_nonlist\<close> is \<open>None\<close> when omitted. The source maps any value that
  is given, \<open>true\<close> included, to \<open>false\<close>.
\<close>

definition createListOption :: "string \<Rightarrow> string \<Rightarrow> string \<Rightarrow> bool option \<Rightarrow> uci \<Rightarrow> uci" where
  "createListOption pkg section option destroy u =
     (let destroy_existing_nonlist = (destroy = None);
          list_key = pkg @ ''.'' @ section @ ''.'' @ option
      in if ulists u list_key then u
         else
           let u1 = u\<lparr>ulists := (ulists u)(list_key := True)\<rparr>
           in case uvals u1 list_key of
                Some old \<Rightarrow>
                  u1\<lparr>uvals := (uvals u1)(list_key \<mapsto>
                        Lst (if \<not> destroy_existing_nonlist then [val_string old] else []))\<rparr>
              | None \<Rightarrow>
                  u1\<lparr>ukeys := ukeys u1 @ [list_key], uvals := (uvals u1)(list_key \<mapsto> Lst [])\<rparr>)"

definition uci_set_key :: "string \<Rightarrow> uci_val \<Rightarrow> bool \<Rightarrow> uci \<Rightarrow> uci" where
  "uci_set_key next_key v preserve u =
     (case uvals u next_key of
        Some old \<Rightarrow>
          if ulists u next_key
          then u\<lparr>uvals := (uvals u)(next_key \<mapsto>
                    Lst ((if preserve then arr_items old else []) @ val_items v))\<rparr>
          else u\<lparr>uvals := (uvals u)(next_key \<mapsto> v)\<rparr>
      | None \<Rightarrow>
          u\<lparr>ukeys := ukeys u @ [next_key],
             uvals := (uvals u)(next_key \<mapsto>
                        (if ulists u next_key then Lst (val_items v) else v))\<rparr>)"

definition uci_set :: "string \<Rightarrow> string \<Rightarrow> string \<Rightarrow> uci_val \<Rightarrow> bool \<Rightarrow> uci \<Rightarrow> uci" where
  "uci_set pkg section option v preserveExistingListValues u =
     uci_set_key (uci_key pkg section option) v preserveExistingListValues u"

definition uci_get :: "uci \<Rightarrow> string \<Rightarrow> string \<Rightarrow> string \<Rightarrow> uci_val" where
  "uci_get u pkg section option =
     (case uvals u (uci_key pkg section option) of Some v \<Rightarrow> v | None \<Rightarrow> Str '''')"

text \<open>\<open>value.split(/\r\n|\r|\n/)\<close>.\<close>

definition starts_lf :: "string \<Rightarrow> bool" where
  "starts_lf xs \<longleftrightarrow> (case xs of [] \<Rightarrow> False | y # _ \<Rightarrow> y = CHR 0x0A)"

fun split_lines :: "string \<Rightarrow> string list" where
  "split_lines [] = [[]]"
| "split_lines (x # xs) =
     (if x = CHR 0x0D \<and> starts_lf xs then [] # split_lines (drop 1 xs)
      else if x = CHR 0x0D \<or> x = CHR 0x0A then [] # split_lines xs
      else (case split_lines xs of [] \<Rightarrow> [[x]] | w # ws \<Rightarrow> (x # w) # ws))"

definition setLines :: "string \<Rightarrow> string \<Rightarrow> string \<Rightarrow> string \<Rightarrow> uci \<Rightarrow> uci" where
  "setLines pkg section option v u =
     (let u1 = createListOption pkg section option (Some True) u;
          lines = split_lines v;
          u2 = uci_set pkg section option (Lst (take 1 lines)) False u1
      in fold (\<lambda>line w. uci_set pkg section option (Str line) True w) (drop 1 lines) u2)"

definition getLines :: "uci \<Rightarrow> string \<Rightarrow> string \<Rightarrow> string \<Rightarrow> string" where
  "getLines u pkg section option =
     join [CHR 0x0A] (case uci_get u pkg section option of Lst xs \<Rightarrow> xs | Str _ \<Rightarrow> [])"

text \<open>
  The three anchored patterns on keys: two dot-free parts, three dot-free parts, and three parts
  of which the last may go on. The bracket of the source is the part's capture group.
\<close>

definition match_section_key :: "string \<Rightarrow> (string \<times> string) option" where
  "match_section_key key =
     (case split_on CHR ''.'' key of
        [p, s] \<Rightarrow> if p \<noteq> [] \<and> s \<noteq> [] then Some (p, s) else None
      | _ \<Rightarrow> None)"

definition match_option_key :: "string \<Rightarrow> (string \<times> string \<times> string) option" where
  "match_option_key key =
     (case split_on CHR ''.'' key of
        [p, s, opt] \<Rightarrow> if p \<noteq> [] \<and> s \<noteq> [] \<and> opt \<noteq> [] then Some (p, s, opt) else None
      | _ \<Rightarrow> None)"

definition match_option_prefix :: "string \<Rightarrow> bool" where
  "match_option_prefix key \<longleftrightarrow>
     (case split_on CHR ''.'' key of
        p # s # opt # _ \<Rightarrow> p \<noteq> [] \<and> s \<noteq> [] \<and> opt \<noteq> []
      | _ \<Rightarrow> False)"

fun collect_options :: "uci \<Rightarrow> string \<Rightarrow> bool \<Rightarrow> string list \<Rightarrow> string list js_result" where
  "collect_options u test includeLists [] = Inr []"
| "collect_options u test includeLists (key # ks) =
     (if re_search (re_of_string test) key \<and> match_option_prefix key
         \<and> (includeLists \<or> \<not> ulists u key)
      then (case match_option_key key of
              None \<Rightarrow> Inl TypeError
            | Some (_, _, opt) \<Rightarrow>
                (case collect_options u test includeLists ks of
                   Inl e \<Rightarrow> Inl e
                 | Inr matches \<Rightarrow> Inr (opt # matches)))
      else collect_options u test includeLists ks)"

definition getAllOptionsInSection ::
    "uci \<Rightarrow> string \<Rightarrow> string \<Rightarrow> bool \<Rightarrow> string list js_result" where
  "getAllOptionsInSection u pkg section includeLists =
     collect_options u (pkg @ ''.'' @ section) includeLists (ukeys u)"

definition getAllSectionsOfType :: "uci \<Rightarrow> string \<Rightarrow> string \<Rightarrow> string list" where
  "getAllSectionsOfType u pkg ty =
     List.map_filter
       (\<lambda>key. if re_search (re_of_string pkg) key
              then (case match_section_key key of
                      Some (_, section) \<Rightarrow>
                        if map_option val_string (uvals u key) = Some ty then Some section else None
                    | None \<Rightarrow> None)
              else None)
       (ukeys u)"

definition getAllSections :: "uci \<Rightarrow> string \<Rightarrow> string list" where
  "getAllSections u pkg =
     List.map_filter
       (\<lambda>key. if re_search (re_of_string pkg) key
              then map_option snd (match_section_key key) else None)
       (ukeys u)"

definition remove_key :: "string \<Rightarrow> uci \<Rightarrow> uci \<times> uci_val" where
  "remove_key removeKey u =
     (let u1 = u\<lparr>ulists := (ulists u)(removeKey := False)\<rparr>
      in case uvals u1 removeKey of
           Some v \<Rightarrow>
             (u1\<lparr>uvals := (uvals u1)(removeKey := None),
                 ukeys := filter (\<lambda>nextKey. nextKey \<noteq> removeKey) (ukeys u1)\<rparr>, v)
         | None \<Rightarrow> (u1, Str ''''))"

definition uci_remove :: "string \<Rightarrow> string \<Rightarrow> string \<Rightarrow> uci \<Rightarrow> uci \<times> uci_val" where
  "uci_remove pkg section option u = remove_key (uci_key pkg section option) u"

definition section_pattern :: "string \<Rightarrow> string \<Rightarrow> re_tok list" where
  "section_pattern pkg section =
     re_of_string pkg @ [Lit CHR ''.''] @ re_of_string section @ [Lit CHR ''.'']"

definition removeSection :: "string \<Rightarrow> string \<Rightarrow> uci \<Rightarrow> uci" where
  "removeSection pkg section u =
     (let removeKeys = map (\<lambda>key. split_on CHR ''.'' key ! 2)
                         (filter (re_search (section_pattern pkg section)) (ukeys u));
          sectionDefined = (pkg @ ''.'' @ section \<in> set (ukeys u));
          u1 = fold (\<lambda>rk w. fst (uci_remove pkg section rk w)) removeKeys u
      in if sectionDefined then fst (uci_remove pkg section '''' u1) else u1)"

definition removeAllSectionsOfType :: "string \<Rightarrow> string \<Rightarrow> uci \<Rightarrow> uci" where
  "removeAllSectionsOfType pkg ty u =
     fold (\<lambda>section w. removeSection pkg section w) (getAllSectionsOfType u pkg ty) u"

fun clone_keys :: "uci \<Rightarrow> string list \<Rightarrow> uci \<Rightarrow> uci js_result" where
  "clone_keys u [] copy = Inr copy"
| "clone_keys u (key # ks) copy =
     (let copy1 = (if ulists u key then copy\<lparr>ulists := (ulists copy)(key := True)\<rparr> else copy);
          v = (case uvals u key of Some v \<Rightarrow> v | None \<Rightarrow> Str '''')
      in case match_option_key key of
           Some (p, s, opt) \<Rightarrow> clone_keys u ks (uci_set p s opt v True copy1)
         | None \<Rightarrow>
             (case match_section_key key of
                Some (p, s) \<Rightarrow> clone_keys u ks (uci_set p s '''' v True copy1)
              | None \<Rightarrow> Inl TypeError))"

definition uci_clone :: "uci \<Rightarrow> uci js_result" where
  "uci_clone u = clone_keys u (ukeys u) newUCIContainer"

definition uci_print :: "uci \<Rightarrow> string" where
  "uci_print u =
     concat (map (\<lambda>key. [CHR 0x0A] @ key @ '' = \"''
                  @ (case uvals u key of Some v \<Rightarrow> val_string v | None \<Rightarrow> ''null'')
                  @ ''\"'') (ukeys u))"

section \<open>The interface of an ordered configuration store\<close>

text \<open>
  What the pages rely on: writing a key makes the value readable under that key alone and keeps
  the position of the key, or appends a new key at the end; deleting removes one key and keeps
  the order of the others. \<open>plain\<close> keys hold what is written to them (a list option holds its
  items instead).
\<close>

locale config_store =
  fixes lookup :: "'s \<Rightarrow> 'k \<Rightarrow> 'v option"
    and put :: "'k \<Rightarrow> 'v \<Rightarrow> 's \<Rightarrow> 's"
    and delete :: "'k \<Rightarrow> 's \<Rightarrow> 's"
    and order :: "'s \<Rightarrow> 'k list"
    and plain :: "'s \<Rightarrow> 'k \<Rightarrow> bool"
    and inv :: "'s \<Rightarrow> bool"
  assumes inv_put: "inv s \<Longrightarrow> inv (put k v s)"
    and inv_delete: "inv s \<Longrightarrow> inv (delete k s)"
    and order_lookup: "inv s \<Longrightarrow> distinct (order s) \<and> set (order s) = dom (lookup s)"
    and lookup_put_same: "plain s k \<Longrightarrow> lookup (put k v s) k = Some v"
    and lookup_put_other: "k' \<noteq> k \<Longrightarrow> lookup (put k v s) k' = lookup s k'"
    and lookup_put_dom: "k \<in> dom (lookup (put k v s))"
    and plain_put: "plain (put k v s) k' = plain s k'"
    and lookup_delete: "lookup (delete k s) = (lookup s)(k := None)"
    and plain_delete: "plain s k' \<Longrightarrow> plain (delete k s) k'"
    and order_put: "inv s \<Longrightarrow> order (put k v s) =
           (if k \<in> set (order s) then order s else order s @ [k])"
    and order_delete: "inv s \<Longrightarrow> order (delete k s) = removeAll k (order s)"
begin

definition put_all :: "('k \<times> 'v) list \<Rightarrow> 's \<Rightarrow> 's" where
  "put_all kvs s = fold (\<lambda>(k, v). put k v) kvs s"

definition delete_all :: "'k list \<Rightarrow> 's \<Rightarrow> 's" where
  "delete_all ks s = fold delete ks s"

lemma put_all_simps [simp]:
  "put_all [] s = s"
  "put_all ((k, v) # kvs) s = put_all kvs (put k v s)"
  by (simp_all add: put_all_def)

lemma delete_all_simps [simp]:
  "delete_all [] s = s"
  "delete_all (k # ks) s = delete_all ks (delete k s)"
  by (simp_all add: delete_all_def)

lemma inv_put_all: "inv s \<Longrightarrow> inv (put_all kvs s)"
  by (induction kvs arbitrary: s) (auto simp: inv_put)

lemma inv_delete_all: "inv s \<Longrightarrow> inv (delete_all ks s)"
  by (induction ks arbitrary: s) (auto simp: inv_delete)

lemma put_all_frame: "k \<notin> fst ` set kvs \<Longrightarrow> lookup (put_all kvs s) k = lookup s k"
  by (induction kvs arbitrary: s) (auto simp: lookup_put_other)

lemma put_all_last_wins:
  assumes "\<forall>k \<in> fst ` set kvs. plain s k" and "k \<in> fst ` set kvs"
  shows "lookup (put_all kvs s) k = map_of (rev kvs) k"
  using assms
proof (induction kvs arbitrary: s)
  case Nil
  then show ?case by simp
next
  case (Cons kv kvs)
  obtain k0 v0 where kv: "kv = (k0, v0)" by (cases kv)
  show ?case
  proof (cases "k \<in> fst ` set kvs")
    case True
    moreover have "\<forall>k \<in> fst ` set kvs. plain (put k0 v0 s) k"
      using Cons.prems(1) by (auto simp: plain_put)
    ultimately have "lookup (put_all kvs (put k0 v0 s)) k = map_of (rev kvs) k"
      by (intro Cons.IH) auto
    moreover from True have "k \<in> dom (map_of (rev kvs))" by (simp add: dom_map_of_conv_image_fst)
    ultimately show ?thesis using kv by (auto simp: map_add_def)
  next
    case False
    with Cons.prems kv have "k = k0" and "plain s k0" by auto
    moreover from False have "map_of (rev kvs) k = None" by (simp add: map_of_eq_None_iff)
    ultimately show ?thesis using False kv
      by (auto simp: put_all_frame lookup_put_same map_add_def)
  qed
qed

lemma order_put_all:
  "inv s \<Longrightarrow> order (put_all kvs s) = order s @ filter (\<lambda>k. k \<notin> set (order s)) (rev (remdups (rev (map fst kvs))))"
proof (induction kvs rule: rev_induct)
  case Nil
  then show ?case by simp
next
  case (snoc kv kvs)
  obtain k v where kv: "kv = (k, v)" by (cases kv)
  have "order (put_all (kvs @ [kv]) s) = order (put k v (put_all kvs s))"
    by (simp add: put_all_def kv)
  also have "\<dots> = (if k \<in> set (order (put_all kvs s)) then order (put_all kvs s)
                 else order (put_all kvs s) @ [k])"
    using snoc.prems by (simp add: order_put inv_put_all)
  finally show ?case using snoc kv by (auto simp: image_iff)
qed

lemma lookup_delete_all: "lookup (delete_all ks s) = (lookup s) |` (- set ks)"
  by (induction ks arbitrary: s) (auto simp: lookup_delete restrict_map_def fun_eq_iff)

lemma order_delete_all: "inv s \<Longrightarrow> order (delete_all ks s) = filter (\<lambda>k. k \<notin> set ks) (order s)"
  by (induction ks arbitrary: s)
    (auto simp: order_delete inv_delete removeAll_filter_not_eq conj_commute intro: filter_cong)

end

section \<open>The container implements the interface\<close>

text \<open>
  The invariant: the key list has no duplicate and lists exactly the keys with a value, and every
  key declared as a list option holds an array. \<open>keys_wf\<close> adds that every key has the shape
  \<open>pkg.section\<close> or \<open>pkg.section.option\<close> with non-empty dot-free parts.
\<close>

definition uci_wf :: "uci \<Rightarrow> bool" where
  "uci_wf u \<longleftrightarrow> distinct (ukeys u) \<and> set (ukeys u) = dom (uvals u)
     \<and> (\<forall>k. ulists u k \<longrightarrow> (\<exists>xs. uvals u k = Some (Lst xs)))"

definition name_ok :: "string \<Rightarrow> bool" where
  "name_ok n \<longleftrightarrow> n \<noteq> [] \<and> CHR ''.'' \<notin> set n"

definition key_ok :: "string \<Rightarrow> bool" where
  "key_ok k \<longleftrightarrow> match_section_key k \<noteq> None \<or> match_option_key k \<noteq> None"

definition keys_wf :: "uci \<Rightarrow> bool" where
  "keys_wf u \<longleftrightarrow> (\<forall>k \<in> set (ukeys u). key_ok k)"

lemma uci_wf_new [simp]: "uci_wf newUCIContainer"
  by (simp add: uci_wf_def newUCIContainer_def)

lemma uci_wf_list: "uci_wf u \<Longrightarrow> ulists u k \<Longrightarrow> \<exists>xs. uvals u k = Some (Lst xs)"
  by (simp add: uci_wf_def)

interpretation ucs: config_store uvals "\<lambda>k v. uci_set_key k v False"
  "\<lambda>k u. fst (remove_key k u)" ukeys "\<lambda>u k. \<not> ulists u k" uci_wf
proof unfold_locales
  fix u k v
  assume "uci_wf u"
  then show "uci_wf (uci_set_key k v False u)"
    by (auto simp: uci_wf_def uci_set_key_def split: option.splits)
next
  fix u k
  assume "uci_wf u"
  then show "uci_wf (fst (remove_key k u))"
    by (auto simp: uci_wf_def remove_key_def Let_def split: option.splits)
next
  fix u k v
  assume "uci_wf u"
  then show "ukeys (uci_set_key k v False u) = (if k \<in> set (ukeys u) then ukeys u else ukeys u @ [k])"
    by (auto simp: uci_wf_def uci_set_key_def split: option.splits)
next
  fix u k
  assume "uci_wf u"
  then show "ukeys (fst (remove_key k u)) = removeAll k (ukeys u)"
    by (cases "uvals u k")
      (force simp: uci_wf_def remove_key_def Let_def domIff,
        auto simp: remove_key_def Let_def removeAll_filter_not_eq intro!: filter_cong)
qed (auto simp: uci_wf_def uci_set_key_def remove_key_def Let_def split: option.splits)

section \<open>Lemmas on keys\<close>

lemma name_ok_split [simp]: "name_ok n \<Longrightarrow> split_on CHR ''.'' n = [n]"
  by (simp add: name_ok_def)

lemma match_section_key_Some:
  "match_section_key k = Some (p, s) \<longleftrightarrow> name_ok p \<and> name_ok s \<and> k = p @ ''.'' @ s"
proof
  assume "match_section_key k = Some (p, s)"
  then have "split_on CHR ''.'' k = [p, s]" and "p \<noteq> []" and "s \<noteq> []"
    by (auto simp: match_section_key_def split: list.splits if_splits)
  then show "name_ok p \<and> name_ok s \<and> k = p @ ''.'' @ s"
    by (auto simp: split_on_eq_iff name_ok_def)
next
  assume "name_ok p \<and> name_ok s \<and> k = p @ ''.'' @ s"
  then show "match_section_key k = Some (p, s)"
    by (auto simp: match_section_key_def name_ok_def split_on_append_sep)
qed

lemma match_option_key_Some:
  "match_option_key k = Some (p, s, opt) \<longleftrightarrow>
     name_ok p \<and> name_ok s \<and> name_ok opt \<and> k = p @ ''.'' @ s @ ''.'' @ opt"
proof
  assume "match_option_key k = Some (p, s, opt)"
  then have "split_on CHR ''.'' k = [p, s, opt]" and "p \<noteq> []" and "s \<noteq> []" and "opt \<noteq> []"
    by (auto simp: match_option_key_def split: list.splits if_splits)
  then show "name_ok p \<and> name_ok s \<and> name_ok opt \<and> k = p @ ''.'' @ s @ ''.'' @ opt"
    by (auto simp: split_on_eq_iff name_ok_def)
next
  assume "name_ok p \<and> name_ok s \<and> name_ok opt \<and> k = p @ ''.'' @ s @ ''.'' @ opt"
  then show "match_option_key k = Some (p, s, opt)"
    by (auto simp: match_option_key_def name_ok_def split_on_append_sep)
qed

lemma uci_key_section: "uci_key p s [] = p @ ''.'' @ s"
  by (simp add: uci_key_def)

lemma uci_key_option: "opt \<noteq> [] \<Longrightarrow> uci_key p s opt = p @ ''.'' @ s @ ''.'' @ opt"
  by (simp add: uci_key_def)

lemma split_uci_key [simp]:
  "name_ok p \<Longrightarrow> name_ok s \<Longrightarrow> opt = [] \<or> name_ok opt \<Longrightarrow>
     split_on CHR ''.'' (uci_key p s opt) = (if opt = [] then [p, s] else [p, s, opt])"
  by (auto simp: uci_key_def name_ok_def split_on_append_sep)

lemma uci_key_eq_iff:
  assumes "name_ok p" "name_ok s" "name_ok p'" "name_ok s'"
    and "opt = [] \<or> name_ok opt" and "opt' = [] \<or> name_ok opt'"
  shows "uci_key p s opt = uci_key p' s' opt' \<longleftrightarrow> p = p' \<and> s = s' \<and> opt = opt'"
proof
  assume "uci_key p s opt = uci_key p' s' opt'"
  with assms have "(if opt = [] then [p, s] else [p, s, opt]) =
      (if opt' = [] then [p', s'] else [p', s', opt'])"
    by (metis split_uci_key)
  then show "p = p' \<and> s = s' \<and> opt = opt'" by (auto split: if_splits)
qed simp

lemma key_ok_cases:
  assumes "key_ok k"
  obtains (sec) p s where "name_ok p" "name_ok s" "k = uci_key p s []"
    | (opt) p s opt where "name_ok p" "name_ok s" "name_ok opt" "k = uci_key p s opt"
proof (cases "match_section_key k")
  case (Some ps)
  then obtain p s where "match_section_key k = Some (p, s)" by (cases ps) auto
  then show thesis by (intro sec [of p s]) (simp_all add: match_section_key_Some uci_key_section)
next
  case None
  with assms obtain pso where "match_option_key k = Some pso" by (auto simp: key_ok_def)
  then obtain p s r where "match_option_key k = Some (p, s, r)" by (cases pso) auto
  then show thesis
    by (intro opt [of p s r]) (simp_all add: match_option_key_Some uci_key_option name_ok_def)
qed

lemma match_keys_uci_key [simp]:
  assumes "name_ok p" "name_ok s"
  shows "match_section_key (uci_key p s []) = Some (p, s)"
    and "match_option_key (uci_key p s []) = None"
    and "name_ok opt \<Longrightarrow> match_option_key (uci_key p s opt) = Some (p, s, opt)"
    and "name_ok opt \<Longrightarrow> match_section_key (uci_key p s opt) = None"
  using assms
  by (auto simp: match_section_key_def match_option_key_def name_ok_def uci_key_def split_on_append_sep)

section \<open>Every method preserves the invariant\<close>

lemma uci_wf_set_key [intro]: "uci_wf u \<Longrightarrow> uci_wf (uci_set_key k v preserve u)"
  by (auto simp: uci_wf_def uci_set_key_def split: option.splits)

lemma uci_wf_set [intro]: "uci_wf u \<Longrightarrow> uci_wf (uci_set pkg section option v preserve u)"
  by (auto simp: uci_set_def)

lemma uci_wf_createListOption [intro]:
  "uci_wf u \<Longrightarrow> uci_wf (createListOption pkg section option destroy u)"
  by (auto simp: uci_wf_def createListOption_def Let_def split: option.splits)

lemma uci_wf_fold:
  assumes "uci_wf u" and "\<And>x w. uci_wf w \<Longrightarrow> uci_wf (f x w)"
  shows "uci_wf (fold f xs u)"
  using assms by (induction xs arbitrary: u) auto

lemma uci_wf_setLines [intro]: "uci_wf u \<Longrightarrow> uci_wf (setLines pkg section option v u)"
  by (auto simp: setLines_def Let_def intro!: uci_wf_fold)

lemma uci_wf_remove [intro]: "uci_wf u \<Longrightarrow> uci_wf (fst (uci_remove pkg section option u))"
  by (simp add: uci_remove_def ucs.inv_delete)

lemma uci_wf_removeSection [intro]: "uci_wf u \<Longrightarrow> uci_wf (removeSection pkg section u)"
  by (auto simp: removeSection_def Let_def intro!: uci_wf_fold)

lemma uci_wf_removeAllSectionsOfType [intro]:
  "uci_wf u \<Longrightarrow> uci_wf (removeAllSectionsOfType pkg ty u)"
  by (auto simp: removeAllSectionsOfType_def intro!: uci_wf_fold)

text \<open>
  C2. The container's invariant (no duplicate key, exactly the keys with a value are listed, a
  list option holds an array) holds for a new container and is kept by every method that changes
  the state, whatever the arguments.
\<close>

theorem uci_methods_preserve_wf:
  "uci_wf newUCIContainer \<and>
   (uci_wf u \<longrightarrow>
     uci_wf (createListOption pkg section option destroy u)
     \<and> uci_wf (uci_set pkg section option v preserve u)
     \<and> uci_wf (setLines pkg section option txt u)
     \<and> uci_wf (fst (uci_remove pkg section option u))
     \<and> uci_wf (removeSection pkg section u)
     \<and> uci_wf (removeAllSectionsOfType pkg ty u))"
  by auto

section \<open>Reading after writing\<close>

lemma uvals_set_key:
  "uvals (uci_set_key k v preserve u) =
     (uvals u)(k \<mapsto>
        (if ulists u k
         then Lst ((if preserve then (case uvals u k of Some old \<Rightarrow> arr_items old | None \<Rightarrow> []) else [])
                   @ val_items v)
         else v))"
  by (auto simp: uci_set_key_def split: option.splits)

lemma ulists_set_key [simp]: "ulists (uci_set_key k v preserve u) = ulists u"
  by (auto simp: uci_set_key_def split: option.splits)

lemma ukeys_set_key:
  "uci_wf u \<Longrightarrow> ukeys (uci_set_key k v preserve u) =
     (if k \<in> set (ukeys u) then ukeys u else ukeys u @ [k])"
  by (auto simp: uci_wf_def uci_set_key_def split: option.splits)

lemma uvals_remove [simp]:
  "uvals (fst (uci_remove pkg section option u)) = (uvals u)(uci_key pkg section option := None)"
  by (simp add: uci_remove_def ucs.lookup_delete)

text \<open>The keys of one section: its own key and its options.\<close>

definition in_section :: "string \<Rightarrow> string \<Rightarrow> string \<Rightarrow> bool" where
  "in_section pkg section k \<longleftrightarrow>
     k = pkg @ ''.'' @ section \<or> prefix (pkg @ ''.'' @ section @ ''.'') k"

lemma uci_key_in_section: "in_section p s (uci_key p s opt)"
  by (cases "opt = []") (auto simp: in_section_def uci_key_section uci_key_option)

lemma in_section_uci_key:
  assumes "name_ok p" "name_ok s" "name_ok p'" "name_ok s'" "opt = [] \<or> name_ok opt"
  shows "in_section p s (uci_key p' s' opt) \<longleftrightarrow> p = p' \<and> s = s'"
proof
  assume "p = p' \<and> s = s'"
  then show "in_section p s (uci_key p' s' opt)" by (simp add: uci_key_in_section)
next
  assume "in_section p s (uci_key p' s' opt)"
  then consider "uci_key p' s' opt = uci_key p s []"
    | r where "uci_key p' s' opt = p @ CHR ''.'' # s @ CHR ''.'' # r"
    by (auto simp: in_section_def uci_key_section prefix_def)
  then show "p = p' \<and> s = s'"
  proof cases
    case 1
    with assms show ?thesis by (simp add: uci_key_eq_iff)
  next
    case 2
    have "split_on CHR ''.'' (p @ CHR ''.'' # s @ CHR ''.'' # r) = p # s # split_on CHR ''.'' r"
      using assms by (simp add: name_ok_def split_on_append_sep)
    with 2 assms show ?thesis by (metis list.inject split_uci_key)
  qed
qed

lemma section_pattern_names:
  "name_ok p \<Longrightarrow> name_ok s \<Longrightarrow> section_pattern p s = map Lit (p @ ''.'' @ s @ ''.'')"
  by (simp add: section_pattern_def re_of_string_free name_ok_def)

lemma fold_remove_delete_all:
  "fold (\<lambda>rk w. fst (uci_remove p s rk w)) rks u = ucs.delete_all (map (uci_key p s) rks) u"
  by (induction rks arbitrary: u) (auto simp: uci_remove_def)

lemma removeSection_delete_all:
  "removeSection p s u =
     ucs.delete_all
       (map (uci_key p s) (map (\<lambda>key. split_on CHR ''.'' key ! 2)
          (filter (re_search (section_pattern p s)) (ukeys u)))
        @ (if p @ ''.'' @ s \<in> set (ukeys u) then [uci_key p s []] else [])) u"
  unfolding removeSection_def Let_def fold_remove_delete_all
  by (simp add: ucs.delete_all_def uci_remove_def del: map_map)


lemma removeSection_keys:
  assumes "name_ok p" "name_ok s" "keys_wf u" "k \<in> set (ukeys u)"
  shows "k \<in> set (map (uci_key p s) (map (\<lambda>key. split_on CHR ''.'' key ! 2)
            (filter (re_search (section_pattern p s)) (ukeys u)))
          @ (if p @ ''.'' @ s \<in> set (ukeys u) then [uci_key p s []] else []))
         \<longleftrightarrow> in_section p s k" (is "k \<in> set ?dels \<longleftrightarrow> _")
proof
  assume "k \<in> set ?dels"
  then show "in_section p s k"
    by (auto simp: uci_key_in_section split: if_splits)
next
  assume sec: "in_section p s k"
  from assms(3,4) have "key_ok k" by (simp add: keys_wf_def)
  then show "k \<in> set ?dels"
  proof (cases rule: key_ok_cases)
    case (sec p' s')
    with \<open>in_section p s k\<close> assms have "k = uci_key p s []"
      by (simp add: in_section_uci_key)
    with assms(4) show ?thesis by (simp add: uci_key_section)
  next
    case (opt p' s' opt')
    with sec assms have k: "k = uci_key p s opt'" by (simp add: in_section_uci_key)
    have "prefix (p @ ''.'' @ s @ ''.'') k"
      using k opt(3) by (simp add: uci_key_option name_ok_def)
    then have "re_search (section_pattern p s) k"
      unfolding section_pattern_names [OF assms(1,2)] re_search_Lit by (rule prefix_imp_sublist)
    moreover have "split_on CHR ''.'' k ! 2 = opt'"
      using k assms(1,2) opt(3) by (auto simp: name_ok_def)
    ultimately show ?thesis using assms(4) k by force
  qed
qed

text \<open>
  C3. \<open>set\<close> and \<open>get\<close>: a key that is not a list option reads back exactly the value written; a
  list option reads back the written items, after the old ones when they are preserved; every
  other key reads as before; a new key goes to the end of the key order and an old one stays put.
\<close>

theorem uci_get_set:
  assumes "uci_wf u"
  shows "uvals (uci_set pkg section option v preserve u) (uci_key pkg section option) =
           Some (if ulists u (uci_key pkg section option)
                 then Lst ((if preserve then arr_items (uci_get u pkg section option) else [])
                           @ val_items v)
                 else v)
         \<and> (\<forall>k. k \<noteq> uci_key pkg section option \<longrightarrow>
               uvals (uci_set pkg section option v preserve u) k = uvals u k)
         \<and> ukeys (uci_set pkg section option v preserve u) =
             (if uci_key pkg section option \<in> set (ukeys u) then ukeys u
              else ukeys u @ [uci_key pkg section option])"
  using assms
  by (auto simp: uci_set_def uvals_set_key ukeys_set_key uci_get_def split: option.splits)

lemma removeSection_effect:
  assumes "uci_wf u" and "keys_wf u" and "name_ok pkg" and "name_ok section"
  shows "uvals (removeSection pkg section u) k =
           (if in_section pkg section k then None else uvals u k)
         \<and> ukeys (removeSection pkg section u) =
             filter (\<lambda>k. \<not> in_section pkg section k) (ukeys u)"
proof -
  obtain dels where eq: "removeSection pkg section u = ucs.delete_all dels u"
    and dels: "\<And>k. k \<in> set (ukeys u) \<Longrightarrow> k \<in> set dels \<longleftrightarrow> in_section pkg section k"
    using removeSection_delete_all removeSection_keys assms(2,3,4) by blast
  have "uvals (removeSection pkg section u) k = (uvals u |` (- set dels)) k"
    by (simp only: eq ucs.lookup_delete_all)
  moreover have "uvals u k = None" if "k \<notin> set (ukeys u)"
    using assms(1) that by (auto simp: uci_wf_def)
  ultimately have "uvals (removeSection pkg section u) k =
      (if in_section pkg section k then None else uvals u k)"
    using dels by (cases "k \<in> set (ukeys u)") (simp_all add: restrict_map_def)
  moreover have "ukeys (removeSection pkg section u) =
      filter (\<lambda>k. \<not> in_section pkg section k) (ukeys u)"
    unfolding eq ucs.order_delete_all [OF assms(1)] using dels by (intro filter_cong) auto
  ultimately show ?thesis ..
qed

text \<open>
  C18. \<open>removeSection\<close> removes the section's own key and all its options, nothing else, and keeps
  the order of the remaining keys, although it collects the options with an unanchored pattern.
\<close>

theorem removeSection_exact:
  assumes "uci_wf u" and "keys_wf u" and "name_ok pkg" and "name_ok section"
  shows "uvals (removeSection pkg section u) k =
           (if in_section pkg section k then None else uvals u k)
         \<and> ukeys (removeSection pkg section u) =
             filter (\<lambda>k. \<not> in_section pkg section k) (ukeys u)"
  using removeSection_effect [OF assms] .

section \<open>Cloning, lines, and section listings\<close>

text \<open>The copy after the keys \<open>ks\<close> have been processed.\<close>

definition uci_restrict :: "uci \<Rightarrow> string list \<Rightarrow> uci" where
  "uci_restrict u ks =
     \<lparr>ukeys = ks, uvals = uvals u |` set ks, ulists = (\<lambda>k. k \<in> set ks \<and> ulists u k)\<rparr>"

lemma clone_step:
  assumes "uci_wf u" "k \<in> set (ukeys u)" "k \<notin> set ks"
  shows "uci_set_key k (case uvals u k of Some v \<Rightarrow> v | None \<Rightarrow> Str []) True
           (if ulists u k then (uci_restrict u ks)\<lparr>ulists := (ulists (uci_restrict u ks))(k := True)\<rparr>
            else uci_restrict u ks)
         = uci_restrict u (ks @ [k])"
proof -
  from assms(1,2) obtain v where v: "uvals u k = Some v"
    by (auto simp: uci_wf_def)
  from assms(1) have lists: "ulists u k \<longrightarrow> (\<exists>xs. v = Lst xs)"
    using v by (fastforce dest: uci_wf_list)
  from assms(3) v have "uvals u |` insert k (set ks) = (uvals u |` set ks)(k \<mapsto> v)"
    by (auto simp: restrict_map_def)
  with assms(3) v lists show ?thesis
    by (cases v) (auto simp: uci_set_key_def uci_restrict_def fun_eq_iff restrict_map_def)
qed

lemma clone_keys_restrict:
  assumes "uci_wf u" "keys_wf u" "set ks \<subseteq> set (ukeys u)" "distinct (pre @ ks)"
  shows "clone_keys u ks (uci_restrict u pre) = Inr (uci_restrict u (pre @ ks))"
  using assms(3,4)
proof (induction ks arbitrary: pre)
  case Nil
  then show ?case by simp
next
  case (Cons k ks)
  from Cons.prems assms(2) have "key_ok k" by (auto simp: keys_wf_def)
  moreover have "clone_keys u ks (uci_restrict u (pre @ [k])) = Inr (uci_restrict u ((pre @ [k]) @ ks))"
    using Cons.prems by (intro Cons.IH) auto
  moreover note clone_step [OF assms(1), of k pre]
  ultimately show ?case
    using Cons.prems by (auto elim!: key_ok_cases simp: uci_set_def Let_def)
qed

text \<open>
  \<open>clone\<close> of a well-formed container returns (it throws no error) and the copy equals the
  original: the same keys in the same order, the same values, the same list options.
\<close>

theorem clone_identity:
  assumes "uci_wf u" and "keys_wf u"
  shows "uci_clone u = Inr u"
proof -
  have new: "newUCIContainer = uci_restrict u []"
    by (simp add: newUCIContainer_def uci_restrict_def)
  have "uci_clone u = Inr (uci_restrict u (ukeys u))"
    unfolding uci_clone_def new
    using clone_keys_restrict [of u "ukeys u" "[]"] assms by (simp add: uci_wf_def)
  moreover have "uci_restrict u (ukeys u) = u"
    using assms(1) uci_wf_list [OF assms(1)]
    by (fastforce simp: uci_restrict_def uci_wf_def restrict_map_def fun_eq_iff domIff
        intro!: uci.equality)
  ultimately show ?thesis by simp
qed

text \<open>Line endings normalised to a line feed.\<close>

fun unix_lines :: "string \<Rightarrow> string" where
  "unix_lines [] = []"
| "unix_lines (x # xs) =
     (if x = CHR 0x0D \<and> starts_lf xs then CHR 0x0A # unix_lines (drop 1 xs)
      else if x = CHR 0x0D then CHR 0x0A # unix_lines xs
      else x # unix_lines xs)"

lemma split_lines_not_Nil [simp]: "split_lines s \<noteq> []"
  by (cases s) (auto split: list.splits)

lemma join_split_lines: "join [CHR 0x0A] (split_lines s) = unix_lines s"
proof (induction s rule: split_lines.induct)
  case 1
  then show ?case by simp
next
  case (2 x xs)
  then show ?case
    by (cases "split_lines xs") (auto simp: join_Cons)
qed

lemma unix_lines_id: "CHR 0x0D \<notin> set s \<Longrightarrow> unix_lines s = s"
  by (induction s) auto

lemma fold_set_append:
  assumes "ulists u (uci_key pkg section option)"
    and "uvals u (uci_key pkg section option) = Some (Lst xs)"
  shows "uvals (fold (\<lambda>line w. uci_set pkg section option (Str line) True w) ls u)
           (uci_key pkg section option) = Some (Lst (xs @ ls))"
  using assms
proof (induction ls arbitrary: u xs)
  case Nil
  then show ?case by simp
next
  case (Cons l ls)
  have "ulists (uci_set pkg section option (Str l) True u) (uci_key pkg section option)"
    and "uvals (uci_set pkg section option (Str l) True u) (uci_key pkg section option) = Some (Lst (xs @ [l]))"
    using Cons.prems by (simp_all add: uci_set_def uvals_set_key)
  from Cons.IH [OF this] show ?case by simp
qed

lemma createListOption_declares:
  assumes "uci_wf u" "option \<noteq> []"
  shows "ulists (createListOption pkg section option d u) (uci_key pkg section option)"
  using assms by (auto simp: createListOption_def uci_key_option Let_def split: option.splits)

lemma setLines_value:
  assumes "uci_wf u" "option \<noteq> []"
  shows "uvals (setLines pkg section option txt u) (uci_key pkg section option) =
           Some (Lst (split_lines txt))"
proof -
  let ?u1 = "createListOption pkg section option (Some True) u"
  let ?u2 = "uci_set pkg section option (Lst (take 1 (split_lines txt))) False ?u1"
  have "ulists ?u1 (uci_key pkg section option)"
    using assms by (rule createListOption_declares)
  then have "ulists ?u2 (uci_key pkg section option)"
    and "uvals ?u2 (uci_key pkg section option) = Some (Lst (take 1 (split_lines txt)))"
    by (simp_all add: uci_set_def uvals_set_key)
  from fold_set_append [OF this, of "drop 1 (split_lines txt)"] show ?thesis
    by (simp add: setLines_def Let_def)
qed

text \<open>
  Text stored with \<open>setLines\<close> is read back by \<open>getLines\<close> with every line ending turned into a
  line feed, whatever was stored under the key before; text without carriage returns comes back
  unchanged.
\<close>

theorem getLines_setLines:
  assumes "uci_wf u" and "option \<noteq> []"
  shows "getLines (setLines pkg section option txt u) pkg section option = unix_lines txt
         \<and> (CHR 0x0D \<notin> set txt \<longrightarrow>
              getLines (setLines pkg section option txt u) pkg section option = txt)"
  using setLines_value [OF assms]
  by (simp add: getLines_def uci_get_def join_split_lines unix_lines_id)

text \<open>The sections of one type in one package, in key order: what the listing is meant to return.\<close>

definition sections_of_type :: "uci \<Rightarrow> string \<Rightarrow> string \<Rightarrow> string list" where
  "sections_of_type u pkg ty =
     List.map_filter
       (\<lambda>key. case match_section_key key of
                Some (p, s) \<Rightarrow>
                  if p = pkg \<and> map_option val_string (uvals u key) = Some ty then Some s else None
              | None \<Rightarrow> None)
       (ukeys u)"

text \<open>No section of another package has the package's name as a part of its key.\<close>

definition pkg_isolated :: "uci \<Rightarrow> string \<Rightarrow> bool" where
  "pkg_isolated u pkg \<longleftrightarrow>
     (\<forall>key \<in> set (ukeys u). case match_section_key key of
        Some (p, s) \<Rightarrow> p \<noteq> pkg \<longrightarrow> \<not> sublist pkg key | None \<Rightarrow> True)"

lemma set_map_filter_iff: "y \<in> set (List.map_filter f xs) \<longleftrightarrow> (\<exists>x \<in> set xs. f x = Some y)"
  by (induction xs) (auto simp: List.map_filter_simps split: option.split)

lemma in_sections_of_type:
  "s \<in> set (getAllSectionsOfType u pkg ty) \<longleftrightarrow>
     (\<exists>key p. key \<in> set (ukeys u) \<and> re_search (re_of_string pkg) key \<and> match_section_key key = Some (p, s)
        \<and> map_option val_string (uvals u key) = Some ty)"
proof -
  have "(if re_search (re_of_string pkg) key
         then (case match_section_key key of
                 Some (_, section) \<Rightarrow> if map_option val_string (uvals u key) = Some ty then Some section else None
               | None \<Rightarrow> None)
         else None) = Some s \<longleftrightarrow>
      (\<exists>p. re_search (re_of_string pkg) key \<and> match_section_key key = Some (p, s)
        \<and> map_option val_string (uvals u key) = Some ty)" for key
    by (cases "match_section_key key") (auto split: if_splits)
  then show ?thesis unfolding getAllSectionsOfType_def set_map_filter_iff by blast
qed

lemma map_filter_cong:
  "(\<And>x. x \<in> set xs \<Longrightarrow> f x = g x) \<Longrightarrow> List.map_filter f xs = List.map_filter g xs"
  by (induction xs) (auto simp: List.map_filter_simps split: option.split)

lemma sections_listed:
  assumes "name_ok pkg" and "pkg_isolated u pkg"
  shows "getAllSectionsOfType u pkg ty = sections_of_type u pkg ty"
proof -
  have "re_search (re_of_string pkg) key \<longleftrightarrow> p = pkg"
    if "key \<in> set (ukeys u)" "match_section_key key = Some (p, s)" for key p s
  proof -
    have "re_search (re_of_string pkg) key \<longleftrightarrow> sublist pkg key"
      using assms(1) by (simp add: re_of_string_free re_search_Lit name_ok_def)
    moreover have "sublist pkg key" if "p = pkg"
      using \<open>match_section_key key = Some (p, s)\<close> that by (simp add: match_section_key_Some)
    moreover have "\<not> sublist pkg key" if "p \<noteq> pkg"
      using assms(2) \<open>key \<in> set (ukeys u)\<close> \<open>match_section_key key = Some (p, s)\<close> that
      by (auto simp: pkg_isolated_def split: option.splits)
    ultimately show ?thesis by blast
  qed
  then show ?thesis
    unfolding getAllSectionsOfType_def sections_of_type_def
    by (intro map_filter_cong) (auto split: option.splits)
qed

text \<open>
  \<open>getAllSectionsOfType\<close> returns exactly the sections of the package that have the type, in
  the order in which they were added, provided the package's name occurs in no section key of
  another package.
\<close>

theorem getAllSectionsOfType_exact:
  assumes "name_ok pkg" and "pkg_isolated u pkg"
  shows "getAllSectionsOfType u pkg ty = sections_of_type u pkg ty"
  using sections_listed [OF assms] .

section \<open>Concrete instances\<close>

text \<open>A container as a page loads it: two packages, a section each, a plain and a list option.\<close>

definition demo_uci :: uci where
  "demo_uci =
     uci_set ''firewall'' ''lan'' ''network'' (Str ''lan'') True
      (createListOption ''firewall'' ''lan'' ''network'' (Some True)
       (uci_set ''firewall'' ''lan'' [] (Str ''zone'') False
        (uci_set ''network'' ''lan'' ''ipaddr'' (Str ''192.168.1.1'') False
         (uci_set ''network'' ''lan'' [] (Str ''interface'') False newUCIContainer))))"

lemma demo_uci_wf: "uci_wf demo_uci"
  unfolding demo_uci_def by (intro uci_wf_set uci_wf_createListOption uci_wf_new)

lemma demo_uci_keys:
  "ukeys demo_uci = [''network.lan'', ''network.lan.ipaddr'', ''firewall.lan'', ''firewall.lan.network'']"
  by code_simp

lemma demo_uci_keys_wf: "keys_wf demo_uci"
  unfolding keys_wf_def demo_uci_keys by code_simp

theorem uci_methods_preserve_wf_witness:
  "uci_wf (removeSection ''network'' ''lan'' demo_uci)
   \<and> uci_wf (setLines ''network'' ''lan'' ''notes'' ''a'' demo_uci)"
  using uci_methods_preserve_wf [of demo_uci] demo_uci_wf by blast

theorem uci_get_set_witness:
  "uvals (uci_set ''firewall'' ''lan'' ''network'' (Str ''wg'') True demo_uci) ''firewall.lan.network''
     = Some (Lst [''lan'', ''wg''])"
proof -
  have "uci_key ''firewall'' ''lan'' ''network'' = ''firewall.lan.network''" by code_simp
  moreover have "ulists demo_uci ''firewall.lan.network''"
    and "arr_items (uci_get demo_uci ''firewall'' ''lan'' ''network'') = [''lan'']" by code_simp+
  ultimately show ?thesis
    using uci_get_set [OF demo_uci_wf, of "''firewall''" "''lan''" "''network''" "Str ''wg''" True] by simp
qed

theorem removeSection_exact_witness:
  "ukeys (removeSection ''network'' ''lan'' demo_uci) = [''firewall.lan'', ''firewall.lan.network'']"
proof -
  have "name_ok ''network''" and "name_ok ''lan''" by code_simp+
  from removeSection_exact [OF demo_uci_wf demo_uci_keys_wf this]
  have "ukeys (removeSection ''network'' ''lan'' demo_uci) =
      filter (\<lambda>k. \<not> in_section ''network'' ''lan'' k) (ukeys demo_uci)" by blast
  then show ?thesis unfolding demo_uci_keys by (simp add: in_section_def)
qed

theorem clone_identity_witness: "uci_clone demo_uci = Inr demo_uci"
  using demo_uci_wf demo_uci_keys_wf by (rule clone_identity)

theorem getLines_setLines_witness:
  "getLines (setLines ''network'' ''lan'' ''notes'' ''a b'' demo_uci) ''network'' ''lan'' ''notes'' = ''a b''"
  using getLines_setLines [OF demo_uci_wf, of "''notes''" "''network''" "''lan''" "''a b''"] by simp

theorem getAllSectionsOfType_exact_witness:
  "getAllSectionsOfType demo_uci ''network'' ''interface'' = [''lan'']"
proof -
  have "name_ok ''network''" by code_simp
  moreover have "pkg_isolated demo_uci ''network''"
    unfolding pkg_isolated_def demo_uci_keys by code_simp
  moreover have "sections_of_type demo_uci ''network'' ''interface'' = [''lan'']" by code_simp
  ultimately show ?thesis by (simp add: getAllSectionsOfType_exact)
qed

text \<open>
  The listing does not keep to its package: the package name is searched anywhere in the key.
  A section \<open>server\<close> of package \<open>openvpn_gargoyle\<close> is listed as a section of package \<open>openvpn\<close>,
  and the options of section \<open>lan2\<close> are listed among those of section \<open>lan\<close>.
\<close>

theorem section_listing_crosses_packages:
  "getAllSections (uci_set ''openvpn_gargoyle'' ''server'' [] (Str ''server'') False newUCIContainer)
     ''openvpn'' = [''server'']
   \<and> getAllOptionsInSection
       (uci_set ''network'' ''lan2'' ''proto'' (Str ''static'') False
         (uci_set ''network'' ''lan2'' [] (Str ''interface'') False newUCIContainer))
       ''network'' ''lan'' False = Inr [''proto'']"
  by code_simp

end
