(* ===== verification/Uci_Script.thy ===== *)
theory Uci_Script
  imports Uci_Container
begin

text \<open>
  \<open>UCIContainer.getScriptCommands\<close>: the shell script a page sends to the router to turn the
  configuration it was loaded with into the edited one. A command is a value of \<open>uci_cmd\<close>;
  \<open>render_cmd\<close> is the text the source pushes for it. The \<open>uci\<close> program and the shell that runs the
  script are not part of the repository: they are parameters of the correctness theorems, with
  their documented behaviour as hypotheses.
\<close>

section \<open>Definitions\<close>

datatype uci_cmd =
    UciDel string
  | UciAddList string string
  | UciSet string string
  | UciCommit

text \<open>\<open>v.replace(/'/g, "'\\''")\<close> between single quotes.\<close>

definition sh_escape :: "string \<Rightarrow> string" where
  "sh_escape v = concat (map (\<lambda>c. if c = CHR 0x27 then [CHR 0x27, CHR 0x5C, CHR 0x27, CHR 0x27] else [c]) v)"

definition sh_quote :: "string \<Rightarrow> string" where
  "sh_quote v = [CHR 0x27] @ sh_escape v @ [CHR 0x27]"

fun render_cmd :: "uci_cmd \<Rightarrow> string" where
  "render_cmd (UciDel key) = ''uci del '' @ key"
| "render_cmd (UciAddList key v) = ''uci add_list '' @ key @ ''='' @ sh_quote v"
| "render_cmd (UciSet key v) = ''uci set '' @ key @ ''='' @ sh_quote v"
| "render_cmd UciCommit = ''uci commit''"

text \<open>
  First loop, over the keys of the old settings. The second component says whether the list is
  entered into \<open>listsWithoutUpdates\<close>.
\<close>

definition old_key_step :: "uci \<Rightarrow> uci \<Rightarrow> string \<Rightarrow> uci_cmd list \<times> bool" where
  "old_key_step new old key =
     (case (uvals old key, uvals new key) of
        (Some (Lst xs), Some (Lst ys)) \<Rightarrow> if xs = ys then ([], True) else ([UciDel key], False)
      | (Some (Lst xs), _) \<Rightarrow> ([UciDel key], False)
      | (_, Some (Lst ys)) \<Rightarrow> ([UciDel key], False)
      | (Some (Str x), Some (Str y)) \<Rightarrow> (if y = [] \<and> x \<noteq> [] then [UciDel key] else [], False)
      | (Some (Str x), None) \<Rightarrow> (if x \<noteq> [] then [UciDel key] else [], False)
      | (None, _) \<Rightarrow> ([], False))"

text \<open>Second loop, over the keys of the new settings.\<close>

definition new_key_step :: "uci \<Rightarrow> uci \<Rightarrow> (string \<Rightarrow> bool) \<Rightarrow> string \<Rightarrow> uci_cmd list" where
  "new_key_step new old listsWithoutUpdates key =
     (case (uvals old key, uvals new key) of
        (_, Some (Lst ys)) \<Rightarrow> if listsWithoutUpdates key then [] else map (UciAddList key) ys
      | (Some (Lst xs), Some (Str y)) \<Rightarrow> [UciSet key y]
      | (Some (Lst xs), None) \<Rightarrow> [UciSet key ''undefined'']
      | (Some (Str x), Some (Str y)) \<Rightarrow> if x \<noteq> y \<and> y \<noteq> [] then [UciSet key y] else []
      | (None, Some (Str y)) \<Rightarrow> if y \<noteq> [] then [UciSet key y] else []
      | (_, None) \<Rightarrow> [])"

definition scriptCommands :: "uci \<Rightarrow> uci \<Rightarrow> uci_cmd list" where
  "scriptCommands new old =
     (let listsWithoutUpdates = (\<lambda>key. key \<in> set (ukeys old) \<and> snd (old_key_step new old key))
      in concat (map (\<lambda>key. fst (old_key_step new old key)) (ukeys old))
         @ concat (map (new_key_step new old listsWithoutUpdates) (ukeys new))
         @ [UciCommit])"

definition getScriptCommands :: "uci \<Rightarrow> uci \<Rightarrow> string" where
  "getScriptCommands new oldSettings =
     join [CHR 0x0A] (map render_cmd (scriptCommands new oldSettings))"

section \<open>Quoting\<close>

text \<open>
  C22. Shell quoting. For any word expansion \<open>unq\<close> that removes quotes as the POSIX shell does (a
  single-quoted run is literal up to the next single quote, a backslash outside quotes makes the
  next character literal), every value arrives unchanged at the \<open>uci\<close> program: no character of
  a value can end the quoting.
\<close>

theorem sh_quote_roundtrip:
  assumes single_quotes: "\<And>s r. CHR 0x27 \<notin> set s \<Longrightarrow> unq ([CHR 0x27] @ s @ [CHR 0x27] @ r) = s @ unq r"
    and backslash: "\<And>c r. unq ([CHR 0x5C, c] @ r) = c # unq r"
    and empty: "unq [] = []"
  shows "unq (sh_quote v) = v"
proof -
  have "unq ([CHR 0x27] @ s @ sh_escape v @ [CHR 0x27]) = s @ v" if "CHR 0x27 \<notin> set s" for s
    using that
  proof (induction v arbitrary: s)
    case Nil
    then show ?case using single_quotes [of s "[]"] empty by (simp add: sh_escape_def)
  next
    case (Cons c v)
    show ?case
    proof (cases "c = CHR 0x27")
      case True
      have "unq ([CHR 0x27] @ s @ [CHR 0x27] @ [CHR 0x5C, CHR 0x27] @ [CHR 0x27] @ [] @ sh_escape v @ [CHR 0x27])
          = s @ CHR 0x27 # v"
        using single_quotes [OF Cons.prems] backslash Cons.IH [of "[]"] by simp
      with True show ?thesis by (simp add: sh_escape_def)
    next
      case False
      have "unq ([CHR 0x27] @ (s @ [c]) @ sh_escape v @ [CHR 0x27]) = (s @ [c]) @ v"
        using Cons.prems False by (intro Cons.IH) auto
      with False show ?thesis by (simp add: sh_escape_def)
    qed
  qed
  from this [of "[]"] show ?thesis by (simp add: sh_quote_def)
qed

section \<open>The script turns the old configuration into the new one\<close>

text \<open>
  The configuration database as the \<open>uci\<close> program keeps it, and what its commands do: \<open>del\<close> removes
  an option, or a section with all its options; \<open>set\<close> and \<open>add_list\<close> need the section of an option
  to exist; \<open>add_list\<close> appends to a list and starts one where there is none; \<open>commit\<close> writes the
  staged state out unchanged.
\<close>

type_synonym uci_db = "string \<Rightarrow> uci_val option"

definition parent_ok :: "uci_db \<Rightarrow> string \<Rightarrow> bool" where
  "parent_ok st k \<longleftrightarrow>
     (case match_option_key k of Some (p, s, _) \<Rightarrow> st (uci_key p s []) \<noteq> None | None \<Rightarrow> True)"

definition uci_program :: "(uci_cmd \<Rightarrow> uci_db \<Rightarrow> uci_db) \<Rightarrow> bool" where
  "uci_program run \<longleftrightarrow>
     (\<forall>k st. run (UciDel k) st = (\<lambda>k'. if k' = k \<or> prefix (k @ ''.'') k' then None else st k'))
     \<and> (\<forall>k v st. v \<noteq> [] \<and> parent_ok st k \<longrightarrow> run (UciSet k v) st = st(k \<mapsto> Str v))
     \<and> (\<forall>k v st. parent_ok st k \<and> st k = None \<longrightarrow> run (UciAddList k v) st = st(k \<mapsto> Lst [v]))
     \<and> (\<forall>k v st xs. parent_ok st k \<and> st k = Some (Lst xs) \<longrightarrow>
           run (UciAddList k v) st = st(k \<mapsto> Lst (xs @ [v])))
     \<and> (\<forall>st. run UciCommit st = st)"

text \<open>An option with an empty value and a list without items are not stored.\<close>

fun effective :: "uci_val option \<Rightarrow> uci_val option" where
  "effective None = None"
| "effective (Some (Str s)) = (if s = [] then None else Some (Str s))"
| "effective (Some (Lst xs)) = (if xs = [] then None else Some (Lst xs))"

text \<open>
  Containers as the pages build them: the section of an option is added before the option, and a
  section's own value is its type, a non-empty string.
\<close>

fun sections_first :: "string list \<Rightarrow> string list \<Rightarrow> bool" where
  "sections_first seen [] = True"
| "sections_first seen (k # ks) =
     ((case match_option_key k of Some (p, s, _) \<Rightarrow> uci_key p s [] \<in> set seen | None \<Rightarrow> True)
      \<and> sections_first (k # seen) ks)"

definition sections_typed :: "uci \<Rightarrow> bool" where
  "sections_typed u \<longleftrightarrow>
     (\<forall>k \<in> set (ukeys u). match_section_key k \<noteq> None \<longrightarrow>
        (case uvals u k of Some (Str t) \<Rightarrow> t \<noteq> [] | _ \<Rightarrow> False))"

definition page_uci :: "uci \<Rightarrow> bool" where
  "page_uci u \<longleftrightarrow> uci_wf u \<and> keys_wf u \<and> sections_first [] (ukeys u) \<and> sections_typed u"

lemma split_on_append_length:
  "length (split_on c (u @ c # v)) = length (split_on c u) + length (split_on c v)"
proof (induction u)
  case Nil
  then show ?case by simp
next
  case (Cons x u)
  then show ?case
    by (cases "split_on c u"; cases "split_on c (u @ c # v)") auto
qed

lemma sections_typedD:
  assumes "sections_typed u" "k \<in> set (ukeys u)" "match_section_key k \<noteq> None"
  shows "\<exists>t. uvals u k = Some (Str t) \<and> t \<noteq> []"
proof -
  have "case uvals u k of Some (Str t) \<Rightarrow> t \<noteq> [] | _ \<Rightarrow> False"
    using assms unfolding sections_typed_def by blast
  then show ?thesis by (auto split: option.splits uci_val.splits)
qed

lemma run_old_keys:
  assumes "uci_program run"
  shows "fold run (concat (map (\<lambda>key. fst (old_key_step new old key)) ks)) st =
     (\<lambda>k. if \<exists>k' \<in> set ks. fst (old_key_step new old k') \<noteq> [] \<and> (k = k' \<or> prefix (k' @ ''.'') k)
          then None else st k)"
proof (induction ks arbitrary: st)
  case Nil
  then show ?case by simp
next
  case (Cons key ks)
  have "fst (old_key_step new old key) = [] \<or> fst (old_key_step new old key) = [UciDel key]"
    by (auto simp: old_key_step_def split: option.splits uci_val.splits)
  then show ?case
  proof
    assume "fst (old_key_step new old key) = []"
    with Cons.IH show ?thesis by (auto simp: fun_eq_iff)
  next
    assume del: "fst (old_key_step new old key) = [UciDel key]"
    have "run (UciDel key) st = (\<lambda>k'. if k' = key \<or> prefix (key @ ''.'') k' then None else st k')"
      using assms by (simp add: uci_program_def)
    with del Cons.IH show ?thesis by (auto simp: fun_eq_iff)
  qed
qed

lemma parent_ok_upd [simp]:
  "parent_ok st k \<Longrightarrow> parent_ok (st(k' \<mapsto> v)) k"
  by (auto simp: parent_ok_def split: option.splits)

lemma run_add_list:
  assumes "uci_program run" "parent_ok st k" "st k = Some (Lst xs)"
  shows "fold run (map (UciAddList k) ys) st = st(k \<mapsto> Lst (xs @ ys))"
  using assms(2,3)
proof (induction ys arbitrary: st xs)
  case Nil
  then show ?case by (auto simp: fun_eq_iff)
next
  case (Cons y ys)
  have "run (UciAddList k y) st = st(k \<mapsto> Lst (xs @ [y]))"
    using assms(1) Cons.prems by (simp add: uci_program_def)
  moreover have "parent_ok (st(k \<mapsto> Lst (xs @ [y]))) k" using Cons.prems(1) by simp
  then have "fold run (map (UciAddList k) ys) (st(k \<mapsto> Lst (xs @ [y]))) =
      (st(k \<mapsto> Lst (xs @ [y])))(k \<mapsto> Lst ((xs @ [y]) @ ys))"
    using Cons.IH [of "st(k \<mapsto> Lst (xs @ [y]))" "xs @ [y]"] by (simp only: fun_upd_same)
  ultimately show ?case by simp
qed

lemma run_add_list_new:
  assumes "uci_program run" "parent_ok st k" "st k = None"
  shows "fold run (map (UciAddList k) ys) st = (if ys = [] then st else st(k \<mapsto> Lst ys))"
proof (cases ys)
  case Nil
  then show ?thesis by simp
next
  case (Cons y ys')
  have "run (UciAddList k y) st = st(k \<mapsto> Lst [y])"
    using assms by (simp add: uci_program_def)
  moreover have "parent_ok (st(k \<mapsto> Lst [y])) k" using assms(2) by simp
  then have "fold run (map (UciAddList k) ys') (st(k \<mapsto> Lst [y])) =
      (st(k \<mapsto> Lst [y]))(k \<mapsto> Lst ([y] @ ys'))"
    using run_add_list [OF assms(1), of "st(k \<mapsto> Lst [y])" k "[y]" ys'] by (simp only: fun_upd_same)
  ultimately show ?thesis using Cons by simp
qed

text \<open>
  One step of the second loop, run on a database in which the key still has the value the first
  loop left there: only that key changes, and it then holds the new value.
\<close>

definition left_by_old_keys :: "uci \<Rightarrow> uci \<Rightarrow> uci_db" where
  "left_by_old_keys new old k = (if fst (old_key_step new old k) \<noteq> [] then None else uvals old k)"

lemma run_new_key:
  assumes "uci_program run" "parent_ok st k" "k \<in> set (ukeys new)" "uci_wf new" "uci_wf old"
    and "st k = left_by_old_keys new old k"
    and "uvals old k \<noteq> None \<longrightarrow> uvals new k \<noteq> Some (Str []) \<or> (\<exists>x. uvals old k = Some (Str x))"
  obtains r where "fold run (new_key_step new old
        (\<lambda>key. key \<in> set (ukeys old) \<and> snd (old_key_step new old key)) k) st = st(k := r)"
    and "effective r = effective (uvals new k)"
    and "\<forall>y. uvals new k = Some (Str y) \<longrightarrow> y \<noteq> [] \<longrightarrow> r = Some (Str y)"
proof -
  have set_law: "run (UciSet k y) st = st(k \<mapsto> Str y)" if "y \<noteq> []" for y
    using assms(1,2) that by (simp add: uci_program_def)
  have dom_old: "k \<in> set (ukeys old)" if "uvals old k = Some z" for z
    using assms(5) that by (auto simp: uci_wf_def)
  from assms(3,4) obtain v where v: "uvals new k = Some v" by (auto simp: uci_wf_def)
  show thesis
  proof (cases v)
    case (Lst ys)
    show thesis
    proof (cases "uvals old k = Some (Lst ys)")
      case True
      with v Lst dom_old assms(6) show thesis
        by (intro that [of "Some (Lst ys)"])
          (auto simp: new_key_step_def old_key_step_def left_by_old_keys_def)
    next
      case False
      then have "st k = None" and "\<not> snd (old_key_step new old k)"
        using v Lst assms(6)
        by (auto simp: old_key_step_def left_by_old_keys_def split: option.splits uci_val.splits)
      then show thesis
        using v Lst run_add_list_new [OF assms(1,2), of ys]
        by (intro that [of "if ys = [] then None else Some (Lst ys)"])
          (auto simp: new_key_step_def fun_upd_idem split: option.split uci_val.split)
    qed
  next
    case (Str y)
    show thesis
    proof (cases "uvals old k")
      case None
      with v Str set_law assms(6) show thesis
        by (intro that [of "if y = [] then None else Some (Str y)"])
          (auto simp: new_key_step_def old_key_step_def left_by_old_keys_def)
    next
      case (Some z)
      show thesis
      proof (cases z)
        case (Lst xs)
        with Some v Str assms(7) have "y \<noteq> []" by auto
        with Some v Str Lst set_law show thesis
          by (intro that [of "Some (Str y)"]) (auto simp: new_key_step_def)
      next
        case z: (Str x)
        show thesis
        proof (cases "y = [] \<or> x = y")
          case True
          with Some v Str z assms(6) show thesis
            by (intro that [of "st k"])
              (auto simp: new_key_step_def old_key_step_def left_by_old_keys_def)
        next
          case False
          with Some v Str z set_law show thesis
            by (intro that [of "Some (Str y)"]) (auto simp: new_key_step_def)
        qed
      qed
    qed
  qed
qed

text \<open>No list option is replaced by an empty string.\<close>

definition no_list_blanked :: "uci \<Rightarrow> uci \<Rightarrow> bool" where
  "no_list_blanked new old \<longleftrightarrow>
     (\<forall>k \<in> set (ukeys new). uvals new k = Some (Str []) \<longrightarrow>
        (case uvals old k of Some (Lst _) \<Rightarrow> False | _ \<Rightarrow> True))"

lemma run_new_keys:
  assumes "uci_program run" "uci_wf new" "uci_wf old" "sections_typed new" "no_list_blanked new old"
    and "keys_wf new"
    and "sections_first (rev pre) ks" "distinct (pre @ ks)" "set (pre @ ks) \<subseteq> set (ukeys new)"
    and "\<And>k. k \<in> set pre \<Longrightarrow> effective (st k) = effective (uvals new k)"
    and "\<And>k y. k \<in> set pre \<Longrightarrow> uvals new k = Some (Str y) \<Longrightarrow> y \<noteq> [] \<Longrightarrow> st k = Some (Str y)"
    and "\<And>k. k \<notin> set pre \<Longrightarrow> k \<in> set (ukeys new) \<Longrightarrow> st k = left_by_old_keys new old k"
  shows "let st' = fold run (concat (map (new_key_step new old
             (\<lambda>key. key \<in> set (ukeys old) \<and> snd (old_key_step new old key))) ks)) st
         in (\<forall>k \<in> set (pre @ ks). effective (st' k) = effective (uvals new k))
            \<and> (\<forall>k. k \<notin> set ks \<longrightarrow> st' k = st k)"
  using assms(7-)
proof (induction ks arbitrary: pre st)
  case Nil
  then show ?case by simp
next
  case (Cons k ks)
  have k_new: "k \<in> set (ukeys new)" and k_pre: "k \<notin> set pre" using Cons.prems by auto
  have parent: "parent_ok st k"
  proof (cases "match_option_key k")
    case None
    then show ?thesis by (simp add: parent_ok_def)
  next
    case (Some pso)
    then obtain p s opt where m: "match_option_key k = Some (p, s, opt)" by (cases pso) auto
    then have "name_ok p" "name_ok s" by (simp_all add: match_option_key_Some)
    moreover from m Cons.prems(1) have sec: "uci_key p s [] \<in> set pre" by simp
    moreover have "uci_key p s [] \<in> set (ukeys new)" using sec Cons.prems(3) by auto
    ultimately obtain t where "uvals new (uci_key p s []) = Some (Str t)" "t \<noteq> []"
      using sections_typedD [OF assms(4), of "uci_key p s []"] by auto
    with sec Cons.prems(5) have "st (uci_key p s []) = Some (Str t)" by blast
    with m show ?thesis by (simp add: parent_ok_def)
  qed
  have blank: "uvals old k \<noteq> None \<longrightarrow> uvals new k \<noteq> Some (Str []) \<or> (\<exists>x. uvals old k = Some (Str x))"
  proof -
    have "uvals new k = Some (Str []) \<longrightarrow> (case uvals old k of Some (Lst _) \<Rightarrow> False | _ \<Rightarrow> True)"
      using assms(5) k_new unfolding no_list_blanked_def by blast
    then show ?thesis by (auto split: option.splits uci_val.splits)
  qed
  obtain r where r: "fold run (new_key_step new old
        (\<lambda>key. key \<in> set (ukeys old) \<and> snd (old_key_step new old key)) k) st = st(k := r)"
    and eff: "effective r = effective (uvals new k)"
    and exact: "\<forall>y. uvals new k = Some (Str y) \<longrightarrow> y \<noteq> [] \<longrightarrow> r = Some (Str y)"
    by (rule run_new_key [OF assms(1) parent k_new assms(2,3) Cons.prems(6) [OF k_pre k_new] blank])
  have "let st' = fold run (concat (map (new_key_step new old
             (\<lambda>key. key \<in> set (ukeys old) \<and> snd (old_key_step new old key))) ks)) (st(k := r))
         in (\<forall>j \<in> set ((pre @ [k]) @ ks). effective (st' j) = effective (uvals new j))
            \<and> (\<forall>j. j \<notin> set ks \<longrightarrow> st' j = (st(k := r)) j)"
  proof (rule Cons.IH)
    fix j assume "j \<in> set (pre @ [k])"
    then show "effective ((st(k := r)) j) = effective (uvals new j)"
      using eff Cons.prems(4) by auto
  next
    fix j y assume "j \<in> set (pre @ [k])" "uvals new j = Some (Str y)" "y \<noteq> []"
    then show "(st(k := r)) j = Some (Str y)" using exact Cons.prems(5) by auto
  next
    fix j assume "j \<notin> set (pre @ [k])" "j \<in> set (ukeys new)"
    then show "(st(k := r)) j = left_by_old_keys new old j" using Cons.prems(6) by auto
  qed (use Cons.prems in auto)
  then show ?case using r by (auto simp: Let_def)
qed

lemma old_section_kept:
  assumes "sections_typed new" "sections_typed old" "match_section_key k \<noteq> None"
    "k \<in> set (ukeys new)" "uci_wf new" "uci_wf old"
  shows "fst (old_key_step new old k) = []"
proof -
  from sections_typedD [OF assms(1,4,3)] obtain t where "uvals new k = Some (Str t)" "t \<noteq> []"
    by auto
  moreover have "uvals old k = None \<or> (\<exists>x. uvals old k = Some (Str x))"
    using sections_typedD [OF assms(2) _ assms(3)] assms(6)
    by (cases "k \<in> set (ukeys old)") (auto simp: uci_wf_def)
  ultimately show ?thesis by (auto simp: old_key_step_def)
qed

lemma sections_first_parent:
  "sections_first seen ks \<Longrightarrow> k \<in> set ks \<Longrightarrow> match_option_key k = Some (p, s, opt) \<Longrightarrow>
     uci_key p s [] \<in> set seen \<union> set ks"
  by (induction ks arbitrary: seen) fastforce+

text \<open>
  After the first loop every key of the new settings holds what its own step left there, since no
  section the new settings keep is deleted; every other key has no effective value left.
\<close>

lemma old_keys_kept:
  assumes "page_uci new" "page_uci old" "k \<in> set (ukeys new)"
  shows "(if \<exists>k' \<in> set (ukeys old). fst (old_key_step new old k') \<noteq> [] \<and> (k = k' \<or> prefix (k' @ ''.'') k)
          then None else uvals old k) = left_by_old_keys new old k"
proof -
  have "fst (old_key_step new old k') = []"
    if "k' \<in> set (ukeys old)" "prefix (k' @ ''.'') k" for k'
  proof -
    from assms(1,3) have "key_ok k" by (simp add: page_uci_def keys_wf_def)
    moreover from assms(2) that(1) have "key_ok k'" by (simp add: page_uci_def keys_wf_def)
    moreover from that(2) have parts: "length (split_on CHR ''.'' k') < length (split_on CHR ''.'' k)"
      by (auto simp: prefix_def split_on_append_length)
    ultimately obtain p s p' s' opt where k: "name_ok p" "name_ok s" "name_ok opt" "k = uci_key p s opt"
      and k': "name_ok p'" "name_ok s'" "k' = uci_key p' s' []"
      by (elim key_ok_cases) (auto simp: name_ok_def)
    have "in_section p' s' k" using that(2) k'(3) by (simp add: in_section_def uci_key_section)
    with k k' have "k' = uci_key p s []" by (simp add: in_section_uci_key)
    moreover have "match_option_key k = Some (p, s, opt)" using k by simp
    ultimately have "k' \<in> set (ukeys new)"
      using sections_first_parent [of "[]" "ukeys new" k p s opt] assms(1,3)
      by (simp add: page_uci_def)
    moreover have "match_section_key k' \<noteq> None" using k' by simp
    ultimately show ?thesis
      using old_section_kept assms(1,2) by (simp add: page_uci_def)
  qed
  moreover have "uvals old k = None" if "k \<notin> set (ukeys old)"
    using assms(2) that by (auto simp: page_uci_def uci_wf_def)
  ultimately show ?thesis by (auto simp: left_by_old_keys_def)
qed

lemma old_keys_gone:
  assumes "page_uci new" "page_uci old" "k \<notin> set (ukeys new)"
  shows "effective (if \<exists>k' \<in> set (ukeys old). fst (old_key_step new old k') \<noteq> [] \<and> (k = k' \<or> prefix (k' @ ''.'') k)
          then None else uvals old k) = None"
proof (cases "k \<in> set (ukeys old)")
  case True
  have "uvals new k = None" using assms(1,3) by (auto simp: page_uci_def uci_wf_def)
  then have "fst (old_key_step new old k) \<noteq> [] \<or> effective (uvals old k) = None"
    by (cases "uvals old k" rule: effective.cases) (auto simp: old_key_step_def)
  with True show ?thesis by auto
next
  case False
  then have "uvals old k = None" using assms(2) by (auto simp: page_uci_def uci_wf_def)
  then show ?thesis by simp
qed

lemma script_refines:
  assumes "uci_program run" and "page_uci new" and "page_uci old" and "no_list_blanked new old"
  shows "effective (fold run (scriptCommands new old) (uvals old) k) = effective (uvals new k)"
proof -
  define unchanged where "unchanged = (\<lambda>key. key \<in> set (ukeys old) \<and> snd (old_key_step new old key))"
  define st1 where "st1 = fold run (concat (map (\<lambda>key. fst (old_key_step new old key)) (ukeys old))) (uvals old)"
  define st2 where "st2 = fold run (concat (map (new_key_step new old unchanged) (ukeys new))) st1"
  have "fold run (scriptCommands new old) (uvals old) = run UciCommit st2"
    by (simp add: scriptCommands_def st1_def st2_def unchanged_def)
  moreover have "run UciCommit st2 = st2" using assms(1) by (simp add: uci_program_def)
  ultimately have result: "fold run (scriptCommands new old) (uvals old) = st2" by simp
  have st1: "st1 k = (if \<exists>k' \<in> set (ukeys old). fst (old_key_step new old k') \<noteq> [] \<and> (k = k' \<or> prefix (k' @ ''.'') k)
      then None else uvals old k)" for k
    unfolding st1_def run_old_keys [OF assms(1)] ..
  have "(\<forall>k \<in> set ([] @ ukeys new). effective (st2 k) = effective (uvals new k))
      \<and> (\<forall>k. k \<notin> set (ukeys new) \<longrightarrow> st2 k = st1 k)"
    unfolding st2_def unchanged_def
  proof (rule run_new_keys [unfolded Let_def])
    fix k assume "k \<in> set (ukeys new)"
    then show "st1 k = left_by_old_keys new old k"
      using old_keys_kept assms(2,3) st1 by simp
  qed (use assms in \<open>auto simp: page_uci_def uci_wf_def\<close>)
  moreover have "uvals new k = None" if "k \<notin> set (ukeys new)"
    using assms(2) that by (auto simp: page_uci_def uci_wf_def)
  ultimately show ?thesis
    using old_keys_gone assms(2,3) st1 by (cases "k \<in> set (ukeys new)") (simp_all add: result)
qed

text \<open>
  C1. The script is correct: run by any \<open>uci\<close> program that behaves as documented, on the database
  the old settings were read from, the commands of \<open>getScriptCommands\<close> leave a database that has
  exactly the (non-empty) values of the new settings, for every key.
\<close>

theorem getScriptCommands_refines:
  assumes "uci_program run" and "page_uci new" and "page_uci old" and "no_list_blanked new old"
  shows "effective (fold run (scriptCommands new old) (uvals old) k) = effective (uvals new k)"
  using assms by (rule script_refines)

lemma script_unchanged:
  assumes "uci_wf u"
  shows "getScriptCommands u u = ''uci commit''"
proof -
  have old: "fst (old_key_step u u key) = []" for key
    by (auto simp: old_key_step_def split: option.splits uci_val.splits)
  have new: "new_key_step u u (\<lambda>key. key \<in> set (ukeys u) \<and> snd (old_key_step u u key)) key = []"
    if "key \<in> set (ukeys u)" for key
    using assms that
    by (auto simp: new_key_step_def old_key_step_def uci_wf_def split: option.splits uci_val.splits)
  have "concat (map (new_key_step u u (\<lambda>key. key \<in> set (ukeys u) \<and> snd (old_key_step u u key))) (ukeys u)) = []"
    using new by simp
  moreover have "concat (map (\<lambda>key. fst (old_key_step u u key)) (ukeys u)) = []"
    using old by simp
  ultimately show ?thesis by (simp add: getScriptCommands_def scriptCommands_def del: concat_eq_Nil_conv)
qed

text \<open>
  An unedited page changes nothing: the script for a container against itself is the single
  line \<open>uci commit\<close>.
\<close>

theorem getScriptCommands_same:
  assumes "uci_wf u"
  shows "getScriptCommands u u = ''uci commit''"
  using assms by (rule script_unchanged)

section \<open>Concrete instances\<close>

text \<open>A shell that removes quotes, and a \<open>uci\<close> program, as instances of the hypotheses.\<close>

fun sh_unquote :: "bool \<Rightarrow> string \<Rightarrow> string" where
  "sh_unquote q [] = []"
| "sh_unquote True (c # cs) = (if c = CHR 0x27 then sh_unquote False cs else c # sh_unquote True cs)"
| "sh_unquote False [c] = (if c = CHR 0x27 then [] else [c])"
| "sh_unquote False (c # d # ds) =
     (if c = CHR 0x27 then sh_unquote True (d # ds)
      else if c = CHR 0x5C then d # sh_unquote False ds
      else c # sh_unquote False (d # ds))"

lemma sh_unquote_run: "CHR 0x27 \<notin> set s \<Longrightarrow> sh_unquote True (s @ CHR 0x27 # r) = s @ sh_unquote False r"
  by (induction s) auto

lemma sh_unquote_open: "xs \<noteq> [] \<Longrightarrow> sh_unquote False (CHR 0x27 # xs) = sh_unquote True xs"
  by (cases xs) auto

theorem sh_quote_roundtrip_witness:
  "sh_unquote False (sh_quote [CHR ''a'', CHR 0x27, CHR '';'', CHR 0x5C]) = [CHR ''a'', CHR 0x27, CHR '';'', CHR 0x5C]"
  by (rule sh_quote_roundtrip) (simp_all add: sh_unquote_run sh_unquote_open)

fun demo_run :: "uci_cmd \<Rightarrow> uci_db \<Rightarrow> uci_db" where
  "demo_run (UciDel k) st = (\<lambda>k'. if k' = k \<or> prefix (k @ ''.'') k' then None else st k')"
| "demo_run (UciSet k v) st = (if parent_ok st k then st(k := (if v = [] then None else Some (Str v))) else st)"
| "demo_run (UciAddList k v) st =
     (if parent_ok st k then st(k \<mapsto> Lst ((case st k of Some w \<Rightarrow> val_items w | None \<Rightarrow> []) @ [v])) else st)"
| "demo_run UciCommit st = st"

lemma demo_run_uci_program: "uci_program demo_run"
  by (auto simp: uci_program_def)

text \<open>The settings after an edit: a new address, a new section with an option, a longer list.\<close>

definition demo_edited :: uci where
  "demo_edited =
     uci_set ''network'' ''wg0'' ''proto'' (Str ''wireguard'') False
      (uci_set ''network'' ''wg0'' [] (Str ''interface'') False
       (uci_set ''firewall'' ''lan'' ''network'' (Str ''wg0'') True
        (uci_set ''network'' ''lan'' ''ipaddr'' (Str ''10.0.0.1'') False demo_uci)))"

lemma demo_page: "page_uci demo_uci"
proof -
  have "sections_first [] (ukeys demo_uci)" and "sections_typed demo_uci"
    unfolding sections_typed_def demo_uci_keys by code_simp+
  then show ?thesis by (simp add: page_uci_def demo_uci_wf demo_uci_keys_wf)
qed

lemma demo_edited_page: "page_uci demo_edited"
proof -
  have "uci_wf demo_edited"
    unfolding demo_edited_def by (intro uci_wf_set demo_uci_wf)
  moreover have "keys_wf demo_edited" and "sections_first [] (ukeys demo_edited)"
    and "sections_typed demo_edited"
    by code_simp+
  ultimately show ?thesis by (simp add: page_uci_def)
qed

theorem getScriptCommands_refines_witness:
  "effective (fold demo_run (scriptCommands demo_edited demo_uci) (uvals demo_uci) ''firewall.lan.network'')
     = Some (Lst [''lan'', ''wg0''])"
proof -
  have "no_list_blanked demo_edited demo_uci" by code_simp
  from getScriptCommands_refines [OF demo_run_uci_program demo_edited_page demo_page this]
  have "effective (fold demo_run (scriptCommands demo_edited demo_uci) (uvals demo_uci) ''firewall.lan.network'')
      = effective (uvals demo_edited ''firewall.lan.network'')" .
  also have "\<dots> = Some (Lst [''lan'', ''wg0''])" by code_simp
  finally show ?thesis .
qed

theorem getScriptCommands_same_witness: "getScriptCommands demo_uci demo_uci = ''uci commit''"
  using demo_uci_wf by (rule getScriptCommands_same)

end
