(* ===== verification/Js_Number.thy ===== *)
theory Js_Number
  imports Js_Prelude "HOL-Library.Word"
begin

unbundle bit_operations_syntax

text \<open>
  Numbers as the sources use them: numerals in a base (\<open>Number.toString(base)\<close>), the value of a
  digit string, \<open>parseInt\<close>, and the 32-bit shift and mask operators. A number is a \<open>nat\<close> or \<open>int\<close>;
  \<open>NaN\<close> is \<open>None\<close>. The values that occur are far below 2^53, where JavaScript's numbers are exact.
\<close>

section \<open>Digits\<close>

definition is_digit :: "char \<Rightarrow> bool" where
  "is_digit c \<longleftrightarrow> 48 \<le> (of_char c :: nat) \<and> (of_char c :: nat) \<le> 57"

text \<open>The value of a character as a digit of a base up to 36.\<close>

definition digit_val :: "char \<Rightarrow> nat option" where
  "digit_val c =
     (let n = (of_char c :: nat)
      in if 48 \<le> n \<and> n \<le> 57 then Some (n - 48)
         else if 97 \<le> n \<and> n \<le> 122 then Some (n - 87)
         else if 65 \<le> n \<and> n \<le> 90 then Some (n - 55)
         else None)"

definition digit_char :: "nat \<Rightarrow> char" where
  "digit_char d = char_of (if d < 10 then 48 + d else 87 + d)"

definition is_base_digit :: "nat \<Rightarrow> char \<Rightarrow> bool" where
  "is_base_digit b c \<longleftrightarrow> (case digit_val c of Some d \<Rightarrow> d < b | None \<Rightarrow> False)"

definition base_val :: "nat \<Rightarrow> string \<Rightarrow> nat" where
  "base_val b s = foldl (\<lambda>n c. b * n + the (digit_val c)) 0 s"

text \<open>\<open>n.toString(b)\<close>.\<close>

function num_str :: "nat \<Rightarrow> nat \<Rightarrow> string" where
  "num_str b n =
     (if b < 2 \<or> n < b then [digit_char n] else num_str b (n div b) @ [digit_char (n mod b)])"
  by pat_completeness auto
termination
  by (relation "measure snd") (auto intro: div_less_dividend)

declare num_str.simps [simp del]

abbreviation dec_val :: "string \<Rightarrow> nat" where
  "dec_val \<equiv> base_val 10"

abbreviation dec_str :: "nat \<Rightarrow> string" where
  "dec_str \<equiv> num_str 10"

text \<open>A comparison with \<open>NaN\<close> is false.\<close>

definition le_num :: "int option \<Rightarrow> int option \<Rightarrow> bool" where
  "le_num x y = (case (x, y) of (Some a, Some b) \<Rightarrow> a \<le> b | _ \<Rightarrow> False)"

text \<open>\<open>s.padStart(n, c)\<close>.\<close>

definition padStart :: "nat \<Rightarrow> char \<Rightarrow> string \<Rightarrow> string" where
  "padStart n c s = replicate (n - length s) c @ s"

section \<open>parseInt\<close>

definition is_js_space :: "char \<Rightarrow> bool" where
  "is_js_space c \<longleftrightarrow> (of_char c :: nat) \<in> {9, 10, 11, 12, 13, 32, 160}"

text \<open>
  \<open>parseInt(s)\<close> without a radix: leading white space, an optional sign, radix 16 after \<open>0x\<close>, then the
  longest run of digits; no digit at all is \<open>NaN\<close>.
\<close>

definition parseInt_radix :: "nat \<Rightarrow> string \<Rightarrow> nat option" where
  "parseInt_radix b s =
     (let ds = takeWhile (is_base_digit b) s in if ds = [] then None else Some (base_val b ds))"

definition parseInt_unsigned :: "string \<Rightarrow> nat option" where
  "parseInt_unsigned s =
     (if take 2 s = ''0x'' \<or> take 2 s = ''0X'' then parseInt_radix 16 (drop 2 s)
      else parseInt_radix 10 s)"

definition js_parseInt :: "string \<Rightarrow> int option" where
  "js_parseInt s =
     (case dropWhile is_js_space s of
        [] \<Rightarrow> None
      | c # cs \<Rightarrow>
          if c = CHR ''-'' then map_option (\<lambda>n. - int n) (parseInt_unsigned cs)
          else if c = CHR ''+'' then map_option int (parseInt_unsigned cs)
          else map_option int (parseInt_unsigned (c # cs)))"

text \<open>A number as text, \<open>NaN\<close> included, and \<open>s.toLowerCase()\<close> of a character.\<close>

definition num_print :: "int option \<Rightarrow> string" where
  "num_print x = (case x of None \<Rightarrow> ''NaN'' | Some i \<Rightarrow> if i < 0 then CHR ''-'' # dec_str (nat (- i)) else dec_str (nat i))"

definition lower_char :: "char \<Rightarrow> char" where
  "lower_char c = (let n = (of_char c :: nat) in if 65 \<le> n \<and> n \<le> 90 then char_of (n + 32) else c)"

section \<open>The 32-bit operators\<close>

text \<open>
  \<open>ToInt32\<close> of an operand, then the operation on 32-bit words; \<open>sint\<close> reads the signed result.
\<close>

type_synonym i32 = "32 word"

definition toInt32 :: "int option \<Rightarrow> i32" where
  "toInt32 x = (case x of None \<Rightarrow> 0 | Some i \<Rightarrow> word_of_int i)"

definition js_shl :: "int option \<Rightarrow> nat \<Rightarrow> int" where
  "js_shl x n = sint (push_bit n (toInt32 x))"

definition js_and :: "int option \<Rightarrow> int option \<Rightarrow> int" where
  "js_and x y = sint (toInt32 x AND toInt32 y)"

definition js_or :: "int option \<Rightarrow> int option \<Rightarrow> int" where
  "js_or x y = sint (toInt32 x OR toInt32 y)"

definition js_not :: "int option \<Rightarrow> int" where
  "js_not x = sint (NOT (toInt32 x))"

section \<open>Lemmas\<close>

lemma num_print_nat [simp]: "num_print (Some (int n)) = dec_str n"
  by (simp add: num_print_def)

lemma is_digit_iff: "is_digit c \<longleftrightarrow> is_base_digit 10 c"
  by (auto simp: is_digit_def is_base_digit_def digit_val_def Let_def split: option.splits if_splits)

lemma digit_val_char [simp]: "d < 36 \<Longrightarrow> digit_val (digit_char d) = Some d"
  by (auto simp: digit_val_def digit_char_def)

lemma is_base_digit_char [simp]: "d < b \<Longrightarrow> b \<le> 36 \<Longrightarrow> is_base_digit b (digit_char d)"
  by (simp add: is_base_digit_def)

lemma base_val_Nil [simp]: "base_val b [] = 0"
  by (simp add: base_val_def)

lemma base_val_snoc [simp]: "base_val b (s @ [c]) = b * base_val b s + the (digit_val c)"
  by (simp add: base_val_def)

lemma base_val_single [simp]: "base_val b [c] = the (digit_val c)"
  by (simp add: base_val_def)

lemma base_val_append: "base_val b (s @ t) = base_val b s * b ^ length t + base_val b t"
proof (induction t rule: rev_induct)
  case Nil
  then show ?case by simp
next
  case (snoc c t)
  have "base_val b (s @ t @ [c]) = b * base_val b (s @ t) + the (digit_val c)"
    using base_val_snoc [of b "s @ t" c] by simp
  with snoc show ?case by (simp add: algebra_simps)
qed

lemma num_str_not_Nil [simp]: "num_str b n \<noteq> []"
  by (subst num_str.simps) auto

lemma base_val_num_str [simp]:
  assumes "2 \<le> b" "b \<le> 36"
  shows "base_val b (num_str b n) = n"
  using assms
proof (induction b n rule: num_str.induct)
  case (1 b n)
  show ?case
  proof (cases "n < b")
    case True
    with 1 show ?thesis by (simp add: num_str.simps [of b n])
  next
    case False
    with 1 have "base_val b (num_str b (n div b)) = n div b" by simp
    moreover have "n mod b < b" using 1 by simp
    then have "n mod b < 36" using 1 by linarith
    ultimately show ?thesis using False 1 by (simp add: num_str.simps [of b n])
  qed
qed

lemma num_str_digits:
  assumes "2 \<le> b" "b \<le> 36" "c \<in> set (num_str b n)"
  shows "is_base_digit b c"
  using assms
proof (induction b n arbitrary: c rule: num_str.induct)
  case (1 b n)
  then show ?case
    by (cases "n < b") (auto simp: num_str.simps [of b n])
qed

lemma num_str_length:
  assumes "2 \<le> b" "0 < k" "n < b ^ k"
  shows "length (num_str b n) \<le> k"
  using assms
proof (induction k arbitrary: n)
  case 0
  then show ?case by simp
next
  case (Suc k)
  show ?case
  proof (cases "n < b")
    case True
    then show ?thesis by (simp add: num_str.simps [of b n])
  next
    case False
    with Suc.prems have "0 < k" by (cases k) auto
    moreover have "n div b < b ^ k"
      using Suc.prems by (simp add: less_mult_imp_div_less mult.commute)
    ultimately have "length (num_str b (n div b)) \<le> k"
      using Suc.IH Suc.prems by blast
    with False Suc.prems show ?thesis by (simp add: num_str.simps [of b n])
  qed
qed

lemma is_base_digit_cases:
  "is_base_digit b c \<Longrightarrow> \<exists>d. digit_val c = Some d \<and> d < b"
  by (auto simp: is_base_digit_def split: option.splits)

lemma base_val_less:
  assumes "\<forall>c \<in> set s. is_base_digit b c" "0 < b"
  shows "base_val b s < b ^ length s"
  using assms
proof (induction s rule: rev_induct)
  case Nil
  then show ?case by simp
next
  case (snoc c s)
  then obtain d where d: "digit_val c = Some d" "d < b" by (auto dest!: is_base_digit_cases)
  have "base_val b s + 1 \<le> b ^ length s" using snoc by auto
  then have "b * (base_val b s + 1) \<le> b * b ^ length s" by (rule mult_le_mono2)
  with d show ?case by simp
qed

lemma dec_digits_not_dot [simp]: "is_base_digit b c \<Longrightarrow> c \<noteq> CHR ''.''"
  by (auto simp: is_base_digit_def digit_val_def)

end
