(* ===== verification/Js_Regex.thy ===== *)
theory Js_Regex
  imports Js_Number
begin

text \<open>
  The regular expressions the validators match with. A pattern \<open>/^...$/\<close> without flags matches the
  whole string; \<open>rx_match\<close> decides it by derivatives and \<open>lang\<close> is what it means. The equations
  collected in \<open>rx_simps\<close> reduce a pattern to conditions on the pieces of the string.
\<close>

named_theorems rx_simps \<open>languages of the pattern forms\<close>

datatype rx =
    RNone
  | REps
  | RCls "char \<Rightarrow> bool"
  | RSeq rx rx
  | RAlt rx rx
  | RStar rx

fun nullable :: "rx \<Rightarrow> bool" where
  "nullable RNone = False"
| "nullable REps = True"
| "nullable (RCls P) = False"
| "nullable (RSeq r q) = (nullable r \<and> nullable q)"
| "nullable (RAlt r q) = (nullable r \<or> nullable q)"
| "nullable (RStar r) = True"

fun deriv :: "char \<Rightarrow> rx \<Rightarrow> rx" where
  "deriv c RNone = RNone"
| "deriv c REps = RNone"
| "deriv c (RCls P) = (if P c then REps else RNone)"
| "deriv c (RSeq r q) =
     (if nullable r then RAlt (RSeq (deriv c r) q) (deriv c q) else RSeq (deriv c r) q)"
| "deriv c (RAlt r q) = RAlt (deriv c r) (deriv c q)"
| "deriv c (RStar r) = RSeq (deriv c r) (RStar r)"

definition rx_match :: "rx \<Rightarrow> string \<Rightarrow> bool" where
  "rx_match r s = nullable (foldl (\<lambda>q c. deriv c q) r s)"

text \<open>The other pattern forms: a literal, \<open>r?\<close>, \<open>r+\<close> and \<open>r{m,n}\<close>.\<close>

definition RChr :: "char \<Rightarrow> rx" where
  "RChr c = RCls (\<lambda>d. d = c)"

definition ROpt :: "rx \<Rightarrow> rx" where
  "ROpt r = RAlt r REps"

definition RPlus :: "rx \<Rightarrow> rx" where
  "RPlus r = RSeq r (RStar r)"

fun RLit :: "string \<Rightarrow> rx" where
  "RLit [] = REps"
| "RLit (c # cs) = RSeq (RChr c) (RLit cs)"

fun RUpTo :: "nat \<Rightarrow> rx \<Rightarrow> rx" where
  "RUpTo 0 r = REps"
| "RUpTo (Suc n) r = ROpt (RSeq r (RUpTo n r))"

fun RTimes :: "nat \<Rightarrow> rx \<Rightarrow> rx" where
  "RTimes 0 r = REps"
| "RTimes (Suc n) r = RSeq r (RTimes n r)"

definition RRange :: "nat \<Rightarrow> nat \<Rightarrow> rx \<Rightarrow> rx" where
  "RRange m n r = RSeq (RTimes m r) (RUpTo (n - m) r)"

fun RSeqs :: "rx list \<Rightarrow> rx" where
  "RSeqs [] = REps"
| "RSeqs (r # rs) = RSeq r (RSeqs rs)"

section \<open>Languages\<close>

inductive_set star :: "string set \<Rightarrow> string set" for A where
  star_Nil: "[] \<in> star A"
| star_step: "u \<in> A \<Longrightarrow> v \<in> star A \<Longrightarrow> u @ v \<in> star A"

fun lang :: "rx \<Rightarrow> string set" where
  "lang RNone = {}"
| "lang REps = {[]}"
| "lang (RCls P) = {[c] | c. P c}"
| "lang (RSeq r q) = {u @ v | u v. u \<in> lang r \<and> v \<in> lang q}"
| "lang (RAlt r q) = lang r \<union> lang q"
| "lang (RStar r) = star (lang r)"

lemma nullable_iff: "nullable r \<longleftrightarrow> [] \<in> lang r"
  by (induction r) (auto intro: star_Nil)

lemma star_Cons_iff:
  "c # s \<in> star A \<longleftrightarrow> (\<exists>u v. s = u @ v \<and> c # u \<in> A \<and> v \<in> star A)"
proof
  assume "c # s \<in> star A"
  then show "\<exists>u v. s = u @ v \<and> c # u \<in> A \<and> v \<in> star A"
  proof (induction "c # s" arbitrary: s rule: star.induct)
    case (star_step u v)
    then show ?case by (cases u) auto
  qed
next
  assume "\<exists>u v. s = u @ v \<and> c # u \<in> A \<and> v \<in> star A"
  then obtain u v where "s = u @ v" "c # u \<in> A" "v \<in> star A" by blast
  then show "c # s \<in> star A" using star_step [of "c # u" A v] by simp
qed

lemma lang_deriv: "s \<in> lang (deriv c r) \<longleftrightarrow> c # s \<in> lang r"
proof (induction r arbitrary: s)
  case (RSeq r q)
  have "c # s \<in> lang (RSeq r q) \<longleftrightarrow>
      (\<exists>u v. s = u @ v \<and> c # u \<in> lang r \<and> v \<in> lang q) \<or> ([] \<in> lang r \<and> c # s \<in> lang q)"
    by (auto simp: Cons_eq_append_conv)
  then show ?case using RSeq by (auto simp: nullable_iff)
next
  case (RStar r)
  then show ?case by (auto simp: star_Cons_iff)
qed auto

theorem rx_match_lang: "rx_match r s \<longleftrightarrow> s \<in> lang r"
  unfolding rx_match_def
  by (induction s arbitrary: r) (auto simp: nullable_iff lang_deriv)

section \<open>Equations for the pattern forms\<close>

lemma rx_match_Eps [rx_simps]: "rx_match REps s \<longleftrightarrow> s = []"
  by (simp add: rx_match_lang)

lemma rx_match_Cls [rx_simps]: "rx_match (RCls P) s \<longleftrightarrow> (\<exists>c. s = [c] \<and> P c)"
  by (auto simp: rx_match_lang)

lemma rx_match_Seq: "rx_match (RSeq r q) s \<longleftrightarrow> (\<exists>u v. s = u @ v \<and> rx_match r u \<and> rx_match q v)"
  by (simp add: rx_match_lang)

lemma rx_match_Alt [rx_simps]: "rx_match (RAlt r q) s \<longleftrightarrow> rx_match r s \<or> rx_match q s"
  by (simp add: rx_match_lang)

lemma rx_match_Opt [rx_simps]: "rx_match (ROpt r) s \<longleftrightarrow> s = [] \<or> rx_match r s"
  by (auto simp: ROpt_def rx_simps)

lemma rx_match_Chr [rx_simps]: "rx_match (RChr c) s \<longleftrightarrow> s = [c]"
  by (auto simp: RChr_def rx_simps)

lemma rx_match_Seq_Chr [rx_simps]:
  "rx_match (RSeq (RChr c) q) s \<longleftrightarrow> (\<exists>v. s = c # v \<and> rx_match q v)"
  by (auto simp: rx_match_Seq rx_simps)

lemma rx_match_Seq_Cls [rx_simps]:
  "rx_match (RSeq (RCls P) q) s \<longleftrightarrow> (\<exists>c v. s = c # v \<and> P c \<and> rx_match q v)"
  unfolding rx_match_Seq rx_simps by (metis append_Cons append_Nil)

lemma rx_match_Lit [rx_simps]: "rx_match (RLit l) s \<longleftrightarrow> s = l"
  by (induction l arbitrary: s) (auto simp: rx_simps)

lemma rx_match_Star_Cls [rx_simps]: "rx_match (RStar (RCls P)) s \<longleftrightarrow> list_all P s"
proof (induction s)
  case Nil
  then show ?case by (auto simp: rx_match_lang intro: star_Nil)
next
  case (Cons c s)
  then show ?case by (auto simp: rx_match_lang star_Cons_iff)
qed

lemma rx_match_Plus_Cls [rx_simps]: "rx_match (RPlus (RCls P)) s \<longleftrightarrow> s \<noteq> [] \<and> list_all P s"
  by (cases s) (auto simp: RPlus_def rx_simps)

lemma rx_match_UpTo_Cls [rx_simps]: "rx_match (RUpTo n (RCls P)) s \<longleftrightarrow> length s \<le> n \<and> list_all P s"
proof (induction n arbitrary: s)
  case 0
  then show ?case by (auto simp: rx_simps)
next
  case (Suc n)
  then show ?case by (cases s) (auto simp: rx_simps)
qed

lemma rx_match_Times_Cls [rx_simps]: "rx_match (RTimes n (RCls P)) s \<longleftrightarrow> length s = n \<and> list_all P s"
proof (induction n arbitrary: s)
  case 0
  then show ?case by (auto simp: rx_simps)
next
  case (Suc n)
  then show ?case by (cases s) (auto simp: rx_simps)
qed

lemma rx_match_Range_Cls [rx_simps]:
  assumes "m \<le> n"
  shows "rx_match (RRange m n (RCls P)) s \<longleftrightarrow> m \<le> length s \<and> length s \<le> n \<and> list_all P s"
proof
  assume "rx_match (RRange m n (RCls P)) s"
  with assms show "m \<le> length s \<and> length s \<le> n \<and> list_all P s"
    by (auto simp: RRange_def rx_match_Seq rx_simps)
next
  assume s: "m \<le> length s \<and> length s \<le> n \<and> list_all P s"
  then have "s = take m s @ drop m s" "list_all P (take m s)" "list_all P (drop m s)"
    by (auto simp: list_all_iff dest: in_set_takeD in_set_dropD)
  with s show "rx_match (RRange m n (RCls P)) s"
    unfolding RRange_def rx_match_Seq rx_simps by (intro exI [of _ "take m s"] exI [of _ "drop m s"]) auto
qed

lemma rx_match_two_Cls:
  "rx_match (RSeq (RCls P) (RCls Q)) s \<longleftrightarrow> (\<exists>x y. s = [x, y] \<and> P x \<and> Q y)"
  "rx_match (RSeq (ROpt (RCls P)) (RCls Q)) s \<longleftrightarrow>
     (\<exists>y. s = [y] \<and> Q y) \<or> (\<exists>x y. s = [x, y] \<and> P x \<and> Q y)"
  by (auto simp: rx_match_Seq rx_simps) (metis append_Cons append_Nil)+

lemma rx_match_Seq_Eps [rx_simps]: "rx_match (RSeq r REps) s \<longleftrightarrow> rx_match r s"
  by (simp add: rx_match_lang)

lemma rx_match_Opt_Chr_Seq [rx_simps]:
  "rx_match (RSeq (ROpt (RChr c)) q) s \<longleftrightarrow> rx_match q s \<or> (\<exists>v. s = c # v \<and> rx_match q v)"
  unfolding rx_match_Seq rx_match_Opt rx_match_Chr by (metis append_Cons append_Nil)

end
