(* ===== verification/Ip4_Address.thy ===== *)
theory Ip4_Address
  imports Js_Number
begin

text \<open>
  The IPv4 helpers of \<open>common.js\<close>: \<open>getSubnetRange\<close>, \<open>rangeInSubnet\<close>, \<open>parseIp\<close>, \<open>ipToStr\<close>,
  \<open>parseCidr\<close>, \<open>ipInRange\<close> and the address classes. The theorems give the round trip between
  addresses and numbers, the partition into classes, the prefix length of a netmask, and where the
  subnet range is right and where it is not.
\<close>

section \<open>Subnet ranges\<close>

definition subnet_masks :: "string list" where
  "subnet_masks = [''255'', ''254'', ''252'', ''248'', ''240'', ''224'', ''192'', ''128'', ''0'']"

text \<open>
  The inner loop: the number of host bits of one mask field, \<open>None\<close> (a negative \<open>nextBits\<close>) for a field
  that is no mask byte.
\<close>

fun mask_field_bits :: "string list \<Rightarrow> nat \<Rightarrow> string \<Rightarrow> nat option" where
  "mask_field_bits [] i part = None"
| "mask_field_bits (mk # ms) i part = (if mk = part then Some i else mask_field_bits ms (Suc i) part)"

fun subnet_bits :: "string list \<Rightarrow> nat option" where
  "subnet_bits [] = Some 0"
| "subnet_bits (nextPart # splitMask) =
     (case mask_field_bits subnet_masks 0 nextPart of
        None \<Rightarrow> None
      | Some nextBits \<Rightarrow> map_option (\<lambda>n. nextBits + n) (subnet_bits splitMask))"

text \<open>\<open>while(subnetStart + subnetLength < testIpEnd)\<close>; the length is a power of two, so the loop ends.\<close>

function subnet_start :: "nat \<Rightarrow> int \<Rightarrow> nat \<Rightarrow> nat" where
  "subnet_start len testIpEnd start =
     (if 0 < len \<and> int (start + len) < testIpEnd then subnet_start len testIpEnd (start + len) else start)"
  by pat_completeness auto
termination
  by (relation "measure (\<lambda>(len, e, start). nat e - start)") auto

declare subnet_start.simps [simp del]

text \<open>An empty result array is \<open>None\<close>. A fourth field that is missing or no number compares as \<open>NaN\<close>.\<close>

definition getSubnetRange :: "string \<Rightarrow> string \<Rightarrow> (nat \<times> nat) option" where
  "getSubnetRange msk ip =
     (let splitMask = split_on CHR ''.'' msk
      in if length splitMask \<noteq> 4 then None
         else (case subnet_bits splitMask of
                 None \<Rightarrow> None
               | Some subnetBits \<Rightarrow>
                   let subnetLength = 2 ^ subnetBits;
                       fields = split_on CHR ''.'' ip;
                       testIpEnd = (if 3 < length fields then js_parseInt (fields ! 3) else None);
                       subnetStart = (case testIpEnd of
                                        None \<Rightarrow> 0 | Some e \<Rightarrow> subnet_start subnetLength e 0)
                   in Some (subnetStart, subnetStart + subnetLength - 1)))"

definition rangeInSubnet :: "string \<Rightarrow> string \<Rightarrow> nat \<Rightarrow> nat \<Rightarrow> bool" where
  "rangeInSubnet msk ip start stop =
     (case getSubnetRange msk ip of
        Some (subnetStart, subnetEnd) \<Rightarrow> subnetStart \<le> start \<and> stop \<le> subnetEnd
      | None \<Rightarrow> False)"

section \<open>Addresses as numbers\<close>

text \<open>
  Unary plus on a field: \<open>Some\<close> of its value when, white space around it apart, it is empty or a run
  of decimal digits; \<open>None\<close> otherwise (\<open>NaN\<close>, or a literal with a point, an exponent or a prefix,
  which no address field holds).
\<close>

definition js_number :: "string \<Rightarrow> nat option" where
  "js_number s =
     (let t = rev (dropWhile is_js_space (rev (dropWhile is_js_space s)))
      in if list_all is_digit t then Some (dec_val t) else None)"

definition parseIp :: "string \<Rightarrow> nat option" where
  "parseIp s =
     (case split_on CHR ''.'' s of
        a # b # c # d # _ \<Rightarrow>
          (case (js_number a, js_number b, js_number c, js_number d) of
             (Some a', Some b', Some c', Some d') \<Rightarrow>
               Some (((((a' * 256) + b') * 256) + c') * 256 + d')
           | _ \<Rightarrow> None)
      | _ \<Rightarrow> None)"

text \<open>\<open>>>>\<close> is the logical, \<open>>>\<close> the arithmetic shift of the operand's 32 bits.\<close>

definition ipToStr :: "int \<Rightarrow> string" where
  "ipToStr ip =
     (let w = (word_of_int ip :: 32 word)
      in dec_str (unat (drop_bit 24 w)) @ ''.''
         @ dec_str (unat (signed_drop_bit 16 w AND 255)) @ ''.''
         @ dec_str (unat (signed_drop_bit 8 w AND 255)) @ ''.''
         @ dec_str (unat (w AND 255)))"

text \<open>\<open>ip.match(/(\d+)/g)\<close>: the maximal runs of digits.\<close>

definition digit_runs :: "string \<Rightarrow> string list" where
  "digit_runs s = filter (\<lambda>r. r \<noteq> []) (split_runs (\<lambda>c. \<not> is_digit c) s)"

definition parseCidr :: "string \<Rightarrow> nat" where
  "parseCidr ip =
     sum_list (map (\<lambda>r. length (filter (\<lambda>c. c = CHR ''1'') (num_str 2 (dec_val r mod 2 ^ 32)))) (digit_runs ip))"

text \<open>A comparison with \<open>NaN\<close> is false.\<close>

definition ipInRange :: "string \<Rightarrow> string \<Rightarrow> string \<Rightarrow> bool" where
  "ipInRange ip start stop =
     (case (parseIp ip, parseIp start, parseIp stop) of
        (Some i, Some a, Some b) \<Rightarrow> a \<le> i \<and> i \<le> b
      | _ \<Rightarrow> False)"

definition ipInClassA :: "string \<Rightarrow> bool" where
  "ipInClassA ip = ipInRange ip ''0.0.0.0'' ''127.255.255.255''"

definition ipInClassB :: "string \<Rightarrow> bool" where
  "ipInClassB ip = ipInRange ip ''128.0.0.0'' ''191.255.255.255''"

definition ipInClassC :: "string \<Rightarrow> bool" where
  "ipInClassC ip = ipInRange ip ''192.0.0.0'' ''223.255.255.255''"

definition ipInClassD :: "string \<Rightarrow> bool" where
  "ipInClassD ip = ipInRange ip ''224.0.0.0'' ''239.255.255.255''"

definition ipInClassE :: "string \<Rightarrow> bool" where
  "ipInClassE ip = ipInRange ip ''240.0.0.0'' ''255.255.255.255''"

definition ipInPrivateClassA :: "string \<Rightarrow> bool" where
  "ipInPrivateClassA ip = ipInRange ip ''10.0.0.0'' ''10.255.255.255''"

definition ipInPrivateClassB :: "string \<Rightarrow> bool" where
  "ipInPrivateClassB ip = ipInRange ip ''172.16.0.0'' ''172.31.255.255''"

definition ipInPrivateClassC :: "string \<Rightarrow> bool" where
  "ipInPrivateClassC ip = ipInRange ip ''192.168.0.0'' ''192.168.255.255''"

definition ipInPrivate :: "string \<Rightarrow> bool" where
  "ipInPrivate ip \<longleftrightarrow> ipInPrivateClassA ip \<or> ipInPrivateClassB ip \<or> ipInPrivateClassC ip"

definition ipInLinkLocal :: "string \<Rightarrow> bool" where
  "ipInLinkLocal ip = ipInRange ip ''169.254.0.0'' ''169.254.255.255''"

definition ipInLocalhost :: "string \<Rightarrow> bool" where
  "ipInLocalhost ip = ipInRange ip ''127.0.0.0'' ''127.255.255.255''"

section \<open>Round trip between addresses and numbers\<close>

text \<open>The four decimal fields of an address.\<close>

definition quad :: "nat \<Rightarrow> nat \<Rightarrow> nat \<Rightarrow> nat \<Rightarrow> string" where
  "quad a b c d = dec_str a @ ''.'' @ dec_str b @ ''.'' @ dec_str c @ ''.'' @ dec_str d"

definition quad_num :: "nat \<Rightarrow> nat \<Rightarrow> nat \<Rightarrow> nat \<Rightarrow> nat" where
  "quad_num a b c d = ((a * 256 + b) * 256 + c) * 256 + d"

lemma dec_str_digits: "c \<in> set (dec_str n) \<Longrightarrow> is_base_digit 10 c"
  by (rule num_str_digits) auto

lemma dec_str_no_dot [simp]: "CHR ''.'' \<notin> set (dec_str n)"
  using dec_str_digits dec_digits_not_dot by blast

lemma digit_not_space: "is_base_digit 10 c \<Longrightarrow> \<not> is_js_space c"
  by (auto simp: is_js_space_def is_base_digit_def digit_val_def Let_def split: if_splits)

lemma js_number_dec_str [simp]: "js_number (dec_str n) = Some n"
proof -
  have "dropWhile is_js_space (dec_str n) = dec_str n"
    by (metis digit_not_space dec_str_digits dropWhile_eq_self_iff hd_in_set)
  moreover have "dropWhile is_js_space (rev (dec_str n)) = rev (dec_str n)"
    by (metis digit_not_space dec_str_digits dropWhile_eq_self_iff hd_in_set set_rev)
  moreover have "list_all is_digit (dec_str n)"
    using dec_str_digits by (auto simp: list_all_iff is_digit_iff)
  ultimately show ?thesis by (simp add: js_number_def)
qed

lemma split_quad [simp]:
  "split_on CHR ''.'' (quad a b c d) = [dec_str a, dec_str b, dec_str c, dec_str d]"
  by (simp add: quad_def split_on_append_sep)

lemma parseIp_quad [simp]: "parseIp (quad a b c d) = Some (quad_num a b c d)"
  by (simp add: parseIp_def quad_num_def)

lemma and_255: "(w :: 32 word) AND 255 = take_bit 8 w"
  by (simp add: take_bit_eq_mask mask_eq_exp_minus_1)

lemma unat_byte: "unat (take_bit 8 (drop_bit k (w :: 32 word))) = unat w div 2 ^ k mod 256"
proof -
  have "unat (take_bit 8 (drop_bit k w)) = take_bit 8 (drop_bit k (unat w))"
    by (simp add: unsigned_take_bit_eq unat_drop_bit_eq)
  then show ?thesis by (simp add: take_bit_eq_mod drop_bit_eq_div)
qed

lemma take_bit_signed_drop_bit:
  assumes "k \<le> 24"
  shows "take_bit 8 (signed_drop_bit k (w :: 32 word)) = take_bit 8 (drop_bit k w)"
  using assms
  by (intro bit_eqI) (auto simp: bit_take_bit_iff bit_signed_drop_bit_iff bit_drop_bit_eq)

lemma ipToStr_word:
  "ipToStr (uint (w :: 32 word)) = quad (unat w div 2 ^ 24) (unat w div 2 ^ 16 mod 256) (unat w div 2 ^ 8 mod 256) (unat w mod 256)"
proof -
  have "unat (take_bit 8 w) = unat w mod 256"
    using unat_byte [of 0 w] by simp
  moreover have "unat (drop_bit 24 w) = unat w div 2 ^ 24"
    using unat_drop_bit_eq [of 24 w] by (simp add: drop_bit_eq_div [of 24 "unat w"])
  ultimately show ?thesis
    by (simp add: ipToStr_def quad_def and_255 take_bit_signed_drop_bit unat_byte)
qed

lemma quad_num_bytes:
  "quad_num (n div 2 ^ 24) (n div 2 ^ 16 mod 256) (n div 2 ^ 8 mod 256) (n mod 256) = n"
proof -
  have "n div 2 ^ 24 = n div 2 ^ 8 div 2 ^ 8 div 2 ^ 8" and "n div 2 ^ 16 = n div 2 ^ 8 div 2 ^ 8"
    by (simp_all add: div_mult2_eq [symmetric])
  then show ?thesis
    unfolding quad_num_def by (simp add: div_mult_mod_eq mult.commute)
qed

lemma quad_num_fields:
  assumes "b < 256" "c < 256" "d < 256"
  shows "quad_num a b c d mod 256 = d" "quad_num a b c d div 2 ^ 8 mod 256 = c"
    and "quad_num a b c d div 2 ^ 24 = a" "quad_num a b c d div 2 ^ 16 mod 256 = b"
proof -
  have d: "quad_num a b c d div 2 ^ 8 = (a * 256 + b) * 256 + c"
    using assms by (simp add: quad_num_def)
  moreover have "((a * 256 + b) * 256 + c) div 256 = a * 256 + b" using assms by simp
  moreover have "quad_num a b c d div 2 ^ 16 = quad_num a b c d div 2 ^ 8 div 256"
    "quad_num a b c d div 2 ^ 24 = quad_num a b c d div 2 ^ 8 div 256 div 256"
    by (simp_all add: div_mult2_eq [symmetric])
  ultimately have "quad_num a b c d div 2 ^ 16 = a * 256 + b" "quad_num a b c d div 2 ^ 24 = (a * 256 + b) div 256"
    by (simp_all only:)
  then show "quad_num a b c d div 2 ^ 24 = a" "quad_num a b c d div 2 ^ 16 mod 256 = b"
    using assms by simp_all
  show "quad_num a b c d div 2 ^ 8 mod 256 = c" unfolding d using assms by (simp only: mod_mult_self3 mod_less)
  show "quad_num a b c d mod 256 = d"
    unfolding quad_num_def using assms by (simp only: mod_mult_self3 mod_less)
qed

text \<open>
  Numbers and addresses: the address printed for any 32-bit number, given as an unsigned or as
  a signed number, is read back by \<open>parseIp\<close> as that (unsigned) number.
\<close>

theorem parseIp_ipToStr:
  "parseIp (ipToStr (uint (w :: 32 word))) = Some (unat w) \<and> ipToStr (sint w) = ipToStr (uint w)"
proof
  show "parseIp (ipToStr (uint w)) = Some (unat w)"
    by (simp only: ipToStr_word parseIp_quad quad_num_bytes)
  show "ipToStr (sint w) = ipToStr (uint w)"
    by (simp add: ipToStr_def)
qed

text \<open>
  Addresses and numbers: an address with four decimal fields up to 255 is printed back unchanged
  from the number \<open>parseIp\<close> gives it.
\<close>

theorem ipToStr_parseIp:
  assumes "a < 256" "b < 256" "c < 256" "d < 256"
  shows "\<exists>n. parseIp (quad a b c d) = Some n \<and> n < 2 ^ 32 \<and> ipToStr (int n) = quad a b c d"
proof -
  let ?n = "quad_num a b c d"
  have bound: "?n < 2 ^ 32" using assms by (simp add: quad_num_def)
  then have n: "unat (word_of_nat ?n :: 32 word) = ?n"
    by (simp add: unat_of_nat take_bit_eq_mod)
  then have "ipToStr (int ?n) = ipToStr (uint (word_of_nat ?n :: 32 word))"
    by (metis uint_nat)
  also have "\<dots> = quad (?n div 2 ^ 24) (?n div 2 ^ 16 mod 256) (?n div 2 ^ 8 mod 256) (?n mod 256)"
    by (simp only: ipToStr_word n)
  also have "\<dots> = quad a b c d"
    using assms by (simp only: quad_num_fields)
  finally show ?thesis using bound by auto
qed

theorem ipToStr_parseIp_witness:
  "\<exists>n. parseIp (quad 192 168 1 1) = Some n \<and> n < 2 ^ 32 \<and> ipToStr (int n) = quad 192 168 1 1"
  by (rule ipToStr_parseIp) simp_all

section \<open>Address classes\<close>

lemma ipInRange_quads:
  "ipInRange (quad a b c d) (quad e f g h) (quad i j k l) \<longleftrightarrow>
     quad_num e f g h \<le> quad_num a b c d \<and> quad_num a b c d \<le> quad_num i j k l"
  by (simp add: ipInRange_def)

lemma class_bounds:
  "''0.0.0.0'' = quad 0 0 0 0" "''127.255.255.255'' = quad 127 255 255 255"
  "''128.0.0.0'' = quad 128 0 0 0" "''191.255.255.255'' = quad 191 255 255 255"
  "''192.0.0.0'' = quad 192 0 0 0" "''223.255.255.255'' = quad 223 255 255 255"
  "''224.0.0.0'' = quad 224 0 0 0" "''239.255.255.255'' = quad 239 255 255 255"
  "''240.0.0.0'' = quad 240 0 0 0" "''255.255.255.255'' = quad 255 255 255 255"
  "''10.0.0.0'' = quad 10 0 0 0" "''10.255.255.255'' = quad 10 255 255 255"
  "''172.16.0.0'' = quad 172 16 0 0" "''172.31.255.255'' = quad 172 31 255 255"
  "''192.168.0.0'' = quad 192 168 0 0" "''192.168.255.255'' = quad 192 168 255 255"
  "''127.0.0.0'' = quad 127 0 0 0"
  "''169.254.0.0'' = quad 169 254 0 0" "''169.254.255.255'' = quad 169 254 255 255"
  by code_simp+

lemmas class_defs = ipInClassA_def ipInClassB_def ipInClassC_def ipInClassD_def ipInClassE_def
  ipInPrivateClassA_def ipInPrivateClassB_def ipInPrivateClassC_def ipInPrivate_def
  ipInLinkLocal_def ipInLocalhost_def

lemma quad_num_le:
  assumes "c < 256" "d < 256"
  shows "quad_num a b c d \<le> quad_num e f 255 255 \<longleftrightarrow> a * 256 + b \<le> e * 256 + f"
    and "quad_num e f 0 0 \<le> quad_num a b c d \<longleftrightarrow> e * 256 + f \<le> a * 256 + b"
proof -
  have "(x * 256 + c) * 256 + d \<le> (y * 256 + 255) * 256 + 255 \<longleftrightarrow> x \<le> y" for x y :: nat
    using assms by (cases "x \<le> y") simp_all
  moreover have "(y * 256 + 0) * 256 + 0 \<le> (x * 256 + c) * 256 + d \<longleftrightarrow> y \<le> x" for x y :: nat
    using assms by (cases "y \<le> x") simp_all
  ultimately show "quad_num a b c d \<le> quad_num e f 255 255 \<longleftrightarrow> a * 256 + b \<le> e * 256 + f"
    and "quad_num e f 0 0 \<le> quad_num a b c d \<longleftrightarrow> e * 256 + f \<le> a * 256 + b"
    by (simp_all only: quad_num_def)
qed

lemma class_range:
  assumes "lo = quad e f 0 0" "hi = quad g h 255 255" "c < 256" "d < 256"
  shows "ipInRange (quad a b c d) lo hi \<longleftrightarrow> e * 256 + f \<le> a * 256 + b \<and> a * 256 + b \<le> g * 256 + h"
  using assms by (simp only: ipInRange_quads quad_num_le)

lemma octet_range:
  assumes "(b :: nat) < 256" "f < 256" "h < 256"
  shows "e * 256 + f \<le> a * 256 + b \<and> a * 256 + b \<le> e * 256 + h \<longleftrightarrow> a = e \<and> f \<le> b \<and> b \<le> h"
  using assms by (cases "a < e"; cases "e < a") auto

lemma class_iff:
  assumes "a < 256" "b < 256" "c < 256" "d < 256"
  shows "ipInClassA (quad a b c d) \<longleftrightarrow> a < 128"
    and "ipInClassB (quad a b c d) \<longleftrightarrow> 128 \<le> a \<and> a < 192"
    and "ipInClassC (quad a b c d) \<longleftrightarrow> 192 \<le> a \<and> a < 224"
    and "ipInClassD (quad a b c d) \<longleftrightarrow> 224 \<le> a \<and> a < 240"
    and "ipInClassE (quad a b c d) \<longleftrightarrow> 240 \<le> a"
    and "ipInPrivateClassA (quad a b c d) \<longleftrightarrow> a = 10"
    and "ipInPrivateClassB (quad a b c d) \<longleftrightarrow> a = 172 \<and> 16 \<le> b \<and> b < 32"
    and "ipInPrivateClassC (quad a b c d) \<longleftrightarrow> a = 192 \<and> b = 168"
    and "ipInLinkLocal (quad a b c d) \<longleftrightarrow> a = 169 \<and> b = 254"
    and "ipInLocalhost (quad a b c d) \<longleftrightarrow> a = 127"
proof -
  show "ipInClassA (quad a b c d) \<longleftrightarrow> a < 128"
    unfolding ipInClassA_def class_range [OF class_bounds(1) class_bounds(2) assms(3,4)]
    using assms(1,2) by (intro iffI conjI; linarith)
  show "ipInClassB (quad a b c d) \<longleftrightarrow> 128 \<le> a \<and> a < 192"
    unfolding ipInClassB_def class_range [OF class_bounds(3) class_bounds(4) assms(3,4)]
    using assms(1,2) by (intro iffI conjI; linarith)
  show "ipInClassC (quad a b c d) \<longleftrightarrow> 192 \<le> a \<and> a < 224"
    unfolding ipInClassC_def class_range [OF class_bounds(5) class_bounds(6) assms(3,4)]
    using assms(1,2) by (intro iffI conjI; linarith)
  show "ipInClassD (quad a b c d) \<longleftrightarrow> 224 \<le> a \<and> a < 240"
    unfolding ipInClassD_def class_range [OF class_bounds(7) class_bounds(8) assms(3,4)]
    using assms(1,2) by (intro iffI conjI; linarith)
  show "ipInClassE (quad a b c d) \<longleftrightarrow> 240 \<le> a"
    unfolding ipInClassE_def class_range [OF class_bounds(9) class_bounds(10) assms(3,4)]
    using assms(1,2) by (intro iffI conjI; linarith)
  show "ipInPrivateClassA (quad a b c d) \<longleftrightarrow> a = 10"
    unfolding ipInPrivateClassA_def class_range [OF class_bounds(11) class_bounds(12) assms(3,4)]
    using assms(1,2) by (intro iffI conjI; linarith)
  show "ipInPrivateClassB (quad a b c d) \<longleftrightarrow> a = 172 \<and> 16 \<le> b \<and> b < 32"
    unfolding ipInPrivateClassB_def class_range [OF class_bounds(13) class_bounds(14) assms(3,4)]
    using assms(1,2) by (subst octet_range) auto
  show "ipInPrivateClassC (quad a b c d) \<longleftrightarrow> a = 192 \<and> b = 168"
    unfolding ipInPrivateClassC_def class_range [OF class_bounds(15) class_bounds(16) assms(3,4)]
    using assms(1,2) by (subst octet_range) auto
  show "ipInLinkLocal (quad a b c d) \<longleftrightarrow> a = 169 \<and> b = 254"
    unfolding ipInLinkLocal_def class_range [OF class_bounds(18) class_bounds(19) assms(3,4)]
    using assms(1,2) by (subst octet_range) auto
  show "ipInLocalhost (quad a b c d) \<longleftrightarrow> a = 127"
    unfolding ipInLocalhost_def class_range [OF class_bounds(17) class_bounds(2) assms(3,4)]
    using assms(1,2) by (intro iffI conjI; linarith)
qed

text \<open>
  The class predicates decide the classes of the leading octet: every address lies in exactly
  one of the classes A to E, and the private ranges are 10/8, 172.16/12 and 192.168/16, inside the
  classes A, B and C.
\<close>

theorem ip_classes_partition:
  assumes "a < 256" "b < 256" "c < 256" "d < 256"
  shows "length (filter (\<lambda>p. p (quad a b c d))
            [ipInClassA, ipInClassB, ipInClassC, ipInClassD, ipInClassE]) = 1
         \<and> (ipInPrivate (quad a b c d) \<longleftrightarrow>
              a = 10 \<or> (a = 172 \<and> 16 \<le> b \<and> b < 32) \<or> (a = 192 \<and> b = 168))
         \<and> (ipInLinkLocal (quad a b c d) \<longleftrightarrow> a = 169 \<and> b = 254)
         \<and> (ipInLocalhost (quad a b c d) \<longleftrightarrow> a = 127)"
  using assms by (auto simp: class_iff ipInPrivate_def)

theorem ip_classes_partition_witness: "ipInPrivate (quad 172 20 0 9) \<and> \<not> ipInLinkLocal (quad 172 20 0 9)"
  using ip_classes_partition [of 172 20 0 9] by simp

section \<open>Netmasks and subnet ranges\<close>

text \<open>The netmask with \<open>n\<close> leading one bits, field by field.\<close>

definition mask_byte :: "nat \<Rightarrow> nat" where
  "mask_byte k = 256 - 2 ^ (8 - min 8 k)"

definition netmask :: "nat \<Rightarrow> string" where
  "netmask n = quad (mask_byte n) (mask_byte (n - 8)) (mask_byte (n - 16)) (mask_byte (n - 24))"

lemma split_runs_aux_piece:
  "\<forall>x \<in> set u. \<not> P x \<Longrightarrow> P c \<Longrightarrow>
     split_runs_aux P False (u @ c # v) = u # split_runs_aux P True v"
  by (induction u) auto

lemma split_runs_aux_True:
  "v \<noteq> [] \<Longrightarrow> \<not> P (hd v) \<Longrightarrow> split_runs_aux P True v = split_runs_aux P False v"
  by (cases v) auto

lemma split_runs_aux_digits:
  "split_runs_aux (\<lambda>c. \<not> is_digit c) b (dec_str n @ CHR ''.'' # v) =
     dec_str n # split_runs_aux (\<lambda>c. \<not> is_digit c) True v"
  and split_runs_aux_digits_end:
  "split_runs_aux (\<lambda>c. \<not> is_digit c) b (dec_str n) = [dec_str n]"
proof -
  have digits: "\<forall>x \<in> set (dec_str n). is_digit x" by (simp add: dec_str_digits is_digit_iff)
  then have "is_digit (hd (dec_str n))" and "is_digit (hd (dec_str n @ CHR ''.'' # v))" by simp_all
  then have "split_runs_aux (\<lambda>c. \<not> is_digit c) b (dec_str n @ CHR ''.'' # v) =
      split_runs_aux (\<lambda>c. \<not> is_digit c) False (dec_str n @ CHR ''.'' # v)"
    and "split_runs_aux (\<lambda>c. \<not> is_digit c) b (dec_str n) =
      split_runs_aux (\<lambda>c. \<not> is_digit c) False (dec_str n)"
    by (cases b; simp add: split_runs_aux_True)+
  moreover have "\<not> is_digit CHR ''.''" by (simp add: is_digit_def)
  ultimately show
    "split_runs_aux (\<lambda>c. \<not> is_digit c) b (dec_str n @ CHR ''.'' # v) =
       dec_str n # split_runs_aux (\<lambda>c. \<not> is_digit c) True v"
    and "split_runs_aux (\<lambda>c. \<not> is_digit c) b (dec_str n) = [dec_str n]"
    using digits split_runs_aux_piece [of "dec_str n" "\<lambda>c. \<not> is_digit c" "CHR ''.''" v]
      split_runs_free [of "dec_str n" "\<lambda>c. \<not> is_digit c"] by (simp_all add: split_runs_def)
qed

lemma digit_runs_quad [simp]: "digit_runs (quad a b c d) = [dec_str a, dec_str b, dec_str c, dec_str d]"
  by (simp add: digit_runs_def split_runs_def quad_def split_runs_aux_digits split_runs_aux_digits_end)

definition popcount :: "nat \<Rightarrow> nat" where
  "popcount n = length (filter (\<lambda>c. c = CHR ''1'') (num_str 2 n))"

lemma popcount_mask_byte: "popcount (mask_byte k) = min 8 k" "mask_byte k < 2 ^ 32"
proof -
  have "\<forall>k \<in> set [0..<9]. popcount (mask_byte k) = k" by code_simp
  moreover have "min 8 k \<in> set [0..<9]" by auto
  ultimately have "popcount (mask_byte (min 8 k)) = min 8 k" by blast
  then show "popcount (mask_byte k) = min 8 k" by (simp add: mask_byte_def)
qed (simp add: mask_byte_def)

lemma netmask_num:
  assumes "n \<le> 32"
  shows "quad_num (mask_byte n) (mask_byte (n - 8)) (mask_byte (n - 16)) (mask_byte (n - 24)) = 2 ^ 32 - 2 ^ (32 - n)"
proof -
  have "\<forall>n \<in> set [0..<33]. quad_num (mask_byte n) (mask_byte (n - 8)) (mask_byte (n - 16)) (mask_byte (n - 24))
      = 2 ^ 32 - 2 ^ (32 - n)"
    by (simp add: quad_num_def mask_byte_def upt_rec)
  with assms show ?thesis by simp
qed

text \<open>
  For every prefix length \<open>n\<close>, \<open>parseCidr\<close> of the dotted netmask with \<open>n\<close> leading one bits is
  \<open>n\<close>, and \<open>parseIp\<close> of it is the number with these bits set.
\<close>

theorem parseCidr_netmask:
  assumes "n \<le> 32"
  shows "parseCidr (netmask n) = n \<and> parseIp (netmask n) = Some (2 ^ 32 - 2 ^ (32 - n))"
proof
  have "parseCidr (netmask n) =
      popcount (mask_byte n) + (popcount (mask_byte (n - 8)) + (popcount (mask_byte (n - 16)) + popcount (mask_byte (n - 24))))"
    using popcount_mask_byte(2) by (simp add: parseCidr_def netmask_def popcount_def)
  with assms show "parseCidr (netmask n) = n" unfolding popcount_mask_byte by arith
next
  from assms show "parseIp (netmask n) = Some (2 ^ 32 - 2 ^ (32 - n))" by (simp add: netmask_def netmask_num)
qed

theorem parseCidr_netmask_witness: "parseCidr (netmask 20) = 20 \<and> parseIp (netmask 20) = Some 4294963200"
  using parseCidr_netmask [of 20] by simp

lemma subnet_start_eq:
  assumes "0 < len"
  shows "subnet_start len (int e) start = (if e \<le> start then start else start + (e - start - 1) div len * len)"
  using assms
proof (induction len "int e" start rule: subnet_start.induct)
  case (1 len start)
  show ?case
  proof (cases "start + len < e")
    case True
    then have "e - start - 1 = (e - (start + len) - 1) + len" by simp
    then have "(e - start - 1) div len = Suc ((e - (start + len) - 1) div len)"
      using 1(2) by (simp only: div_add_self2)
    with True 1 show ?thesis by (simp add: subnet_start.simps [of len _ start])
  next
    case False
    then have "(e - start - 1) div len = 0" using 1(2) by (simp add: div_eq_0_iff)
    with False show ?thesis by (simp add: subnet_start.simps [of len _ start])
  qed
qed

lemma subnet_bits_netmask:
  assumes "n \<le> 32"
  shows "subnet_bits (split_on CHR ''.'' (netmask n)) = Some (32 - n)"
proof -
  have "\<forall>n \<in> set [0..<33]. subnet_bits [dec_str (mask_byte n), dec_str (mask_byte (n - 8)),
      dec_str (mask_byte (n - 16)), dec_str (mask_byte (n - 24))] = Some (32 - n)"
    by code_simp
  with assms show ?thesis by (simp add: netmask_def)
qed

lemma js_parseInt_dec_str [simp]: "js_parseInt (dec_str n) = Some (int n)"
proof -
  obtain c cs where s: "dec_str n = c # cs" by (meson neq_Nil_conv num_str_not_Nil)
  have digits: "\<forall>x \<in> set (c # cs). is_base_digit 10 x" using dec_str_digits [of _ n] s by simp
  then have sp: "\<not> is_js_space c" "c \<noteq> CHR ''-''" "c \<noteq> CHR ''+''"
    by (auto simp: digit_not_space) (auto simp: is_base_digit_def digit_val_def)
  have "take 2 (c # cs) \<noteq> ''0x''" "take 2 (c # cs) \<noteq> ''0X''"
    using digits by (cases cs; auto simp: is_base_digit_def digit_val_def)+
  moreover have "takeWhile (is_base_digit 10) (c # cs) = c # cs" using digits by (simp only: takeWhile_eq_all_conv)
  ultimately have "parseInt_unsigned (c # cs) = Some n"
    using base_val_num_str [of 10 n] s by (simp only: parseInt_unsigned_def parseInt_radix_def Let_def) simp
  with sp s show ?thesis by (simp add: js_parseInt_def)
qed

lemma subnet_range_netmask:
  assumes "n \<le> 32"
  shows "let len = 2 ^ (32 - n); lo = (d - 1) div len * len
         in getSubnetRange (netmask n) (quad a b c d) = Some (lo, lo + len - 1)
            \<and> (lo \<le> d \<and> d \<le> lo + len - 1 \<longleftrightarrow> d = 0 \<or> \<not> len dvd d)
            \<and> (d = 0 \<or> \<not> len dvd d \<longrightarrow> lo = d div len * len)"
proof -
  define len :: nat where "len = 2 ^ (32 - n)"
  define lo where "lo = (d - 1) div len * len"
  have pos: "0 < len" by (simp add: len_def)
  have four: "length (split_on CHR ''.'' (netmask n)) = 4" by (simp add: netmask_def)
  have "getSubnetRange (netmask n) (quad a b c d) = Some (lo, lo + len - 1)"
    using pos by (simp add: Let_def getSubnetRange_def four subnet_bits_netmask [OF assms] subnet_start_eq
        lo_def len_def [symmetric])
  moreover have block: "lo = d div len * len" if "d = 0 \<or> \<not> len dvd d"
  proof (cases d)
    case (Suc k)
    with that have "Suc k mod len \<noteq> 0" by (simp add: dvd_eq_mod_eq_0)
    then have "Suc k div len = k div len" by (simp add: div_Suc)
    with Suc show ?thesis by (simp add: lo_def)
  qed (simp add: lo_def)
  moreover have "lo \<le> d \<and> d \<le> lo + len - 1 \<longleftrightarrow> d = 0 \<or> \<not> len dvd d"
  proof (cases "d = 0 \<or> \<not> len dvd d")
    case True
    have "d = d div len * len + d mod len" by simp
    moreover have "d mod len < len" using pos by simp
    ultimately show ?thesis using True block by linarith
  next
    case False
    then obtain k where k: "d = len * k" "0 < k" by (auto elim: dvdE)
    then have d: "d - 1 = (len - 1) + len * (k - 1)" using pos by (cases k) auto
    have "(d - 1) div len = k - 1" unfolding d using pos by (simp only: div_mult_self2) simp
    then have "lo + len = d" using k by (cases k) (simp_all add: lo_def)
    with False pos show ?thesis by auto
  qed
  ultimately show ?thesis by (simp add: Let_def len_def lo_def)
qed

text \<open>
  C33. The subnet range for a netmask of prefix length \<open>n\<close> and an address with last octet \<open>d\<close>: the
  block of \<open>2 ^ (32 - n)\<close> addresses that contains \<open>d - 1\<close>. It contains \<open>d\<close>, and then is the aligned
  block of \<open>d\<close>, exactly when \<open>d\<close> is 0 or not the first address of a block: the loop compares with
  less than where the next block begins at \<open>d\<close>.
\<close>

theorem getSubnetRange_netmask:
  assumes "n \<le> 32"
  shows "let len = 2 ^ (32 - n); lo = (d - 1) div len * len
         in getSubnetRange (netmask n) (quad a b c d) = Some (lo, lo + len - 1)
            \<and> (lo \<le> d \<and> d \<le> lo + len - 1 \<longleftrightarrow> d = 0 \<or> \<not> len dvd d)
            \<and> (d = 0 \<or> \<not> len dvd d \<longrightarrow> lo = d div len * len)"
  using subnet_range_netmask [OF assms] .

theorem getSubnetRange_netmask_witness:
  "getSubnetRange (netmask 25) (quad 192 168 1 128) = Some (0, 127)
   \<and> getSubnetRange (netmask 25) (quad 192 168 1 129) = Some (128, 255)"
  using getSubnetRange_netmask [of 25 128 192 168 1] getSubnetRange_netmask [of 25 129 192 168 1]
  by (simp add: Let_def)

end
