(* ===== verification/Validators.thy ===== *)
theory Validators
  imports Js_Regex Ip4_Address
begin

text \<open>
  The input validators of \<open>common.js\<close>, from \<open>validateIP\<close> to \<open>validateWeeklyRange\<close>, with the address
  integers \<open>validateMultipleIps\<close> compares. A validator maps a text to an error code, 0 for valid.
  The locale \<open>validator\<close> is their contract: what the texts with code 0 are. It is interpreted for
  each of them, so the field checks of the pages rest on one set of facts.
\<close>

section \<open>Numbers, lengths and digits\<close>

abbreviation rdigit :: rx where
  "rdigit \<equiv> RCls is_digit"

definition hex_digit :: "char \<Rightarrow> bool" where
  "hex_digit c \<longleftrightarrow> c \<in> set ''0123456789ABCDEFabcdef''"

definition validateDecimal :: "string \<Rightarrow> nat" where
  "validateDecimal num =
     (if rx_match (RSeqs [RStar rdigit, ROpt (RChr CHR ''.''), RPlus rdigit]) num
         \<or> rx_match (RSeqs [RPlus rdigit, ROpt (RChr CHR ''.''), RStar rdigit]) num then 0 else 1)"

definition validateNumeric :: "string \<Rightarrow> nat" where
  "validateNumeric num = (if \<not> rx_match (RPlus rdigit) num then 1 else 0)"

definition validateNumericRange :: "string \<Rightarrow> nat \<Rightarrow> nat \<Rightarrow> nat" where
  "validateNumericRange num lo hi =
     (if \<not> rx_match (RPlus rdigit) num then 1
      else if dec_val num < lo then 2
      else if dec_val num > hi then 3 else 0)"

definition validatePort :: "string \<Rightarrow> nat" where
  "validatePort port = validateNumericRange port 1 65535"

definition validatePortOrPortRange :: "string \<Rightarrow> nat" where
  "validatePortOrPortRange ports =
     (if CHR ''-'' \<in> set ports
      then (let splitPorts = split_on CHR ''-'' ports
            in if length splitPorts > 2 then 5
               else (let error1 = validateNumericRange (splitPorts ! 0) 1 65535;
                         error2 = validateNumericRange (splitPorts ! 1) 1 65535;
                         errorCode = error1 + 10 * error2
                     in if errorCode = 0
                        then (if int (dec_val (splitPorts ! 1)) - int (dec_val (splitPorts ! 0)) \<ge> 0 then 0 else 4)
                        else errorCode))
      else validateNumericRange ports 1 65535)"

definition validateLengthRange :: "string \<Rightarrow> nat \<Rightarrow> nat \<Rightarrow> nat" where
  "validateLengthRange txt lo hi =
     (let errorcode = (if length txt < lo then 1 else 0)
      in if length txt > hi then 2 else errorcode)"

definition validateHex :: "string \<Rightarrow> nat" where
  "validateHex txt = (if \<not> rx_match (RStar (RCls hex_digit)) txt then 1 else 0)"

definition validateSsid :: "string \<Rightarrow> nat" where
  "validateSsid ssid = validateLengthRange ssid 1 32"

section \<open>Addresses and masks\<close>

text \<open>\<open>/^(\d{1,3})\.(\d{1,3})\.(\d{1,3})\.(\d{1,3})$/\<close>; the groups are free of dots.\<close>

definition dotted :: "rx \<Rightarrow> rx" where
  "dotted r = RSeqs [r, RChr CHR ''.'', r, RChr CHR ''.'', r, RChr CHR ''.'', r]"

definition ip_fields :: "string \<Rightarrow> string list option" where
  "ip_fields s = (if rx_match (dotted (RRange 1 3 rdigit)) s then Some (split_on CHR ''.'' s) else None)"

definition ip_field_step :: "nat \<Rightarrow> nat \<times> string \<Rightarrow> nat" where
  "ip_field_step errorCode = (\<lambda>(field, txt).
     let errorCode1 = (if dec_val txt > 255 then 4 else errorCode)
     in if dec_val txt = 255 \<and> field = 4 then 3 else errorCode1)"

definition validateIP :: "string \<Rightarrow> nat" where
  "validateIP address =
     (if address = ''0.0.0.0'' then 1
      else if address = ''255.255.255.255'' then 2
      else (case ip_fields address of
              None \<Rightarrow> 5
            | Some ipFields \<Rightarrow> foldl ip_field_step 0 (enumerate 1 ipFields)))"

fun mac_fields_code :: "string list \<Rightarrow> nat" where
  "mac_fields_code [] = 0"
| "mac_fields_code (field # macFields) =
     (if \<not> rx_match (RTimes 2 (RCls hex_digit)) field then 1 else mac_fields_code macFields)"

definition validateMac :: "string \<Rightarrow> nat" where
  "validateMac mac =
     (let macFields = split_on CHR '':'' mac
      in if length macFields \<noteq> 6 then 2 else mac_fields_code macFields)"

definition mask_values :: "nat list" where
  "mask_values = [255, 254, 252, 248, 240, 224, 192, 128, 0]"

definition netmask_step :: "nat \<times> nat \<Rightarrow> string \<Rightarrow> nat \<times> nat" where
  "netmask_step = (\<lambda>(previousField, errorCode) txt.
     let v = dec_val txt;
         e1 = (if v > 255 then 3 else errorCode);
         e2 = (if previousField < 255 \<and> v \<noteq> 0 \<and> e1 < 2 then 2 else e1);
         e3 = (if v \<notin> set mask_values \<and> e2 < 1 then 1 else e2)
     in (v, e3))"

definition validateNetMask :: "string \<Rightarrow> nat" where
  "validateNetMask msk =
     (case ip_fields msk of
        None \<Rightarrow> 4
      | Some ipFields \<Rightarrow> snd (foldl netmask_step (255, 0) ipFields))"

text \<open>\<open>range.indexOf("/") > 0\<close>: there is a slash, and not in front.\<close>

definition validateIpRange :: "string \<Rightarrow> nat" where
  "validateIpRange rng =
     (if CHR ''/'' \<in> set rng \<and> hd rng \<noteq> CHR ''/''
      then (case split_on CHR ''/'' rng of
              [addr, msk] \<Rightarrow>
                (let ipValid = validateIP addr;
                     maskValid = (if validateNetMask msk = 0 \<or> validateNumericRange msk 1 31 = 0 then 0 else (1::nat))
                 in if ipValid = 0 \<and> maskValid = 0 then 0 else 1)
            | _ \<Rightarrow> 1)
      else validateIP rng)"

section \<open>Address integers\<close>

text \<open>\<open>intStr.replace(/[\t ]+/, "")\<close>: the first run of white space goes.\<close>

definition drop_ws_run :: "string \<Rightarrow> string" where
  "drop_ws_run s = takeWhile (\<lambda>c. \<not> is_ws c) s @ dropWhile is_ws (dropWhile (\<lambda>c. \<not> is_ws c) s)"

definition strip_zero :: "string \<Rightarrow> string" where
  "strip_zero s = (if take 1 s = ''0'' then drop 1 s else s)"

definition strip_minus_zero :: "string \<Rightarrow> string" where
  "strip_minus_zero s = (if take 2 s = ''-0'' then CHR ''-'' # drop 2 s else s)"

function strip_padding :: "string \<Rightarrow> string" where
  "strip_padding s =
     (if (length s > 1 \<and> take 1 s = ''0'') \<or> (length s > 2 \<and> take 2 s = ''-0'')
      then strip_padding (strip_minus_zero (strip_zero s)) else s)"
  by pat_completeness auto
termination
proof (relation "measure length")
  fix s :: string
  assume "(length s > 1 \<and> take 1 s = ''0'') \<or> (length s > 2 \<and> take 2 s = ''-0'')"
  then show "(strip_minus_zero (strip_zero s), s) \<in> measure length"
    by (cases s) (auto simp: strip_zero_def strip_minus_zero_def)
qed simp

declare strip_padding.simps [simp del]

definition parsePaddedInt :: "string option \<Rightarrow> int option" where
  "parsePaddedInt intStr =
     js_parseInt (strip_padding (drop_ws_run (case intStr of None \<Rightarrow> [] | Some s \<Rightarrow> s)))"

text \<open>\<open>NaN\<close> is \<open>None\<close>; a sum with it is \<open>NaN\<close>, a shift of it is 0.\<close>

definition getIpInteger :: "string option \<Rightarrow> int option" where
  "getIpInteger ipStr =
     (let s = (case ipStr of None \<Rightarrow> [] | Some s \<Rightarrow> s)
      in if rx_match (dotted (RPlus rdigit)) s
         then (let ip = split_on CHR ''.'' s
               in map_option
                    (\<lambda>d. js_shl (parsePaddedInt (Some (ip ! 0))) 24
                        + js_shl (parsePaddedInt (Some (ip ! 1))) 16
                        + js_shl (parsePaddedInt (Some (ip ! 2))) 8 + d)
                    (parsePaddedInt (Some (ip ! 3))))
         else None)"

text \<open>\<open>x <= y\<close> on numbers: false when one is \<open>NaN\<close>.\<close>

definition num_le :: "int option \<Rightarrow> int option \<Rightarrow> bool" where
  "num_le x y = (case (x, y) of (Some a, Some b) \<Rightarrow> a \<le> b | _ \<Rightarrow> False)"

section \<open>Lists of addresses\<close>

text \<open>The \<open>while\<close> loop that pops the pieces from the end until one is not valid.\<close>

fun first_code :: "('a \<Rightarrow> nat) \<Rightarrow> 'a list \<Rightarrow> nat" where
  "first_code f [] = 0"
| "first_code f (x # xs) = (if f x = 0 then first_code f xs else f x)"

definition ip_dash_code :: "string \<Rightarrow> nat" where
  "ip_dash_code nextIp =
     (case split_sep_ws CHR ''-'' nextIp of
        [a, b] \<Rightarrow>
          (if validateIP a = 0 \<and> validateIP b = 0
           then (if num_le (getIpInteger (Some a)) (getIpInteger (Some b)) then 0 else 1)
           else 1)
      | _ \<Rightarrow> 1)"

definition multiple_ip_code :: "string \<Rightarrow> nat" where
  "multiple_ip_code nextIp =
     (if CHR ''-'' \<in> set nextIp then ip_dash_code nextIp else validateIpRange nextIp)"

definition validateMultipleIps :: "string \<Rightarrow> nat" where
  "validateMultipleIps ips =
     first_code multiple_ip_code (rev (split_sep_ws CHR '','' (rtrim (ltrim ips))))"

definition multiple_ip_or_mac_code :: "string \<Rightarrow> nat" where
  "multiple_ip_or_mac_code nextAddr =
     (if CHR ''-'' \<in> set nextAddr then ip_dash_code nextAddr
      else if CHR '':'' \<in> set nextAddr then validateMac nextAddr
      else validateIpRange nextAddr)"

definition validateMultipleIpsOrMacs :: "string \<Rightarrow> nat" where
  "validateMultipleIpsOrMacs addresses =
     first_code multiple_ip_or_mac_code (rev (split_sep_ws CHR '','' (rtrim (ltrim addresses))))"

section \<open>Times\<close>

definition rclass :: "char list \<Rightarrow> rx" where
  "rclass cs = RCls (\<lambda>c. c \<in> set cs)"

definition hour_rx :: rx where
  "hour_rx = RAlt (RSeq (ROpt (rclass ''01'')) (rclass ''0123456789'')) (RSeq (RChr CHR ''2'') (rclass ''0123''))"

definition hours_rx :: rx where
  "hours_rx = RSeqs [RStar (RCls is_ws), hour_rx,
     ROpt (RSeqs [RChr CHR '':'', rclass ''012345'', rclass ''0123456789'']), RStar (RCls is_ws)]"

definition validateHours :: "string \<Rightarrow> nat" where
  "validateHours hoursStr =
     (let commaSplit = (if CHR '','' \<in> set hoursStr then split_on CHR '','' hoursStr else [hoursStr]);
          valid = list_all (\<lambda>piece.
            (let splitStr = split_on CHR ''-'' piece
             in length splitStr = 2 \<and> rx_match hours_rx (splitStr ! 0) \<and> rx_match hours_rx (splitStr ! 1)))
            commaSplit
      in if valid then 0 else 1)"

text \<open>The seven day names are strings of the page's language.\<close>

fun ralts :: "string list \<Rightarrow> rx" where
  "ralts [] = RNone"
| "ralts (d # ds) = RAlt (RLit d) (ralts ds)"

definition day_rx :: "string list \<Rightarrow> rx" where
  "day_rx days =
     (let opt_field = ROpt (RSeqs [RChr CHR '':'', ROpt (rclass ''012345''), rclass ''0123456789''])
      in RSeqs [RStar (RCls is_ws), ralts days, RStar (RCls is_ws), hour_rx, opt_field, opt_field, RStar (RCls is_ws)])"

definition validateWeeklyRange :: "string list \<Rightarrow> string \<Rightarrow> nat" where
  "validateWeeklyRange days weeklyStr =
     (let commaSplit = (if CHR '','' \<in> set weeklyStr then split_on CHR '','' weeklyStr else [weeklyStr]);
          valid = list_all (\<lambda>piece.
            (let splitStr = split_on CHR ''-'' piece
             in length splitStr = 2 \<and> rx_match (day_rx days) (splitStr ! 0) \<and> rx_match (day_rx days) (splitStr ! 1)))
            commaSplit
      in if valid then 0 else 1)"

section \<open>Dotted addresses\<close>

text \<open>What a dotted address says: its four octets, each written with one to three digits.\<close>

definition octet_text :: "string \<Rightarrow> bool" where
  "octet_text f \<longleftrightarrow> f \<noteq> [] \<and> length f \<le> 3 \<and> list_all is_digit f"

definition octets :: "string \<Rightarrow> (nat \<times> nat \<times> nat \<times> nat) option" where
  "octets s =
     (case split_on CHR ''.'' s of
        [a, b, c, d] \<Rightarrow>
          (if octet_text a \<and> octet_text b \<and> octet_text c \<and> octet_text d
           then Some (dec_val a, dec_val b, dec_val c, dec_val d) else None)
      | _ \<Rightarrow> None)"

lemma dotted_iff:
  assumes "\<And>t. rx_match r t \<Longrightarrow> CHR ''.'' \<notin> set t"
  shows "rx_match (dotted r) s \<longleftrightarrow>
    (\<exists>a b c d. split_on CHR ''.'' s = [a, b, c, d] \<and> rx_match r a \<and> rx_match r b \<and> rx_match r c \<and> rx_match r d)"
proof -
  have "rx_match (dotted r) s \<longleftrightarrow>
      (\<exists>a b c d. s = a @ CHR ''.'' # b @ CHR ''.'' # c @ CHR ''.'' # d
         \<and> rx_match r a \<and> rx_match r b \<and> rx_match r c \<and> rx_match r d)"
    unfolding dotted_def RSeqs.simps by (simp add: rx_match_Seq rx_simps) (metis append.right_neutral)
  moreover have "split_on CHR ''.'' s = [a, b, c, d] \<longleftrightarrow> s = a @ CHR ''.'' # b @ CHR ''.'' # c @ CHR ''.'' # d"
    if "rx_match r a" "rx_match r b" "rx_match r c" "rx_match r d" for a b c d
    using that assms by (auto simp: split_on_eq_iff)
  ultimately show ?thesis by metis
qed

lemma digits_no_dot: "list_all is_digit t \<Longrightarrow> CHR ''.'' \<notin> set t"
  by (auto simp: list_all_iff is_digit_def)

lemma octet_rx: "rx_match (RRange 1 3 rdigit) t \<longleftrightarrow> octet_text t"
  by (cases t) (auto simp: rx_simps octet_text_def)

lemma ip_fields_octets:
  "(ip_fields s = None \<longleftrightarrow> octets s = None)
   \<and> (\<forall>fs. ip_fields s = Some fs \<longrightarrow>
        (\<exists>a b c d. fs = [a, b, c, d] \<and> octets s = Some (dec_val a, dec_val b, dec_val c, dec_val d)))"
proof -
  have "rx_match (dotted (RRange 1 3 rdigit)) s \<longleftrightarrow>
      (\<exists>a b c d. split_on CHR ''.'' s = [a, b, c, d] \<and> octet_text a \<and> octet_text b \<and> octet_text c \<and> octet_text d)"
    unfolding octet_rx [symmetric]
    by (rule dotted_iff) (simp only: octet_rx, auto simp: octet_text_def dest: digits_no_dot)
  then show ?thesis
    by (auto simp: ip_fields_def octets_def split: list.splits if_splits)
qed

lemma ip_fields_cases:
  obtains (none) "ip_fields s = None" "octets s = None"
  | (some) a b c d where "ip_fields s = Some [a, b, c, d]"
      "octets s = Some (dec_val a, dec_val b, dec_val c, dec_val d)"
  using ip_fields_octets [of s] by (cases "ip_fields s") auto

text \<open>
  The error codes of \<open>validateIP\<close>, in their order of precedence, for every text: the reserved
  addresses, a text that is no dotted address, a last octet of 255 (also when another octet is too
  large), an octet above 255, and 0 for the rest.
\<close>

theorem validateIP_codes:
  "validateIP s =
     (if s = ''0.0.0.0'' then 1
      else if s = ''255.255.255.255'' then 2
      else (case octets s of
              None \<Rightarrow> 5
            | Some (a, b, c, d) \<Rightarrow>
                if d = 255 then 3
                else if a > 255 \<or> b > 255 \<or> c > 255 \<or> d > 255 then 4
                else 0))"
  by (cases s rule: ip_fields_cases)
    (simp_all add: validateIP_def ip_field_step_def numeral_eq_Suc)

lemma validateIP_iff:
  "validateIP s = 0 \<longleftrightarrow>
     s \<noteq> ''0.0.0.0'' \<and> (\<exists>a b c d. octets s = Some (a, b, c, d) \<and> a < 256 \<and> b < 256 \<and> c < 256 \<and> d < 255)"
proof -
  have "octets ''255.255.255.255'' = Some (255, 255, 255, 255)" by code_simp
  then show ?thesis
    by (cases s rule: ip_fields_cases)
      (auto simp: validateIP_def ip_field_step_def numeral_eq_Suc split: if_splits)
qed

section \<open>Address integers of valid texts\<close>

lemma octet_value_less: "octet_text f \<Longrightarrow> dec_val f < 1000"
proof -
  assume f: "octet_text f"
  then have "dec_val f < 10 ^ length f"
    by (intro base_val_less) (auto simp: octet_text_def list_all_iff is_digit_iff)
  also have "(10::nat) ^ length f \<le> 10 ^ 3"
    using f by (intro power_increasing) (auto simp: octet_text_def)
  finally show ?thesis by simp
qed

lemma dec_val_Cons_zero: "dec_val (CHR ''0'' # s) = dec_val s"
  using base_val_append [of 10 "''0''" s] by (simp add: digit_val_def)

lemma strip_padding_digits:
  assumes "s \<noteq> []" "list_all is_digit s"
  shows "strip_padding s \<noteq> [] \<and> list_all is_digit (strip_padding s) \<and> dec_val (strip_padding s) = dec_val s
    \<and> (length (strip_padding s) = 1 \<or> hd (strip_padding s) \<noteq> CHR ''0'')"
  using assms
proof (induction s rule: strip_padding.induct)
  case (1 s)
  show ?case
  proof (cases "1 < length s \<and> take 1 s = ''0''")
    case True
    then obtain t where t: "s = CHR ''0'' # t" "t \<noteq> []" by (cases s) auto
    have step: "strip_minus_zero (strip_zero s) = t"
      using 1(3) t by (cases t) (auto simp: strip_zero_def strip_minus_zero_def is_digit_def)
    then have "strip_padding s = strip_padding t"
      using True by (subst strip_padding.simps) simp
    with 1 True t step show ?thesis by (auto simp: dec_val_Cons_zero)
  next
    case False
    moreover have "take 2 s \<noteq> ''-0''"
      using 1(2,3) by (cases s) (auto simp: is_digit_def)
    ultimately have "strip_padding s = s" by (subst strip_padding.simps) auto
    with 1 False show ?thesis by (cases s) (auto simp: Suc_lessI)
  qed
qed

lemma js_parseInt_digits:
  assumes "s \<noteq> []" "list_all is_digit s"
  shows "js_parseInt s = Some (int (dec_val s))"
proof -
  obtain c cs where s: "s = c # cs" using assms by (cases s) auto
  have digits: "\<forall>x \<in> set (c # cs). is_base_digit 10 x" using assms s by (simp add: list_all_iff is_digit_iff)
  then have sp: "\<not> is_js_space c" "c \<noteq> CHR ''-''" "c \<noteq> CHR ''+''"
    by (auto simp: digit_not_space) (auto simp: is_base_digit_def digit_val_def)
  have "take 2 (c # cs) \<noteq> ''0x''" "take 2 (c # cs) \<noteq> ''0X''"
    using digits by (cases cs; auto simp: is_base_digit_def digit_val_def)+
  moreover have "takeWhile (is_base_digit 10) (c # cs) = c # cs" using digits by (simp only: takeWhile_eq_all_conv)
  ultimately have "parseInt_unsigned (c # cs) = Some (dec_val (c # cs))"
    by (simp only: parseInt_unsigned_def parseInt_radix_def Let_def) simp
  with sp s show ?thesis by (simp add: js_parseInt_def)
qed

lemma parsePaddedInt_digits:
  assumes "s \<noteq> []" "list_all is_digit s"
  shows "parsePaddedInt (Some s) = Some (int (dec_val s))"
proof -
  have "\<forall>c \<in> set s. \<not> is_ws c" using assms by (auto simp: list_all_iff is_ws_def is_digit_def)
  then have "takeWhile (\<lambda>c. \<not> is_ws c) s = s" "dropWhile (\<lambda>c. \<not> is_ws c) s = []" by auto
  then have "drop_ws_run s = s" by (simp only: drop_ws_run_def) simp
  with strip_padding_digits [OF assms] show ?thesis
    by (simp add: parsePaddedInt_def js_parseInt_digits)
qed

text \<open>The signed 32-bit number of an address.\<close>

definition addr_int :: "nat \<times> nat \<times> nat \<times> nat \<Rightarrow> int" where
  "addr_int = (\<lambda>(a, b, c, d). int (quad_num a b c d) - (if a < 128 then 0 else 2 ^ 32))"

lemma sint_wrap:
  assumes "0 \<le> x" "x < 2 ^ 32"
  shows "sint (word_of_int x :: 32 word) = (if x < 2 ^ 31 then x else x - 2 ^ 32)"
proof (cases "x < 2 ^ 31")
  case True
  with assms show ?thesis unfolding int_word_sint by simp
next
  case False
  have "(x + 2 ^ 31) mod 2 ^ 32 = (x + 2 ^ 31 - 2 ^ 32) mod 2 ^ 32" by (rule minus_mod_self2 [symmetric])
  also have "\<dots> = x + 2 ^ 31 - 2 ^ 32" using False assms by (intro mod_pos_pos_trivial) auto
  finally show ?thesis using False unfolding int_word_sint by simp
qed

lemma js_shl_eq:
  assumes "0 \<le> i" "i * 2 ^ k < 2 ^ 32"
  shows "js_shl (Some i) k = (if i * 2 ^ k < 2 ^ 31 then i * 2 ^ k else i * 2 ^ k - 2 ^ 32)"
proof -
  have "push_bit k (word_of_int i) = (word_of_int (i * 2 ^ k) :: 32 word)"
    by (simp add: push_bit_eq_mult)
  then have "js_shl (Some i) k = sint (word_of_int (i * 2 ^ k) :: 32 word)"
    by (simp only: js_shl_def toInt32_def option.case)
  then show ?thesis using sint_wrap [of "i * 2 ^ k"] assms by simp
qed

lemma quad_num_half:
  assumes "b < 256" "c < 256" "d < 256"
  shows "quad_num a b c d < 2 ^ 31 \<longleftrightarrow> a < 128"
  using assms by (cases "a < 128") (simp_all add: quad_num_def)

lemma addr_int_sint:
  assumes "a < 256" "b < 256" "c < 256" "d < 256"
  shows "addr_int (a, b, c, d) = sint (word_of_nat (quad_num a b c d) :: 32 word)"
proof -
  have "quad_num a b c d < 2 ^ 32" using assms by (simp add: quad_num_def)
  then have "sint (word_of_int (int (quad_num a b c d)) :: 32 word) =
      (if quad_num a b c d < 2 ^ 31 then int (quad_num a b c d) else int (quad_num a b c d) - 2 ^ 32)"
    by (subst sint_wrap) auto
  with assms show ?thesis by (simp add: addr_int_def quad_num_half del: power_numeral)
qed

lemma getIpInteger_octets:
  assumes "octets s = Some (a, b, c, d)" "a < 256" "b < 256" "c < 256"
  shows "getIpInteger (Some s) = Some (addr_int (a, b, c, d))"
proof -
  obtain fa fb fc fd where f: "split_on CHR ''.'' s = [fa, fb, fc, fd]"
      "octet_text fa" "octet_text fb" "octet_text fc" "octet_text fd"
      "a = dec_val fa" "b = dec_val fb" "c = dec_val fc" "d = dec_val fd"
    using assms(1) by (auto simp: octets_def split: list.splits if_splits)
  have "rx_match (dotted (RPlus rdigit)) s"
    using f by (subst dotted_iff) (auto simp: rx_simps octet_text_def dest: digits_no_dot)
  moreover have "parsePaddedInt (Some t) = Some (int (dec_val t))" if "octet_text t" for t
    using that by (simp add: octet_text_def parsePaddedInt_digits)
  ultimately have "getIpInteger (Some s) =
      Some (js_shl (Some (int a)) 24 + js_shl (Some (int b)) 16 + js_shl (Some (int c)) 8 + int d)"
    using f by (simp add: getIpInteger_def)
  moreover have "js_shl (Some (int b)) 16 = int b * 2 ^ 16" "js_shl (Some (int c)) 8 = int c * 2 ^ 8"
    using assms by (simp_all add: js_shl_eq)
  moreover have "js_shl (Some (int a)) 24 = int a * 2 ^ 24 - (if a < 128 then 0 else 2 ^ 32)"
    using assms by (subst js_shl_eq) auto
  ultimately show ?thesis by (simp add: addr_int_def quad_num_def)
qed

lemma parseIp_octets:
  assumes "octets s = Some (a, b, c, d)"
  shows "parseIp s = Some (quad_num a b c d)"
proof -
  have "js_number t = Some (dec_val t)" if "octet_text t" for t
  proof -
    have ns: "\<not> is_js_space x" if "x \<in> set t" for x
      using that \<open>octet_text t\<close> by (auto simp: octet_text_def list_all_iff is_digit_iff digit_not_space)
    then have "dropWhile is_js_space t = t" "dropWhile is_js_space (rev t) = rev t"
      by (metis dropWhile_eq_self_iff hd_in_set, metis dropWhile_eq_self_iff hd_in_set set_rev)
    with that show ?thesis by (simp add: js_number_def octet_text_def)
  qed
  with assms show ?thesis
    by (auto simp: octets_def parseIp_def quad_num_def split: list.splits if_splits)
qed

text \<open>
  C30. A text \<open>validateIP\<close> accepts is the address of a host: \<open>parseIp\<close> gives a number below
  \<open>2 ^ 32\<close> whose last octet is not 255, and \<open>getIpInteger\<close> gives the same 32 bits as a signed number.
\<close>

theorem validateIP_denotes:
  assumes "validateIP s = 0"
  shows "\<exists>n. parseIp s = Some n \<and> n < 2 ^ 32 \<and> n mod 256 \<noteq> 255
           \<and> getIpInteger (Some s) = Some (sint (word_of_nat n :: 32 word))"
proof -
  obtain a b c d where o: "octets s = Some (a, b, c, d)" "a < 256" "b < 256" "c < 256" "d < 255"
    using assms by (auto simp: validateIP_iff)
  let ?n = "quad_num a b c d"
  have "getIpInteger (Some s) = Some (sint (word_of_nat ?n :: 32 word))"
    using getIpInteger_octets [OF o(1-4)] addr_int_sint [OF o(2-4)] o(5) by simp
  moreover have "?n < 2 ^ 32" using o by (simp add: quad_num_def)
  moreover have "?n mod 256 = d" using o by (simp only: quad_num_fields)
  ultimately show ?thesis using o parseIp_octets [OF o(1)] by auto
qed

theorem validateIP_denotes_witness:
  "\<exists>n. parseIp ''192.168.1.1'' = Some n \<and> n < 2 ^ 32 \<and> n mod 256 \<noteq> 255
     \<and> getIpInteger (Some ''192.168.1.1'') = Some (sint (word_of_nat n :: 32 word))"
proof -
  have "validateIP ''192.168.1.1'' = 0" by code_simp
  then show ?thesis by (rule validateIP_denotes)
qed

section \<open>Netmasks\<close>

lemma mask_values_iff: "x \<in> set mask_values \<longleftrightarrow> (\<exists>k \<le> 8. x = mask_byte k)"
proof -
  have "set mask_values = mask_byte ` {0..8}"
    by (simp add: mask_values_def mask_byte_def atLeastAtMost_insertL [symmetric] numeral_eq_Suc) auto
  then show ?thesis by auto
qed

lemma mask_byte_facts: "mask_byte k < 256" "mask_byte k < 255 \<longleftrightarrow> k < 8" "mask_byte 0 = 0" "8 \<le> k \<Longrightarrow> mask_byte k = 255"
proof -
  show "mask_byte k < 255 \<longleftrightarrow> k < 8"
  proof (cases "k < 8")
    case True
    then obtain j where "8 - k = Suc j" by (metis Suc_diff_Suc)
    with True have "(2::nat) \<le> 2 ^ (8 - k)" by simp
    with True show ?thesis by (simp add: mask_byte_def)
  qed (simp add: mask_byte_def)
qed (simp_all add: mask_byte_def)

lemma netmask_codes:
  "snd (foldl netmask_step (255, 0) [fa, fb, fc, fd]) = 0 \<longleftrightarrow>
     {dec_val fa, dec_val fb, dec_val fc, dec_val fd} \<subseteq> set mask_values
     \<and> (dec_val fa < 255 \<longrightarrow> dec_val fb = 0) \<and> (dec_val fb < 255 \<longrightarrow> dec_val fc = 0)
     \<and> (dec_val fc < 255 \<longrightarrow> dec_val fd = 0)"
proof -
  have le: "x \<in> set mask_values \<Longrightarrow> \<not> 255 < x" for x by (auto simp: mask_values_def)
  show ?thesis
    by (auto simp: netmask_step_def Let_def dest: le split: if_splits)
qed

lemma mask_bytes_prefix:
  "(\<exists>n \<le> 32. a = mask_byte n \<and> b = mask_byte (n - 8) \<and> c = mask_byte (n - 16) \<and> d = mask_byte (n - 24)) \<longleftrightarrow>
     {a, b, c, d} \<subseteq> set mask_values
     \<and> (a < 255 \<longrightarrow> b = 0) \<and> (b < 255 \<longrightarrow> c = 0) \<and> (c < 255 \<longrightarrow> d = 0)" (is "?L \<longleftrightarrow> ?R")
proof
  assume ?L
  moreover have "mask_byte k \<in> set mask_values" for k
    unfolding mask_values_iff by (rule exI [of _ "min 8 k"]) (simp add: mask_byte_def)
  ultimately show ?R by (auto simp: mask_byte_facts)
next
  assume R: ?R
  then obtain i j k l where m: "i \<le> 8" "a = mask_byte i" "j \<le> 8" "b = mask_byte j" "k \<le> 8" "c = mask_byte k"
      "l \<le> 8" "d = mask_byte l"
    by (auto simp: mask_values_iff)
  have zero: "mask_byte x = 0 \<Longrightarrow> mask_byte x < 255" for x by simp
  consider "i < 8" | "i = 8" "j < 8" | "i = 8" "j = 8" "k < 8" | "i = 8" "j = 8" "k = 8"
    using m by linarith
  then show ?L
  proof cases
    case 1
    then show ?thesis using m R zero by (intro exI [of _ i]) (simp add: mask_byte_facts)
  next
    case 2
    then show ?thesis using m R zero by (intro exI [of _ "8 + j"]) (simp add: mask_byte_facts)
  next
    case 3
    then show ?thesis using m R zero by (intro exI [of _ "16 + k"]) (simp add: mask_byte_facts)
  next
    case 4
    then show ?thesis using m R by (intro exI [of _ "24 + l"]) (simp add: mask_byte_facts)
  qed
qed

text \<open>
  C31. \<open>validateNetMask\<close> accepts exactly the texts whose four octets are those of a netmask: \<open>n\<close>
  leading one bits for some prefix length \<open>n\<close> up to 32.
\<close>

theorem validateNetMask_iff:
  "validateNetMask s = 0 \<longleftrightarrow>
     (\<exists>n \<le> 32. octets s = Some (mask_byte n, mask_byte (n - 8), mask_byte (n - 16), mask_byte (n - 24)))"
proof (cases s rule: ip_fields_cases)
  case none
  then show ?thesis by (simp add: validateNetMask_def)
next
  case (some fa fb fc fd)
  then have "validateNetMask s = 0 \<longleftrightarrow> snd (foldl netmask_step (255, 0) [fa, fb, fc, fd]) = 0"
    by (simp add: validateNetMask_def)
  also have "\<dots> \<longleftrightarrow> (\<exists>n \<le> 32. dec_val fa = mask_byte n \<and> dec_val fb = mask_byte (n - 8)
      \<and> dec_val fc = mask_byte (n - 16) \<and> dec_val fd = mask_byte (n - 24))"
    unfolding netmask_codes mask_bytes_prefix ..
  finally show ?thesis using some by auto
qed

section \<open>The contract of a validator\<close>

locale validator =
  fixes validate :: "string \<Rightarrow> nat" and accepts :: "string \<Rightarrow> bool"
  assumes code_iff: "validate s = 0 \<longleftrightarrow> accepts s"
begin

lemma first_code_iff: "first_code validate xs = 0 \<longleftrightarrow> (\<forall>x \<in> set xs. accepts x)"
  by (induction xs) (auto simp: code_iff)

lemma pieces_iff:
  "first_code validate (rev (split_sep_ws c s)) = 0 \<longleftrightarrow> (\<forall>x \<in> set (split_sep_ws c s). accepts x)"
  by (simp add: first_code_iff)

end

text \<open>The texts each validator is for.\<close>

definition number_text :: "string \<Rightarrow> bool" where
  "number_text s \<longleftrightarrow> s \<noteq> [] \<and> list_all is_digit s"

definition number_in :: "nat \<Rightarrow> nat \<Rightarrow> string \<Rightarrow> bool" where
  "number_in lo hi s \<longleftrightarrow> number_text s \<and> lo \<le> dec_val s \<and> dec_val s \<le> hi"

definition port_range_text :: "string \<Rightarrow> bool" where
  "port_range_text s \<longleftrightarrow> number_in 1 65535 s \<or>
     (\<exists>a b. s = a @ CHR ''-'' # b \<and> number_in 1 65535 a \<and> number_in 1 65535 b \<and> dec_val a \<le> dec_val b)"

definition host_text :: "string \<Rightarrow> bool" where
  "host_text s \<longleftrightarrow> s \<noteq> ''0.0.0.0'' \<and>
     (\<exists>a b c d. octets s = Some (a, b, c, d) \<and> a < 256 \<and> b < 256 \<and> c < 256 \<and> d < 255)"

definition mask_text :: "string \<Rightarrow> bool" where
  "mask_text s \<longleftrightarrow>
     (\<exists>n \<le> 32. octets s = Some (mask_byte n, mask_byte (n - 8), mask_byte (n - 16), mask_byte (n - 24)))"

definition subnet_text :: "string \<Rightarrow> bool" where
  "subnet_text s \<longleftrightarrow> host_text s \<or>
     (\<exists>a m. s = a @ CHR ''/'' # m \<and> host_text a \<and> (mask_text m \<or> number_in 1 31 m))"

definition mac_text :: "string \<Rightarrow> bool" where
  "mac_text s \<longleftrightarrow> length (split_on CHR '':'' s) = 6
     \<and> (\<forall>f \<in> set (split_on CHR '':'' s). length f = 2 \<and> list_all hex_digit f)"

definition host_range_text :: "string \<Rightarrow> bool" where
  "host_range_text s \<longleftrightarrow> (\<exists>a b. split_sep_ws CHR ''-'' s = [a, b] \<and> host_text a \<and> host_text b
     \<and> num_le (getIpInteger (Some a)) (getIpInteger (Some b)))"

definition address_text :: "string \<Rightarrow> bool" where
  "address_text s \<longleftrightarrow> (if CHR ''-'' \<in> set s then host_range_text s else subnet_text s)"

lemma octets_chars: "octets s = Some q \<Longrightarrow> x \<in> set s \<Longrightarrow> is_digit x \<or> x = CHR ''.''"
proof -
  assume "octets s = Some q" "x \<in> set s"
  then obtain fs where fs: "split_on CHR ''.'' s = fs" "\<forall>f \<in> set fs. list_all is_digit f"
    by (auto simp: octets_def octet_text_def split: list.splits if_splits)
  then have "x \<in> set (join ''.'' fs)" using \<open>x \<in> set s\<close> by (metis join_split_on)
  then show ?thesis using fs(2) set_join [of "''.''" fs] by (auto simp: list_all_iff)
qed

lemma octets_no_sep: "octets s = Some q \<Longrightarrow> CHR ''/'' \<notin> set s" "octets s = Some q \<Longrightarrow> CHR ''-'' \<notin> set s"
  by (auto dest: octets_chars simp: is_digit_def)

lemma octets_Nil [simp]: "octets [] = None"
  by (simp add: octets_def)

lemma host_text_no:
  assumes "host_text s" shows "CHR ''/'' \<notin> set s" and "CHR ''-'' \<notin> set s" and "s \<noteq> []"
  using assms octets_no_sep [of s] by (auto simp: host_text_def)

lemma number_no_slash: "number_text s \<Longrightarrow> CHR ''/'' \<notin> set s" "number_text s \<Longrightarrow> CHR ''-'' \<notin> set s"
  by (auto simp: number_text_def list_all_iff is_digit_def)

lemma mask_no_slash: "mask_text s \<Longrightarrow> CHR ''/'' \<notin> set s"
  using octets_no_sep [of s] by (auto simp: mask_text_def)

interpretation numeric: validator validateNumeric number_text
  by unfold_locales (auto simp: validateNumeric_def number_text_def rx_simps)

interpretation numeric_range: validator "\<lambda>s. validateNumericRange s lo hi" "number_in lo hi" for lo hi
  by unfold_locales (auto simp: validateNumericRange_def number_in_def number_text_def rx_simps)

interpretation port: validator validatePort "number_in 1 65535"
  by unfold_locales (simp add: validatePort_def numeric_range.code_iff)

interpretation ssid: validator validateSsid "\<lambda>s. 1 \<le> length s \<and> length s \<le> 32"
  by unfold_locales (simp add: validateSsid_def validateLengthRange_def Let_def not_less Suc_le_eq)

interpretation hex: validator validateHex "list_all hex_digit"
  by unfold_locales (simp add: validateHex_def rx_simps)

interpretation ip: validator validateIP host_text
  by unfold_locales (simp add: validateIP_iff host_text_def)

interpretation mask: validator validateNetMask mask_text
proof
  fix s
  have "mask_text s \<longleftrightarrow> validateNetMask s = 0"
  proof (cases s rule: ip_fields_cases)
    case none
    then show ?thesis by (simp add: validateNetMask_def mask_text_def)
  next
    case (some fa fb fc fd)
    then show ?thesis
      using netmask_codes [of fa fb fc fd] mask_bytes_prefix [of "dec_val fa" "dec_val fb" "dec_val fc" "dec_val fd"]
      by (simp add: validateNetMask_def mask_text_def)
  qed
  then show "validateNetMask s = 0 \<longleftrightarrow> mask_text s" by simp
qed

interpretation ip_range: validator validateIpRange subnet_text
proof
  fix s
  show "validateIpRange s = 0 \<longleftrightarrow> subnet_text s"
  proof (cases "CHR ''/'' \<in> set s \<and> hd s \<noteq> CHR ''/''")
    case True
    then have "\<not> host_text s" using host_text_no by blast
    have "validateIpRange s = 0 \<longleftrightarrow>
        (\<exists>a m. split_on CHR ''/'' s = [a, m] \<and> host_text a \<and> (mask_text m \<or> number_in 1 31 m))"
      using True
      by (auto simp: validateIpRange_def ip.code_iff mask.code_iff numeric_range.code_iff Let_def split: list.splits)
    also have "\<dots> \<longleftrightarrow> (\<exists>a m. s = a @ CHR ''/'' # m \<and> host_text a \<and> (mask_text m \<or> number_in 1 31 m))"
    proof -
      have "CHR ''/'' \<notin> set a \<and> CHR ''/'' \<notin> set m" if "host_text a" "mask_text m \<or> number_in 1 31 m" for a m
        using that host_text_no(1) mask_no_slash number_no_slash(1) by (auto simp: number_in_def)
      then show ?thesis by (auto simp: split_on_eq_iff)
    qed
    finally show ?thesis using \<open>\<not> host_text s\<close> by (simp add: subnet_text_def)
  next
    case False
    then have "\<not> (\<exists>a m. s = a @ CHR ''/'' # m \<and> host_text a \<and> (mask_text m \<or> number_in 1 31 m))"
      using host_text_no by (auto simp: hd_append) (metis hd_in_set)+
    with False show ?thesis by (auto simp: validateIpRange_def ip.code_iff subnet_text_def)
  qed
qed

interpretation mac: validator validateMac mac_text
proof
  have "mac_fields_code fs = 0 \<longleftrightarrow> (\<forall>f \<in> set fs. length f = 2 \<and> list_all hex_digit f)" for fs
    by (induction fs) (auto simp: rx_simps)
  then show "validateMac s = 0 \<longleftrightarrow> mac_text s" for s
    by (auto simp: validateMac_def mac_text_def Let_def)
qed

lemma ip_dash_code_iff: "ip_dash_code s = 0 \<longleftrightarrow> host_range_text s"
  by (auto simp: ip_dash_code_def host_range_text_def ip.code_iff split: list.splits)

interpretation address: validator multiple_ip_code address_text
  by unfold_locales (simp add: multiple_ip_code_def address_text_def ip_dash_code_iff ip_range.code_iff)

interpretation address_or_mac: validator multiple_ip_or_mac_code
  "\<lambda>s. if CHR ''-'' \<notin> set s \<and> CHR '':'' \<in> set s then mac_text s else address_text s"
  by unfold_locales
    (simp add: multiple_ip_or_mac_code_def address_text_def ip_dash_code_iff ip_range.code_iff mac.code_iff)

interpretation addresses: validator validateMultipleIps
  "\<lambda>s. \<forall>x \<in> set (split_sep_ws CHR '','' (rtrim (ltrim s))). address_text x"
  by unfold_locales (simp add: validateMultipleIps_def address.pieces_iff)

interpretation addresses_or_macs: validator validateMultipleIpsOrMacs
  "\<lambda>s. \<forall>x \<in> set (split_sep_ws CHR '','' (rtrim (ltrim s))).
         if CHR ''-'' \<notin> set x \<and> CHR '':'' \<in> set x then mac_text x else address_text x"
  by unfold_locales (simp add: validateMultipleIpsOrMacs_def address_or_mac.pieces_iff)

interpretation port_range: validator validatePortOrPortRange port_range_text
proof
  fix s
  show "validatePortOrPortRange s = 0 \<longleftrightarrow> port_range_text s"
  proof (cases "CHR ''-'' \<in> set s")
    case True
    then have n: "\<not> number_in 1 65535 s" using number_no_slash by (auto simp: number_in_def)
    have "length (split_on CHR ''-'' s) \<noteq> 1"
      using True by (auto simp: length_Suc_conv split_on_eq_iff)
    then obtain a b ws where sp: "split_on CHR ''-'' s = a # b # ws"
      by (metis One_nat_def length_0_conv length_Suc_conv neq_Nil_conv split_on_not_Nil)
    have "validatePortOrPortRange s = 0 \<longleftrightarrow> ws = [] \<and> number_in 1 65535 a \<and> number_in 1 65535 b \<and> dec_val a \<le> dec_val b"
      using True numeric_range.code_iff [of _ 1 65535] by (auto simp: validatePortOrPortRange_def sp Let_def)
    also have "\<dots> \<longleftrightarrow> port_range_text s"
    proof
      assume "ws = [] \<and> number_in 1 65535 a \<and> number_in 1 65535 b \<and> dec_val a \<le> dec_val b"
      then show "port_range_text s" using sp by (auto simp: port_range_text_def split_on_eq_iff)
    next
      assume "port_range_text s"
      then obtain a' b' where "s = a' @ CHR ''-'' # b'" "number_in 1 65535 a'" "number_in 1 65535 b'" "dec_val a' \<le> dec_val b'"
        using n by (auto simp: port_range_text_def)
      moreover from this have "split_on CHR ''-'' s = [a', b']"
        using number_no_slash(2) by (auto simp: split_on_eq_iff number_in_def)
      ultimately show "ws = [] \<and> number_in 1 65535 a \<and> number_in 1 65535 b \<and> dec_val a \<le> dec_val b"
        using sp by simp
    qed
    finally show ?thesis .
  next
    case False
    then show ?thesis
      using numeric_range.code_iff by (auto simp: validatePortOrPortRange_def port_range_text_def)
  qed
qed

section \<open>Times of day and of the week\<close>

definition hour_text :: "string \<Rightarrow> bool" where
  "hour_text h \<longleftrightarrow> number_text h \<and> length h \<le> 2 \<and> dec_val h < 24"

definition minute_text :: "string \<Rightarrow> bool" where
  "minute_text m \<longleftrightarrow> number_text m \<and> length m = 2 \<and> dec_val m < 60"

definition time_text :: "string \<Rightarrow> bool" where
  "time_text t \<longleftrightarrow> (\<exists>u h m v. t = u @ h @ m @ v \<and> list_all is_ws u \<and> list_all is_ws v \<and> hour_text h
     \<and> (m = [] \<or> (\<exists>k. m = CHR '':'' # k \<and> minute_text k)))"

definition range_of :: "(string \<Rightarrow> bool) \<Rightarrow> string \<Rightarrow> bool" where
  "range_of P p \<longleftrightarrow> (\<exists>a b. split_on CHR ''-'' p = [a, b] \<and> P a \<and> P b)"

definition digit_chars :: string where
  "digit_chars = ''0123456789''"

lemma digit_chars_iff: "c \<in> set digit_chars \<longleftrightarrow> is_digit c"
proof
  assume "is_digit c"
  then have "(of_char c :: nat) \<in> set [48..<58]" by (simp only: set_upt atLeastLessThan_iff is_digit_def) simp
  then have "char_of (of_char c :: nat) \<in> char_of ` set [48..<(58::nat)]" by (rule imageI)
  also have "char_of ` set [48..<(58::nat)] = set digit_chars" by code_simp
  finally show "c \<in> set digit_chars" by (simp only: char_of_char)
qed (auto simp: is_digit_def digit_chars_def)

lemma rclass_digits: "rclass ''0123456789'' = RCls is_digit"
  using digit_chars_iff by (simp only: rclass_def digit_chars_def)

lemma hour_rx_iff: "rx_match hour_rx h \<longleftrightarrow> hour_text h"
proof -
  have A: "\<forall>x \<in> set digit_chars. \<forall>y \<in> set digit_chars. rx_match hour_rx [x, y] \<longleftrightarrow> dec_val [x, y] < 24"
    and B: "\<forall>x \<in> set digit_chars. rx_match hour_rx [x] \<and> dec_val [x] < 24" by code_simp+
  have sub: "c \<in> set ''01'' \<Longrightarrow> is_digit c" "c \<in> set ''0123'' \<Longrightarrow> is_digit c" "c = CHR ''2'' \<Longrightarrow> is_digit c" for c
    by (auto simp: is_digit_def)
  have "rx_match hour_rx h \<longleftrightarrow> (\<exists>y. h = [y] \<and> is_digit y) \<or> (\<exists>x y. h = [x, y] \<and> x \<in> set ''01'' \<and> is_digit y)
      \<or> (\<exists>x y. h = [x, y] \<and> x = CHR ''2'' \<and> y \<in> set ''0123'')"
    unfolding hour_rx_def RChr_def rclass_digits
    by (simp only: rclass_def rx_match_Alt rx_match_two_Cls disj_assoc)
  with sub have "rx_match hour_rx h \<Longrightarrow> (\<exists>x. h = [x] \<and> is_digit x) \<or> (\<exists>x y. h = [x, y] \<and> is_digit x \<and> is_digit y)"
    by metis
  moreover have "hour_text h \<Longrightarrow> (\<exists>x. h = [x] \<and> is_digit x) \<or> (\<exists>x y. h = [x, y] \<and> is_digit x \<and> is_digit y)"
    by (cases h rule: remdups_adj.cases) (auto simp: hour_text_def number_text_def)
  moreover have "rx_match hour_rx [x, y] \<longleftrightarrow> hour_text [x, y]" if "is_digit x" "is_digit y" for x y
    using A that by (simp only: digit_chars_iff [symmetric]) (simp add: hour_text_def number_text_def digit_chars_iff)
  moreover have "rx_match hour_rx [x] \<longleftrightarrow> hour_text [x]" if "is_digit x" for x
    using B that by (simp only: digit_chars_iff [symmetric]) (simp add: hour_text_def number_text_def digit_chars_iff)
  ultimately show ?thesis by blast
qed

lemma minute_rx_iff:
  "rx_match (RSeqs [rclass ''012345'', rclass ''0123456789'']) m \<longleftrightarrow> minute_text m"
proof -
  let ?r = "RSeqs [rclass ''012345'', rclass ''0123456789'']"
  have A: "\<forall>x \<in> set digit_chars. \<forall>y \<in> set digit_chars. rx_match ?r [x, y] \<longleftrightarrow> dec_val [x, y] < 60" by code_simp
  have sub: "c \<in> set ''012345'' \<Longrightarrow> is_digit c" for c
    by (auto simp: is_digit_def)
  have "rx_match ?r m \<longleftrightarrow> (\<exists>x y. m = [x, y] \<and> x \<in> set ''012345'' \<and> is_digit y)"
    unfolding rclass_digits by (simp only: rclass_def RSeqs.simps rx_match_Seq_Cls rx_match_Eps) blast
  with sub have "rx_match ?r m \<Longrightarrow> \<exists>x y. m = [x, y] \<and> is_digit x \<and> is_digit y" by metis
  moreover have "minute_text m \<Longrightarrow> \<exists>x y. m = [x, y] \<and> is_digit x \<and> is_digit y"
    by (cases m rule: remdups_adj.cases) (auto simp: minute_text_def number_text_def)
  moreover have "rx_match ?r [x, y] \<longleftrightarrow> minute_text [x, y]" if "is_digit x" "is_digit y" for x y
    using A that by (simp only: digit_chars_iff [symmetric]) (simp add: minute_text_def number_text_def digit_chars_iff)
  ultimately show ?thesis by blast
qed

lemma hours_rx_iff: "rx_match hours_rx t \<longleftrightarrow> time_text t"
proof -
  have "rx_match (ROpt (RSeqs [RChr CHR '':'', rclass ''012345'', rclass ''0123456789''])) m \<longleftrightarrow>
      m = [] \<or> (\<exists>k. m = CHR '':'' # k \<and> minute_text k)" for m
    using minute_rx_iff by (simp add: rx_match_Opt rx_match_Seq_Chr)
  then show ?thesis
    unfolding hours_rx_def RSeqs.simps(1) RSeqs.simps(2) [of _ "_ # _"]
    by (simp add: rx_match_Seq hour_rx_iff rx_match_Star_Cls rx_match_Eps time_text_def) metis
qed

interpretation hours: validator validateHours "\<lambda>s. list_all (range_of time_text) (split_on CHR '','' s)"
proof
  have "(let splitStr = split_on CHR ''-'' p in length splitStr = 2 \<and> rx_match hours_rx (splitStr ! 0) \<and> rx_match hours_rx (splitStr ! 1))
      \<longleftrightarrow> range_of time_text p" for p
    by (auto simp: Let_def range_of_def hours_rx_iff length_Suc_conv numeral_2_eq_2)
  then show "validateHours s = 0 \<longleftrightarrow> list_all (range_of time_text) (split_on CHR '','' s)" for s
    by (simp add: validateHours_def Let_def)
qed

definition decimal_text :: "string \<Rightarrow> bool" where
  "decimal_text s \<longleftrightarrow> (\<exists>a b. (s = a @ b \<or> s = a @ CHR ''.'' # b) \<and> list_all is_digit a \<and> list_all is_digit b
     \<and> (a \<noteq> [] \<or> b \<noteq> []))"

interpretation decimal: validator validateDecimal decimal_text
proof
  fix s
  have "rx_match (RSeqs [RStar rdigit, ROpt (RChr CHR ''.''), RPlus rdigit]) s \<longleftrightarrow>
      (\<exists>a b. (s = a @ b \<or> s = a @ CHR ''.'' # b) \<and> list_all is_digit a \<and> list_all is_digit b \<and> b \<noteq> [])"
    and "rx_match (RSeqs [RPlus rdigit, ROpt (RChr CHR ''.''), RStar rdigit]) s \<longleftrightarrow>
      (\<exists>a b. (s = a @ b \<or> s = a @ CHR ''.'' # b) \<and> list_all is_digit a \<and> list_all is_digit b \<and> a \<noteq> [])"
    by (auto simp: rx_match_Seq [of "RStar rdigit"] rx_match_Seq [of "RPlus rdigit"] rx_simps)
  moreover have "(\<exists>a b. P a b \<and> b \<noteq> []) \<or> (\<exists>a b. P a b \<and> a \<noteq> []) \<longleftrightarrow> (\<exists>a b. P a b \<and> (a \<noteq> [] \<or> b \<noteq> []))"
    for P :: "string \<Rightarrow> string \<Rightarrow> bool" by blast
  note this [of "\<lambda>a b. (s = a @ b \<or> s = a @ CHR ''.'' # b) \<and> list_all is_digit a \<and> list_all is_digit b"]
  ultimately show "validateDecimal s = 0 \<longleftrightarrow> decimal_text s"
    unfolding validateDecimal_def decimal_text_def by (simp only: conj_assoc split: if_split) simp
qed

section \<open>Properties of the list validators\<close>

text \<open>
  \<open>validateMultipleIps\<close> accepts exactly the comma separated lists of addresses: each piece, the
  white space around commas apart, is a host, a host with a netmask or a prefix length from 1 to 31,
  or a range of two hosts in order of their address integers.
\<close>

theorem validateMultipleIps_iff:
  "validateMultipleIps s = 0 \<longleftrightarrow> list_all address_text (split_sep_ws CHR '','' (rtrim (ltrim s)))"
  by (simp only: addresses.code_iff list_all_iff)

lemma dash_pieces:
  assumes "host_text a" "host_text b"
  shows "split_sep_ws CHR ''-'' (a @ CHR ''-'' # b) = [a, b]"
    and "split_sep_ws CHR '','' (rtrim (ltrim (a @ CHR ''-'' # b))) = [a @ CHR ''-'' # b]"
proof -
  have free: "\<not> is_ws x" "x \<noteq> CHR ''-''" "x \<noteq> CHR '',''" if "x \<in> set a \<union> set b" for x
    using that assms octets_chars [of a _ x] octets_chars [of b _ x]
    by (auto simp: host_text_def is_ws_def is_digit_def)
  then have "rtrim a = a" "ltrim b = b" by (auto intro!: rtrim_id ltrim_id)
  moreover have "split_on CHR ''-'' (a @ CHR ''-'' # b) = [a, b]"
    using free by (auto simp: split_on_eq_iff)
  ultimately show "split_sep_ws CHR ''-'' (a @ CHR ''-'' # b) = [a, b]" by (simp add: split_sep_ws_def)
  have "\<forall>x \<in> set (a @ CHR ''-'' # b). \<not> is_ws x" using free by (auto simp: is_ws_def)
  then have "rtrim (ltrim (a @ CHR ''-'' # b)) = a @ CHR ''-'' # b" by (simp only: ltrim_id rtrim_id)
  moreover have "CHR '','' \<notin> set (a @ CHR ''-'' # b)" using free by auto
  ultimately show "split_sep_ws CHR '','' (rtrim (ltrim (a @ CHR ''-'' # b))) = [a @ CHR ''-'' # b]"
    by (metis split_sep_ws_free)
qed

text \<open>
  C32. A range of two hosts: when both are below 128.0.0.0 or both are not, it is accepted exactly
  when the addresses are in order. When they are in different halves the test is the wrong way
  round, because the integers compared are signed: a range that crosses 128.0.0.0 upwards is refused,
  and one that runs downwards across it is accepted.
\<close>

theorem validateMultipleIps_range:
  assumes "validateIP a = 0" "validateIP b = 0"
  shows "\<exists>m n. parseIp a = Some m \<and> parseIp b = Some n
    \<and> (validateMultipleIps (a @ CHR ''-'' # b) = 0 \<longleftrightarrow>
         (if m < 2 ^ 31 \<longleftrightarrow> n < 2 ^ 31 then m \<le> n else n < m))"
proof -
  have hosts: "host_text a" "host_text b" using assms by (simp_all add: ip.code_iff)
  then obtain a1 a2 a3 a4 b1 b2 b3 b4 where
      a: "octets a = Some (a1, a2, a3, a4)" "a1 < 256" "a2 < 256" "a3 < 256" "a4 < 255" and
      b: "octets b = Some (b1, b2, b3, b4)" "b1 < 256" "b2 < 256" "b3 < 256" "b4 < 255"
    by (auto simp: host_text_def)
  let ?m = "quad_num a1 a2 a3 a4" and ?n = "quad_num b1 b2 b3 b4"
  have half: "?m < 2 ^ 31 \<longleftrightarrow> a1 < 128" "?n < 2 ^ 31 \<longleftrightarrow> b1 < 128"
    using quad_num_half [of a2 a3 a4 a1] quad_num_half [of b2 b3 b4 b1] a b by simp_all
  have bounds: "?m < 2 ^ 32" "?n < 2 ^ 32" using a b by (simp_all add: quad_num_def)
  have "validateMultipleIps (a @ CHR ''-'' # b) = 0 \<longleftrightarrow> addr_int (a1, a2, a3, a4) \<le> addr_int (b1, b2, b3, b4)"
    using hosts getIpInteger_octets [OF a(1-4)] getIpInteger_octets [OF b(1-4)]
    by (simp add: addresses.code_iff dash_pieces address_text_def host_range_text_def num_le_def)
  also have "\<dots> \<longleftrightarrow> (if ?m < 2 ^ 31 \<longleftrightarrow> ?n < 2 ^ 31 then ?m \<le> ?n else ?n < ?m)"
    using half bounds by (auto simp: addr_int_def)
  finally show ?thesis using parseIp_octets [OF a(1)] parseIp_octets [OF b(1)] by auto
qed

theorem validateMultipleIps_range_witness:
  "validateMultipleIps (''100.0.0.1'' @ CHR ''-'' # ''200.0.0.1'') \<noteq> 0
   \<and> validateMultipleIps (''10.0.0.1'' @ CHR ''-'' # ''10.0.0.9'') = 0"
proof
  have v: "validateIP ''100.0.0.1'' = 0" "validateIP ''200.0.0.1'' = 0" "validateIP ''10.0.0.1'' = 0"
    "validateIP ''10.0.0.9'' = 0" by code_simp+
  have "''100.0.0.1'' = quad 100 0 0 1" "''200.0.0.1'' = quad 200 0 0 1"
    "''10.0.0.1'' = quad 10 0 0 1" "''10.0.0.9'' = quad 10 0 0 9" by code_simp+
  then have p: "parseIp ''100.0.0.1'' = Some 1677721601" "parseIp ''200.0.0.1'' = Some 3355443201"
    "parseIp ''10.0.0.1'' = Some 167772161" "parseIp ''10.0.0.9'' = Some 167772169"
    by (simp_all add: quad_num_def)
  show "validateMultipleIps (''100.0.0.1'' @ CHR ''-'' # ''200.0.0.1'') \<noteq> 0"
    using validateMultipleIps_range [OF v(1,2)] unfolding p by (elim exE conjE) simp
  show "validateMultipleIps (''10.0.0.1'' @ CHR ''-'' # ''10.0.0.9'') = 0"
    using validateMultipleIps_range [OF v(3,4)] unfolding p by (elim exE conjE) simp
qed

text \<open>
  \<open>validateHours\<close> accepts exactly the comma separated lists of ranges of two times of day, each
  an hour below 24, with or without two digits of minutes below 60.
\<close>

theorem validateHours_iff:
  "validateHours s = 0 \<longleftrightarrow> list_all (range_of time_text) (split_on CHR '','' s)"
  by (rule hours.code_iff)

text \<open>
  \<open>validatePortOrPortRange\<close> accepts exactly a port from 1 to 65535 or two of them in order with
  a dash between.
\<close>

theorem validatePortOrPortRange_iff:
  "validatePortOrPortRange s = 0 \<longleftrightarrow> port_range_text s"
  by (rule port_range.code_iff)

end
