(* ===== verification/Ip6_Address.thy ===== *)
theory Ip6_Address
  imports Validators
begin

text \<open>
  The IPv6 library of \<open>common.js\<close>: splitting off the mask, the full and the canonical spelling of an
  address, its bits, masking, the scope, and the validators. The theorems give the round trips
  between the spellings and the bits, what masking keeps, and which texts are accepted.
\<close>

section \<open>Spellings\<close>

record ip6_parts =
  ip6_address :: string
  ip6_bitmask :: string

definition ip6_splitmask :: "string \<Rightarrow> ip6_parts" where
  "ip6_splitmask address =
     (case split_on CHR ''/'' address of
        [a, b] \<Rightarrow> \<lparr>ip6_address = a, ip6_bitmask = b\<rparr>
      | tmp \<Rightarrow> \<lparr>ip6_address = hd tmp, ip6_bitmask = []\<rparr>)"

text \<open>\<open>s.substr(-n)\<close>.\<close>

definition last_n :: "nat \<Rightarrow> string \<Rightarrow> string" where
  "last_n n s = drop (length s - n) s"

text \<open>
  \<open>address.match(/(.*:)([0-9]+\.[0-9]+\.[0-9]+\.[0-9]+$)/)\<close>: the text up to the last colon, and the
  dotted rest.
\<close>

definition ip4_tail :: "string \<Rightarrow> (string \<times> string) option" where
  "ip4_tail s =
     (let post = rev (takeWhile (\<lambda>c. c \<noteq> CHR '':'') (rev s));
          pre = take (length s - length post) s
      in if pre \<noteq> [] \<and> rx_match (dotted (RPlus rdigit)) post then Some (pre, post) else None)"

definition hex_byte :: "string \<Rightarrow> string" where
  "hex_byte d = last_n 2 (CHR ''0'' # num_str 16 (dec_val d))"

definition embed_ip4 :: "string \<Rightarrow> string" where
  "embed_ip4 address =
     (case ip4_tail address of
        None \<Rightarrow> address
      | Some (pre, ipv4) \<Rightarrow>
          (case digit_runs ipv4 of
             a # b # c # d # _ \<Rightarrow> pre @ hex_byte a @ hex_byte b @ '':'' @ hex_byte c @ hex_byte d
           | _ \<Rightarrow> address))"

text \<open>\<open>address.replace(/^:|:$/g, '')\<close>.\<close>

definition strip_colons :: "string \<Rightarrow> string" where
  "strip_colons s =
     (let s1 = (if take 1 s = '':'' then drop 1 s else s)
      in if s1 \<noteq> [] \<and> last s1 = CHR '':'' then butlast s1 else s1)"

definition full_group :: "nat \<Rightarrow> string \<Rightarrow> string" where
  "full_group n hex = (if hex \<noteq> [] then last_n 4 (''0000'' @ hex) else join '':'' (replicate (9 - n) ''0000''))"

definition ip6_full :: "string \<Rightarrow> string" where
  "ip6_full address =
     (let tmpAddr = ip6_splitmask address;
          ipv6 = split_on CHR '':'' (strip_colons (embed_ip4 (ip6_address tmpAddr)));
          full = join '':'' (map (full_group (length ipv6)) ipv6)
      in if ip6_bitmask tmpAddr = [] then full else full @ ''/'' @ ip6_bitmask tmpAddr)"

text \<open>
  \<open>replace(/^0+([1-9a-f]{1,3})/i, '$1')\<close>, then \<open>replace(/^0+/, '0')\<close>.
\<close>

definition is_nonzero_hex :: "char \<Rightarrow> bool" where
  "is_nonzero_hex c \<longleftrightarrow> hex_digit c \<and> c \<noteq> CHR ''0''"

definition suppress_zeros :: "string \<Rightarrow> string" where
  "suppress_zeros s =
     (let rest = dropWhile (\<lambda>c. c = CHR ''0'') s;
          s1 = (if rest \<noteq> [] \<and> is_nonzero_hex (hd rest) then rest else s)
      in if take 1 s1 = ''0'' then CHR ''0'' # dropWhile (\<lambda>c. c = CHR ''0'') s1 else s1)"

text \<open>One round of the loop that counts the zero fields: the counts, \<open>inZeroChain\<close> and \<open>firstZeroInChain\<close>.\<close>

definition zero_step :: "string list \<Rightarrow> nat list \<times> bool \<times> nat \<Rightarrow> nat \<Rightarrow> nat list \<times> bool \<times> nat" where
  "zero_step components = (\<lambda>(zeroCounts, inZeroChain, firstZeroInChain) componentIdx.
     if components ! componentIdx = ''0''
     then (if inZeroChain
           then (map (\<lambda>j. if firstZeroInChain \<le> j \<and> j \<le> componentIdx then zeroCounts ! j + 1 else zeroCounts ! j)
                   [0..<length zeroCounts], True, firstZeroInChain)
           else (zeroCounts[componentIdx := zeroCounts ! componentIdx + 1], True, componentIdx))
     else (zeroCounts, False, firstZeroInChain))"

definition zero_counts :: "string list \<Rightarrow> nat list" where
  "zero_counts components =
     fst (foldl (zero_step components) (replicate (length components) 0, False, 0) [0..<length components])"

definition compress_zeros :: "string list \<Rightarrow> string list" where
  "compress_zeros components =
     (let zeroCounts = zero_counts components;
          maxZeroCount = foldl max 0 zeroCounts;
          maxZeroCountIdxs = (if maxZeroCount > 1
             then filter (\<lambda>idx. zeroCounts ! idx = maxZeroCount) [0..<length zeroCounts] else [])
      in if maxZeroCountIdxs \<noteq> []
         then (let k = hd maxZeroCountIdxs;
                   spliced = take k components @ drop (k + (maxZeroCount - 1)) components
               in spliced[k := []])
         else components)"

definition outer_colons :: "string list \<Rightarrow> string list" where
  "outer_colons components =
     (if components = [[]] then [[], [], []]
      else if components \<noteq> [] \<and> hd components = [] then [] # components
      else if components \<noteq> [] \<and> last components = [] then components @ [[]]
      else components)"

definition ip6_canonical :: "string \<Rightarrow> string" where
  "ip6_canonical address =
     (let tmpAddr = ip6_splitmask (ip6_full address);
          components = map suppress_zeros (split_on CHR '':'' (ip6_address tmpAddr));
          short = join '':'' (outer_colons (compress_zeros components))
      in if ip6_bitmask tmpAddr = [] then short else short @ ''/'' @ ip6_bitmask tmpAddr)"

section \<open>Bits\<close>

text \<open>\<open>parseInt(s, b)\<close> for the digits of an address field, and \<open>n.toString(b)\<close> with \<open>NaN\<close> printed as such.\<close>

definition parseInt_base :: "nat \<Rightarrow> string \<Rightarrow> nat option" where
  "parseInt_base b s = parseInt_radix b (dropWhile is_js_space s)"

definition num_text :: "nat \<Rightarrow> nat option \<Rightarrow> string" where
  "num_text b x = (case x of None \<Rightarrow> ''NaN'' | Some n \<Rightarrow> num_str b n)"

definition ip6addr2bin :: "string \<Rightarrow> string" where
  "ip6addr2bin addr =
     concat (map (\<lambda>section. padStart 16 CHR ''0'' (num_text 2 (parseInt_base 16 section)))
       (split_on CHR '':'' (ip6_full addr)))"

definition ip6bin2addr :: "string \<Rightarrow> string" where
  "ip6bin2addr bin =
     join '':'' (map (\<lambda>x. padStart 4 CHR ''0'' (num_text 16 (parseInt_base 2 (take 16 (drop (x * 16) bin))))) [0..<8])"

text \<open>
  A mask is a number, or the text after the slash. The text is converted with \<open>Number\<close>: an optional
  sign and decimal digits, 0 when blank; any other text is \<open>NaN\<close> here (numerals with a point, an
  exponent or a radix prefix do not occur as masks and are not distinguished).
\<close>

datatype mask_arg = MNum int | MStr string

definition js_integer :: "string \<Rightarrow> int option" where
  "js_integer s =
     (let t = rev (dropWhile is_js_space (rev (dropWhile is_js_space s)))
      in case t of
           [] \<Rightarrow> Some 0
         | c # cs \<Rightarrow>
             if c = CHR ''-'' \<and> cs \<noteq> [] \<and> list_all is_digit cs then Some (- int (dec_val cs))
             else if c = CHR ''+'' \<and> cs \<noteq> [] \<and> list_all is_digit cs then Some (int (dec_val cs))
             else if list_all is_digit t then Some (int (dec_val t))
             else None)"

definition mask_number :: "mask_arg \<Rightarrow> int option" where
  "mask_number mk = (case mk of MNum i \<Rightarrow> Some i | MStr s \<Rightarrow> js_integer s)"

text \<open>\<open>'c'.repeat(n)\<close>: a negative count is a \<open>RangeError\<close>, \<open>NaN\<close> is 0.\<close>

definition js_repeat :: "char \<Rightarrow> int option \<Rightarrow> string js_result" where
  "js_repeat c n = (case n of None \<Rightarrow> Inr [] | Some i \<Rightarrow> if i < 0 then Inl RangeError else Inr (replicate (nat i) c))"

text \<open>\<open>s.substr(0, n)\<close>.\<close>

definition js_take :: "int option \<Rightarrow> string \<Rightarrow> string" where
  "js_take n s = (case n of None \<Rightarrow> [] | Some i \<Rightarrow> take (nat i) s)"

text \<open>
  A negative mask keeps the low bits. \<open>128+mask\<close> is a sum for a number; for a text it is the
  concatenation, \<open>NaN\<close>, so nothing is repeated and the bits are taken from 0.
\<close>

definition ip6_mask :: "string \<Rightarrow> mask_arg \<Rightarrow> string js_result" where
  "ip6_mask address mk =
     (let binaddr = ip6addr2bin address
      in res_bind
           (case mask_number mk of
              Some i \<Rightarrow>
                if i < 0
                then (case mk of
                        MNum _ \<Rightarrow> res_bind (js_repeat CHR ''0'' (Some (128 + i))) (\<lambda>zeros.
                                    Inr (zeros @ drop (nat (128 + i)) binaddr))
                      | MStr _ \<Rightarrow> Inr binaddr)
                else res_bind (js_repeat CHR ''0'' (Some (128 - i))) (\<lambda>zeros. Inr (js_take (Some i) binaddr @ zeros))
            | None \<Rightarrow> Inr (js_take None binaddr))
           (\<lambda>newAddr. Inr (ip6_canonical (ip6bin2addr newAddr))))"

text \<open>The last prefix that matches wins.\<close>

definition scope_table :: "(int \<times> string \<times> string \<times> string) list" where
  "scope_table =
     [(3, ''2000::'', ''Global'', ''Global Unicast Address''),
      (32, ''2001::'', ''Global'', ''Teredo Tunnel''),
      (96, ''64:ff9b::'', ''Global'', ''IPv4/IPv6 Translation''),
      (8, ''ff00::'', ''Global'', ''Global Multicast Address''),
      (7, ''fc00::'', ''Global'', ''Unique Local Address''),
      (10, ''fe80::'', ''Link'', ''Link-local Address'')]"

definition ip6_scope :: "string \<Rightarrow> (string \<times> string) option" where
  "ip6_scope address =
     foldl (\<lambda>retVal (n, net, scope, txt).
        if ip6_mask address (MNum n) = Inr net then Some (scope, txt) else retVal) None scope_table"

section \<open>Validators\<close>

definition any_char :: rx where
  "any_char = RCls (\<lambda>c. \<not> is_newline c)"

definition any_text :: rx where
  "any_text = RStar (RCls (\<lambda>_. True))"

definition validateIP6 :: "string \<Rightarrow> nat" where
  "validateIP6 address =
     (let components = split_on CHR '':'' address;
          e1 = (if rx_match (RSeqs [any_text, RLit '':::'', any_text]) address
                   \<or> rx_match (RSeqs [any_text, RLit ''::'', RPlus any_char, RLit ''::'', any_text]) address
                   \<or> rx_match (RSeqs [any_text, RCls (\<lambda>c. c \<noteq> CHR '':''), RChr CHR '':'']) address
                   \<or> (take 1 address = '':'' \<and> take 2 address \<noteq> ''::'')
                then 1 else 0);
          e2 = (if length components < 2 \<or> length components > 8 then 1 else e1);
          e3 = (if length components < 8 \<and> \<not> rx_match (RSeqs [any_text, RLit ''::'', any_text]) address then 1 else e2)
      in foldl (\<lambda>e component. if \<not> rx_match (RRange 0 4 (RCls hex_digit)) component then 1 else e) e3 components)"

definition mask_outside :: "int \<Rightarrow> int \<Rightarrow> string \<Rightarrow> bool" where
  "mask_outside lo hi s = (case js_integer s of None \<Rightarrow> False | Some i \<Rightarrow> i < lo \<or> i > hi)"

definition validateIP6Range :: "string \<Rightarrow> nat" where
  "validateIP6Range rng =
     (if CHR ''/'' \<in> set rng \<and> hd rng \<noteq> CHR ''/''
      then (case split_on CHR ''/'' rng of
              [addr, msk] \<Rightarrow> if validateIP6 addr = 0 \<and> \<not> mask_outside (-128) 128 msk then 0 else 1
            | _ \<Rightarrow> 1)
      else validateIP6 rng)"

definition validateIP6ForceRange :: "string \<Rightarrow> nat" where
  "validateIP6ForceRange rng =
     (if CHR ''/'' \<in> set rng \<and> hd rng \<noteq> CHR ''/''
      then (case split_on CHR ''/'' rng of
              [addr, msk] \<Rightarrow> if validateIP6 addr = 0 \<and> \<not> mask_outside 1 128 msk then 0 else 1
            | _ \<Rightarrow> 1)
      else 1)"

definition getIPFamily :: "string \<Rightarrow> string option" where
  "getIPFamily address =
     (if validateIpRange address = 0 then Some ''IPv4''
      else if validateIP6Range address = 0 then Some ''IPv6'' else None)"

definition isIPv4 :: "string \<Rightarrow> bool" where
  "isIPv4 address \<longleftrightarrow> getIPFamily address = Some ''IPv4''"

definition isIPv6 :: "string \<Rightarrow> bool" where
  "isIPv6 address \<longleftrightarrow> getIPFamily address = Some ''IPv6''"

text \<open>\<open>x <= y\<close> on strings: by the codes of the characters.\<close>

fun str_le :: "string \<Rightarrow> string \<Rightarrow> bool" where
  "str_le [] t = True"
| "str_le (c # s) [] = False"
| "str_le (c # s) (d # t) = (if c = d then str_le s t else (of_char c :: nat) < of_char d)"

definition ip6_dash_code :: "string \<Rightarrow> nat" where
  "ip6_dash_code nextIp =
     (case split_sep_ws CHR ''-'' nextIp of
        [a, b] \<Rightarrow>
          (if validateIP6 a = 0 \<and> validateIP6 b = 0 then (if str_le (ip6_full a) (ip6_full b) then 0 else 1) else 1)
      | _ \<Rightarrow> 1)"

definition multiple_ip6_code :: "string \<Rightarrow> nat" where
  "multiple_ip6_code nextIp =
     (if CHR ''-'' \<in> set nextIp then ip6_dash_code nextIp else validateIP6Range nextIp)"

definition validateMultipleIp6s :: "string \<Rightarrow> nat" where
  "validateMultipleIp6s ips =
     first_code multiple_ip6_code (rev (split_sep_ws CHR '','' (rtrim (ltrim ips))))"

definition multiple_ip6_or_mac_code :: "string \<Rightarrow> nat" where
  "multiple_ip6_or_mac_code nextIp =
     (if CHR ''-'' \<in> set nextIp then ip6_dash_code nextIp
      else if getIPFamily nextIp = None then validateMac nextIp else validateIP6Range nextIp)"

definition validateMultipleIp6sOrMacs :: "string \<Rightarrow> nat" where
  "validateMultipleIp6sOrMacs ips =
     first_code multiple_ip6_or_mac_code (rev (split_sep_ws CHR '','' (rtrim (ltrim ips))))"

section \<open>Full spellings\<close>

definition hex4 :: "nat \<Rightarrow> string" where
  "hex4 g = padStart 4 CHR ''0'' (num_str 16 g)"

definition full_addr :: "nat list \<Rightarrow> string" where
  "full_addr gs = join '':'' (map hex4 gs)"

text \<open>The eight groups of 16 bits of an address.\<close>

definition groups_ok :: "nat list \<Rightarrow> bool" where
  "groups_ok gs \<longleftrightarrow> length gs = 8 \<and> (\<forall>g \<in> set gs. g < 2 ^ 16)"

lemma num_str_hd:
  assumes "2 \<le> b" "b \<le> 36" "0 < n"
  shows "hd (num_str b n) \<noteq> CHR ''0''"
  using assms
proof (induction b n rule: num_str.induct)
  case (1 b n)
  show ?case
  proof (cases "n < b")
    case True
    then have "num_str b n = [digit_char n]" by (simp add: num_str.simps [of b n])
    moreover have "digit_val (digit_char n) = Some n" using True 1 by simp
    ultimately show ?thesis using 1 by (auto simp: digit_val_def)
  next
    case False
    then have "0 < n div b" using 1 by (simp add: div_greater_zero_iff)
    with False 1 show ?thesis by (simp add: num_str.simps [of b n])
  qed
qed

lemma digit_char_0: "digit_char 0 = CHR ''0''"
  by code_simp

lemma num_str_0 [simp]: "num_str b 0 = ''0''"
  by (subst num_str.simps) (auto simp: digit_char_0)

lemma num_str_eq_0: "2 \<le> b \<Longrightarrow> b \<le> 36 \<Longrightarrow> num_str b n = ''0'' \<longleftrightarrow> n = 0"
  by (metis base_val_num_str num_str_0)

lemma hex_digit_iff: "hex_digit c \<longleftrightarrow> is_base_digit 16 c"
proof
  assume "is_base_digit 16 c"
  then have "(of_char c :: nat) \<in> set ([48..<58] @ [65..<71] @ [97..<103])"
    unfolding set_append set_upt Un_iff atLeastLessThan_iff
    by (auto simp: is_base_digit_def digit_val_def Let_def split: option.splits if_splits)
  then have "char_of (of_char c :: nat) \<in> char_of ` set ([48..<58] @ [65..<71] @ [97..<(103::nat)])" by (rule imageI)
  also have "char_of ` set ([48..<58] @ [65..<71] @ [97..<(103::nat)]) = set ''0123456789ABCDEFabcdef''" by code_simp
  finally show "hex_digit c" by (simp only: char_of_char hex_digit_def)
next
  have "\<forall>c \<in> set ''0123456789ABCDEFabcdef''. is_base_digit 16 c" by code_simp
  then show "hex_digit c \<Longrightarrow> is_base_digit 16 c" by (simp only: hex_digit_def)
qed

lemma hex_no_sep: "hex_digit c \<Longrightarrow> c \<noteq> CHR '':'' \<and> c \<noteq> CHR ''/'' \<and> c \<noteq> CHR ''.'' \<and> c \<noteq> CHR ''-''"
  by (auto simp: hex_digit_iff is_base_digit_def digit_val_def)

lemma hex_str_digits: "c \<in> set (num_str 16 g) \<Longrightarrow> hex_digit c"
  by (simp add: hex_digit_iff num_str_digits)

lemma hex4_digits: "c \<in> set (hex4 g) \<Longrightarrow> hex_digit c"
  by (auto simp: hex4_def padStart_def hex_str_digits) (simp add: hex_digit_def)

lemma hex_str_length: "g < 2 ^ 16 \<Longrightarrow> length (num_str 16 g) \<le> 4"
  using num_str_length [of 16 4 g] by simp

lemma hex4_length: "g < 2 ^ 16 \<Longrightarrow> length (hex4 g) = 4"
  using hex_str_length [of g] by (simp add: hex4_def padStart_def)

lemma hex4_not_Nil [simp]: "hex4 g \<noteq> []"
  by (simp add: hex4_def padStart_def)

lemma zeros4: "''0000'' = replicate 4 CHR ''0''"
  by (simp add: numeral_eq_Suc)

lemma last_n_zeros:
  assumes "length h \<le> 4"
  shows "last_n 4 (''0000'' @ h) = padStart 4 CHR ''0'' h"
  using assms unfolding zeros4 by (simp add: last_n_def padStart_def)

lemma full_group_hex:
  assumes "g < 2 ^ 16"
  shows "full_group n (num_str 16 g) = hex4 g" "full_group n (hex4 g) = hex4 g"
proof -
  show "full_group n (num_str 16 g) = hex4 g"
    using last_n_zeros [OF hex_str_length [OF assms]] by (simp add: full_group_def hex4_def)
  have "padStart 4 CHR ''0'' (hex4 g) = hex4 g"
    using hex4_length [OF assms] by (simp add: padStart_def)
  then show "full_group n (hex4 g) = hex4 g"
    using last_n_zeros [of "hex4 g"] hex4_length [OF assms] by (simp add: full_group_def)
qed

lemma suppress_hex4:
  assumes "g < 2 ^ 16"
  shows "suppress_zeros (hex4 g) = num_str 16 g"
proof (cases "g = 0")
  case True
  then show ?thesis by (simp add: hex4_def padStart_def suppress_zeros_def numeral_eq_Suc)
next
  case False
  let ?h = "num_str 16 g"
  have hd: "hd ?h \<noteq> CHR ''0''" using False num_str_hd [of 16 g] by simp
  then have "dropWhile (\<lambda>c. c = CHR ''0'') (hex4 g) = ?h"
    by (cases ?h) (auto simp: hex4_def padStart_def dropWhile_append)
  moreover have "is_nonzero_hex (hd ?h)" using hd hex_str_digits [of "hd ?h" g] by (simp add: is_nonzero_hex_def)
  moreover have "take 1 ?h \<noteq> ''0''" using hd by (cases ?h) auto
  ultimately show ?thesis by (simp add: suppress_zeros_def Let_def)
qed

section \<open>The longest run of zeros\<close>

definition run_at :: "string list \<Rightarrow> nat \<Rightarrow> nat" where
  "run_at cs i = length (takeWhile (\<lambda>c. c = ''0'') (drop i cs))"

lemma run_at_snoc:
  assumes "i \<le> length cs"
  shows "run_at (cs @ [c]) i =
    (if (\<forall>x \<in> set (drop i cs). x = ''0'') \<and> c = ''0'' then Suc (run_at cs i) else run_at cs i)"
proof (cases "\<forall>x \<in> set (drop i cs). x = ''0''")
  case True
  then have "takeWhile (\<lambda>c. c = ''0'') (drop i cs @ [c]) = drop i cs @ takeWhile (\<lambda>c. c = ''0'') [c]"
    by (intro takeWhile_append2) auto
  then have "run_at (cs @ [c]) i = length cs - i + (if c = ''0'' then 1 else 0)"
    using assms by (simp add: run_at_def)
  moreover from True have "takeWhile (\<lambda>c. c = ''0'') (drop i cs) = drop i cs" by (simp only: takeWhile_eq_all_conv)
  then have "run_at cs i = length cs - i" by (simp only: run_at_def length_drop)
  ultimately show ?thesis using True by simp
next
  case False
  then obtain x where x: "x \<in> set (drop i cs)" "x \<noteq> ''0''" by blast
  then have "takeWhile (\<lambda>c. c = ''0'') (drop i cs @ [c]) = takeWhile (\<lambda>c. c = ''0'') (drop i cs)"
    by (intro takeWhile_append1)
  with False assms show ?thesis by (auto simp: run_at_def)
qed

text \<open>The state of the counting loop after \<open>n\<close> rounds.\<close>

definition zero_inv :: "string list \<Rightarrow> nat \<Rightarrow> nat list \<times> bool \<times> nat \<Rightarrow> bool" where
  "zero_inv cs n = (\<lambda>(counts, chain, first).
     length counts = length cs
     \<and> (\<forall>i < length cs. counts ! i = (if i < n then run_at (take n cs) i else 0))
     \<and> (\<forall>i < n. (\<forall>x \<in> set (drop i (take n cs)). x = ''0'') \<longleftrightarrow> chain \<and> first \<le> i)
     \<and> (chain \<longrightarrow> first < n))"

lemma zero_step_inv:
  assumes "zero_inv cs n s" "n < length cs"
  shows "zero_inv cs (Suc n) (zero_step cs s n)"
proof -
  obtain counts chain first where s: "s = (counts, chain, first)" by (cases s)
  have tk: "take (Suc n) cs = take n cs @ [cs ! n]" using assms(2) by (simp add: take_Suc_conv_app_nth)
  have len: "length (take n cs) = n" "length counts = length cs" using assms s by (auto simp: zero_inv_def)
  have old: "counts ! i = (if i < n then run_at (take n cs) i else 0)" if "i < length cs" for i
    using assms(1) s that by (auto simp: zero_inv_def)
  have all: "(\<forall>x \<in> set (drop i (take n cs)). x = ''0'') \<longleftrightarrow> chain \<and> first \<le> i" if "i < n" for i
    using assms(1) s that by (auto simp: zero_inv_def)
  have first: "chain \<Longrightarrow> first < n" using assms(1) s by (simp add: zero_inv_def)
  have run: "run_at (take (Suc n) cs) i =
      (if i < n then (if chain \<and> first \<le> i \<and> cs ! n = ''0'' then Suc (counts ! i) else counts ! i)
       else if cs ! n = ''0'' then 1 else 0)" if "i \<le> n" for i
    using that all [of i] old [of i] assms(2) len(1)
    by (cases "i < n") (auto simp: tk run_at_snoc, simp_all add: run_at_def)
  have all': "(\<forall>x \<in> set (drop i (take (Suc n) cs)). x = ''0'') \<longleftrightarrow>
      cs ! n = ''0'' \<and> (i < n \<longrightarrow> chain \<and> first \<le> i)" if "i \<le> n" for i
    using that all [of i] len(1) by (cases "i < n") (auto simp: tk)
  show ?thesis
  proof (cases "cs ! n = ''0''")
    case zero: True
    show ?thesis
    proof (cases chain)
      case True
      have "(map (\<lambda>j. if first \<le> j \<and> j \<le> n then counts ! j + 1 else counts ! j) [0..<length counts]) ! i =
          (if i < Suc n then run_at (take (Suc n) cs) i else 0)" if "i < length cs" for i
        using that run [of i] old [of i] zero True first len(2) by (auto simp: less_Suc_eq_le)
      with True zero all' first len show ?thesis
        by (auto simp: s zero_step_def zero_inv_def less_Suc_eq_le)
    next
      case False
      have "counts[n := counts ! n + 1] ! i = (if i < Suc n then run_at (take (Suc n) cs) i else 0)"
        if "i < length cs" for i
        using that run [of i] old [of i] zero False len(2) by (auto simp: nth_list_update less_Suc_eq_le)
      with False zero all' len show ?thesis
        by (auto simp: s zero_step_def zero_inv_def less_Suc_eq_le)
    qed
  next
    case False
    have "counts ! i = (if i < Suc n then run_at (take (Suc n) cs) i else 0)" if "i < length cs" for i
      using that run [of i] old [of i] False by (auto simp: less_Suc_eq_le)
    with False all' len show ?thesis by (auto simp: s zero_step_def zero_inv_def less_Suc_eq_le)
  qed
qed

lemma zero_counts_runs: "zero_counts cs = map (run_at cs) [0..<length cs]"
proof -
  have "n \<le> length cs \<Longrightarrow>
      zero_inv cs n (foldl (zero_step cs) (replicate (length cs) 0, False, 0) [0..<n])" for n
  proof (induction n)
    case 0
    then show ?case by (simp add: zero_inv_def)
  next
    case (Suc n)
    then show ?case using zero_step_inv [of cs n] by simp
  qed
  from this [of "length cs"] show ?thesis
    by (auto simp: zero_counts_def zero_inv_def split: prod.splits intro!: nth_equalityI)
qed

lemma foldl_max_upper: "x \<in> set xs \<Longrightarrow> x \<le> foldl max a xs" for a :: nat
proof (induction xs arbitrary: a)
  case (Cons y xs)
  have "b \<le> foldl max b ys" for b :: nat and ys
    by (induction ys arbitrary: b) (auto intro: order_trans [OF max.cobounded1])
  then have "max a y \<le> foldl max (max a y) xs" .
  with Cons show ?case by auto
qed simp

lemma foldl_max_in: "foldl max a xs = a \<or> foldl max a xs \<in> set xs" for a :: nat
  by (induction xs arbitrary: a) (auto simp: max_def split: if_splits)

lemma run_at_zero:
  assumes "j < run_at cs i"
  shows "i + j < length cs \<and> cs ! (i + j) = ''0''"
proof -
  have "j < length (drop i cs)"
    using assms length_takeWhile_le [of "\<lambda>c. c = ''0''" "drop i cs"] by (simp add: run_at_def)
  moreover have "drop i cs ! j = ''0''"
    using assms nth_mem [of j "takeWhile (\<lambda>c. c = ''0'') (drop i cs)"]
    by (auto simp: run_at_def takeWhile_nth dest!: set_takeWhileD)
  ultimately show ?thesis by simp
qed

lemma compress_zeros_cases:
  obtains (same) "compress_zeros cs = cs" "\<forall>i < length cs. run_at cs i \<le> 1"
  | (cut) k m where "2 \<le> m" "k + m \<le> length cs" "run_at cs k = m" "\<forall>i < length cs. run_at cs i \<le> m"
      "\<forall>i < k. run_at cs i < m" "compress_zeros cs = take k cs @ [] # drop (k + m) cs"
proof -
  define m where "m = foldl max 0 (zero_counts cs)"
  have upper: "\<forall>i < length cs. run_at cs i \<le> m"
    unfolding m_def zero_counts_runs by (auto intro!: foldl_max_upper)
  show thesis
  proof (cases "1 < m")
    case False
    then have "compress_zeros cs = cs" by (simp add: compress_zeros_def m_def [symmetric])
    moreover have "\<forall>i < length cs. run_at cs i \<le> 1" using upper False by (meson le_trans not_le)
    ultimately show thesis by (rule same)
  next
    case True
    define idxs where "idxs = filter (\<lambda>idx. zero_counts cs ! idx = m) [0..<length (zero_counts cs)]"
    have idx: "i \<in> set idxs \<longleftrightarrow> i < length cs \<and> run_at cs i = m" for i
      by (auto simp: idxs_def zero_counts_runs)
    have "m \<in> set (zero_counts cs)" using True foldl_max_in [of 0 "zero_counts cs"] by (auto simp: m_def)
    then have ne: "idxs \<noteq> []" using idx by (force simp: zero_counts_runs)
    define k where "k = hd idxs"
    have "k \<in> set idxs" using ne by (simp add: k_def)
    then have k: "k < length cs" "run_at cs k = m" using idx by auto
    have "k + m \<le> length cs"
      using k True run_at_zero [of "m - 1" cs k] by auto
    have "sorted idxs" unfolding idxs_def by (rule sorted_wrt_filter) simp
    then have least: "k \<le> j" if "j \<in> set idxs" for j
      using that unfolding k_def by (cases idxs) auto
    have "\<forall>i < k. run_at cs i < m"
    proof (intro allI impI)
      fix i
      assume "i < k"
      then have "i < length cs" "i \<notin> set idxs" using least [of i] k by auto
      then have "run_at cs i \<le> m" "run_at cs i \<noteq> m" using upper idx by auto
      then show "run_at cs i < m" by simp
    qed
    moreover have "compress_zeros cs = take k cs @ [] # drop (k + m) cs"
    proof -
      have "compress_zeros cs = (take k cs @ drop (k + (m - 1)) cs)[k := []]"
        using True ne by (simp add: compress_zeros_def m_def [symmetric] idxs_def [symmetric] k_def Let_def)
      also have "drop (k + (m - 1)) cs = cs ! (k + (m - 1)) # drop (Suc (k + (m - 1))) cs"
        using \<open>k + m \<le> length cs\<close> True by (intro Cons_nth_drop_Suc [symmetric]) simp
      also have "(take k cs @ cs ! (k + (m - 1)) # drop (Suc (k + (m - 1))) cs)[k := []] =
          take k cs @ [] # drop (Suc (k + (m - 1))) cs"
        using k by (simp add: list_update_append)
      finally show ?thesis using True by simp
    qed
    ultimately show thesis using cut [of m k] True \<open>k + m \<le> length cs\<close> k upper by simp
  qed
qed

section \<open>From the canonical spelling back\<close>

lemma split_join_colon:
  "xs \<noteq> [] \<Longrightarrow> \<forall>x \<in> set xs. CHR '':'' \<notin> set x \<Longrightarrow> split_on CHR '':'' (join '':'' xs) = xs"
  using split_on_join [of xs "CHR '':''"] by simp

lemma join_last: "xs \<noteq> [] \<Longrightarrow> last xs \<noteq> [] \<Longrightarrow> join sep xs \<noteq> [] \<and> last (join sep xs) = last (last xs)"
  by (induction sep xs rule: join.induct) auto

lemma join_hd: "xs \<noteq> [] \<Longrightarrow> hd xs \<noteq> [] \<Longrightarrow> hd (join sep xs) = hd (hd xs)"
  by (cases xs) (auto simp: join_Cons)

text \<open>
  The groups the splitting of \<open>ip6_full\<close> sees in a compressed spelling: non-empty groups free of
  separators, with at most one empty group among them.
\<close>

definition plain_group :: "string \<Rightarrow> bool" where
  "plain_group h \<longleftrightarrow> h \<noteq> [] \<and> list_all hex_digit h"

lemma plain_group_free:
  "plain_group h \<Longrightarrow> h \<noteq> [] \<and> CHR '':'' \<notin> set h \<and> CHR ''/'' \<notin> set h \<and> CHR ''.'' \<notin> set h"
  using hex_no_sep by (auto simp: plain_group_def list_all_iff)

lemma join_plain_set:
  assumes "\<forall>x \<in> set xs. x = [] \<or> plain_group x" "c \<in> set (join '':'' xs)"
  shows "c = CHR '':'' \<or> hex_digit c"
proof -
  have "c = CHR '':'' \<or> (\<exists>x \<in> set xs. c \<in> set x)" using assms(2) set_join [of "'':''" xs] by auto
  then show ?thesis using assms(1) by (fastforce simp: plain_group_def list_all_iff)
qed

lemma embed_ip4_id: "CHR ''.'' \<notin> set s \<Longrightarrow> embed_ip4 s = s"
proof -
  assume "CHR ''.'' \<notin> set s"
  then have "CHR ''.'' \<notin> set (rev (takeWhile (\<lambda>c. c \<noteq> CHR '':'') (rev s)))"
    by (auto dest: set_takeWhileD)
  then have "\<not> rx_match (dotted (RPlus rdigit)) (rev (takeWhile (\<lambda>c. c \<noteq> CHR '':'') (rev s)))"
    by (subst dotted_iff) (auto simp: rx_simps digits_no_dot)
  then show ?thesis by (simp add: embed_ip4_def ip4_tail_def)
qed

lemma ip6_full_colons:
  assumes "\<forall>c \<in> set s. c = CHR '':'' \<or> hex_digit c"
  shows "ip6_splitmask s = \<lparr>ip6_address = s, ip6_bitmask = []\<rparr>"
    and "ip6_full s = (let ipv6 = split_on CHR '':'' (strip_colons s)
                       in join '':'' (map (full_group (length ipv6)) ipv6))"
proof -
  have free: "CHR ''/'' \<notin> set s" "CHR ''.'' \<notin> set s"
  proof -
    have "\<not> hex_digit CHR ''/''" "\<not> hex_digit CHR ''.''" using hex_no_sep by auto
    moreover have "x \<notin> set s" if "x \<noteq> CHR '':''" "\<not> hex_digit x" for x using assms that by blast
    ultimately show "CHR ''/'' \<notin> set s" "CHR ''.'' \<notin> set s" by simp_all
  qed
  then show parts: "ip6_splitmask s = \<lparr>ip6_address = s, ip6_bitmask = []\<rparr>" by (simp add: ip6_splitmask_def)
  show "ip6_full s = (let ipv6 = split_on CHR '':'' (strip_colons s)
                      in join '':'' (map (full_group (length ipv6)) ipv6))"
    using free by (simp add: ip6_full_def parts embed_ip4_id Let_def)
qed

lemma strip_colons_id:
  assumes "s \<noteq> []" "hd s \<noteq> CHR '':''" "last s \<noteq> CHR '':''"
  shows "strip_colons s = s" "strip_colons (CHR '':'' # s) = s" "strip_colons (s @ '':'') = s"
  using assms by (cases s; auto simp: strip_colons_def Let_def)+

lemma join_plain_ends:
  assumes "xs \<noteq> []" "\<forall>x \<in> set xs. plain_group x"
  shows "join '':'' xs \<noteq> []" "hd (join '':'' xs) \<noteq> CHR '':''" "last (join '':'' xs) \<noteq> CHR '':''"
proof -
  have "plain_group (hd xs)" "plain_group (last xs)" using assms by simp_all
  then have h: "hd xs \<noteq> []" "CHR '':'' \<notin> set (hd xs)" and l: "last xs \<noteq> []" "CHR '':'' \<notin> set (last xs)"
    using plain_group_free by blast+
  show "join '':'' xs \<noteq> []" "last (join '':'' xs) \<noteq> CHR '':''"
    using join_last [OF assms(1) l(1), of "'':''"] l by (auto dest: last_in_set)
  show "hd (join '':'' xs) \<noteq> CHR '':''"
    using join_hd [OF assms(1) h(1), of "'':''"] h by (auto dest: hd_in_set)
qed

lemma strip_colons_compressed:
  assumes "\<forall>x \<in> set (pre @ post). plain_group x"
  shows "split_on CHR '':'' (strip_colons (join '':'' (outer_colons (pre @ [] # post)))) = pre @ [] # post"
proof -
  have colon_free: "\<forall>x \<in> set (pre @ [] # post). CHR '':'' \<notin> set x" using assms plain_group_free by auto
  then have resplit: "split_on CHR '':'' (join '':'' (pre @ [] # post)) = pre @ [] # post"
    by (intro split_join_colon) auto
  have "strip_colons (join '':'' (outer_colons (pre @ [] # post))) = join '':'' (pre @ [] # post)"
  proof (cases "pre = []")
    case pre: True
    show ?thesis
    proof (cases "post = []")
      case True
      with pre show ?thesis by (simp add: outer_colons_def strip_colons_def)
    next
      case False
      then have "join '':'' (outer_colons ([] # post)) = CHR '':'' # CHR '':'' # join '':'' post"
        by (simp add: outer_colons_def join_Cons)
      moreover have "join '':'' post \<noteq> []" "last (join '':'' post) \<noteq> CHR '':''"
        using join_plain_ends [OF False] assms by auto
      ultimately show ?thesis using pre False by (simp add: strip_colons_def Let_def join_Cons)
    qed
  next
    case pre: False
    have hd: "hd pre \<noteq> []" using assms pre plain_group_free [of "hd pre"] by simp
    show ?thesis
    proof (cases "post = []")
      case True
      have "join '':'' (outer_colons (pre @ [[]])) = join '':'' pre @ ''::''"
        using pre hd by (simp add: outer_colons_def join_append)
      moreover have "join '':'' (pre @ [[]]) = join '':'' pre @ '':''" using pre by (simp add: join_append)
      moreover have "strip_colons (join '':'' pre @ ''::'') = join '':'' pre @ '':''"
        using join_plain_ends [OF pre] assms True
        by (cases "join '':'' pre") (auto simp: strip_colons_def Let_def butlast_append)
      ultimately show ?thesis using True by simp
    next
      case post: False
      have "last (pre @ [] # post) \<noteq> []" using assms post plain_group_free [of "last post"] by simp
      then have "outer_colons (pre @ [] # post) = pre @ [] # post"
        using pre hd post by (cases pre) (auto simp: outer_colons_def)
      moreover have "join '':'' (pre @ [] # post) = join '':'' pre @ ''::'' @ join '':'' post"
        using pre post by (simp add: join_append join_Cons)
      moreover have "strip_colons (join '':'' pre @ ''::'' @ join '':'' post) = join '':'' pre @ ''::'' @ join '':'' post"
        using join_plain_ends [OF pre] join_plain_ends [OF post] assms
        by (intro strip_colons_id(1)) auto
      ultimately show ?thesis by simp
    qed
  qed
  then show ?thesis by (simp only: resplit)
qed

lemma plain_hex: "plain_group (num_str 16 g)" "plain_group (hex4 g)"
  by (simp_all add: plain_group_def list_all_iff hex_str_digits hex4_digits)

lemma full_addr_colons: "c \<in> set (full_addr gs) \<Longrightarrow> c = CHR '':'' \<or> hex_digit c"
  unfolding full_addr_def by (rule join_plain_set [of "map hex4 gs"]) (auto simp: plain_hex)

lemma full_of_plain:
  assumes "xs \<noteq> []" "\<forall>x \<in> set xs. plain_group x"
  shows "ip6_full (join '':'' xs) = join '':'' (map (full_group (length xs)) xs)"
proof -
  have "strip_colons (join '':'' xs) = join '':'' xs"
    using join_plain_ends [OF assms] by (rule strip_colons_id(1))
  moreover have "split_on CHR '':'' (join '':'' xs) = xs"
    using assms plain_group_free by (intro split_join_colon) auto
  moreover have "\<forall>c \<in> set (join '':'' xs). c = CHR '':'' \<or> hex_digit c"
    using assms(2) join_plain_set [of xs] by blast
  ultimately show ?thesis by (simp add: ip6_full_colons(2))
qed

lemma ip6_full_full_addr:
  assumes "groups_ok gs" shows "ip6_full (full_addr gs) = full_addr gs"
proof -
  have "map hex4 gs \<noteq> []" using assms by (auto simp: groups_ok_def)
  moreover have "map (full_group n) (map hex4 gs) = map hex4 gs" for n
    using assms by (auto simp: groups_ok_def full_group_hex)
  moreover have "\<forall>x \<in> set (map hex4 gs). plain_group x" by (auto simp: plain_hex)
  ultimately show ?thesis
    unfolding full_addr_def by (metis full_of_plain)
qed

lemma ip6_canonical_full_addr:
  assumes "groups_ok gs"
  shows "ip6_canonical (full_addr gs) = join '':'' (outer_colons (compress_zeros (map (num_str 16) gs)))"
proof -
  have "map hex4 gs \<noteq> []" using assms by (auto simp: groups_ok_def)
  then have "split_on CHR '':'' (full_addr gs) = map hex4 gs"
    unfolding full_addr_def using plain_hex plain_group_free by (intro split_join_colon) auto
  moreover have "map suppress_zeros (map hex4 gs) = map (num_str 16) gs"
    using assms by (auto simp: groups_ok_def suppress_hex4)
  moreover have "ip6_splitmask (full_addr gs) = \<lparr>ip6_address = full_addr gs, ip6_bitmask = []\<rparr>"
    using full_addr_colons by (intro ip6_full_colons(1)) blast
  ultimately show ?thesis
    by (simp add: ip6_canonical_def ip6_full_full_addr [OF assms] del: map_map)
qed

lemma outer_colons_set: "set (outer_colons xs) \<subseteq> insert [] (set xs)"
  by (auto simp: outer_colons_def)

lemma ip6_full_canonical:
  assumes "groups_ok gs"
  shows "ip6_full (ip6_canonical (full_addr gs)) = full_addr gs"
proof -
  let ?cs = "map (num_str 16) gs"
  have plain: "\<forall>x \<in> set ?cs. plain_group x" by (auto simp: plain_hex)
  have len: "length ?cs = 8" and ne: "?cs \<noteq> []" and g: "\<forall>g \<in> set gs. g < 2 ^ 16"
    using assms by (auto simp: groups_ok_def)
  show ?thesis
  proof (cases ?cs rule: compress_zeros_cases)
    case same
    have "plain_group (hd ?cs)" "plain_group (last ?cs)"
      using plain hd_in_set [OF ne] last_in_set [OF ne] by (blast, blast)
    then have "hd ?cs \<noteq> []" "last ?cs \<noteq> []" by (simp_all only: plain_group_def) auto
    then have "outer_colons ?cs = ?cs" using len by (auto simp: outer_colons_def)
    moreover have "map (full_group n) ?cs = map hex4 gs" for n using g by (simp add: full_group_hex)
    ultimately show ?thesis
      unfolding ip6_canonical_full_addr [OF assms] same(1) by (simp only: full_of_plain [OF ne plain] full_addr_def)
  next
    case (cut k m)
    let ?pre = "take k ?cs" and ?post = "drop (k + m) ?cs"
    have pp: "\<forall>x \<in> set (?pre @ ?post). plain_group x"
      using plain set_take_subset [of k ?cs] set_drop_subset [of "k + m" ?cs] by (simp only: set_append) blast
    let ?s = "join '':'' (outer_colons (?pre @ [] # ?post))"
    have "\<forall>x \<in> set (outer_colons (?pre @ [] # ?post)). x = [] \<or> plain_group x"
      using pp outer_colons_set [of "?pre @ [] # ?post"] by auto
    then have "\<forall>c \<in> set ?s. c = CHR '':'' \<or> hex_digit c" using join_plain_set by blast
    moreover have n: "length (?pre @ [] # ?post) = 9 - m" using cut(1,2) len by simp
    ultimately have "ip6_full ?s = join '':'' (map (full_group (9 - m)) (?pre @ [] # ?post))"
      using strip_colons_compressed [OF pp] by (simp only: ip6_full_colons(2) Let_def)
    also have "\<dots> = join '':'' (map (full_group (9 - m)) ?pre @ join '':'' (replicate m ''0000'') # map (full_group (9 - m)) ?post)"
      using cut(2) len by (simp add: full_group_def)
    also have "\<dots> = join '':'' (map (full_group (9 - m)) ?pre @ replicate m ''0000'' @ map (full_group (9 - m)) ?post)"
      using cut(1) by (intro join_nested) simp
    also have "map (full_group (9 - m)) ?pre @ replicate m ''0000'' @ map (full_group (9 - m)) ?post = map hex4 gs"
    proof -
      have "map (full_group (9 - m)) ?cs = map hex4 gs" using g by (simp add: full_group_hex)
      moreover have "map (full_group (9 - m)) (take m (drop k ?cs)) = replicate m ''0000''"
      proof (rule nth_equalityI)
        show "length (map (full_group (9 - m)) (take m (drop k ?cs))) = length (replicate m ''0000'')"
          using cut(2) by simp
        fix i
        assume "i < length (map (full_group (9 - m)) (take m (drop k ?cs)))"
        then have i: "i < m" by simp
        then have "?cs ! (k + i) = ''0''" using run_at_zero [of i ?cs k] cut(3) by simp
        moreover have "full_group (9 - m) ''0'' = ''0000''" by (simp add: full_group_def last_n_def)
        ultimately show "map (full_group (9 - m)) (take m (drop k ?cs)) ! i = replicate m ''0000'' ! i"
          using i cut(2) by simp
      qed
      moreover have "?cs = ?pre @ take m (drop k ?cs) @ ?post"
        by (metis append_take_drop_id drop_drop add.commute)
      ultimately show ?thesis by (metis map_append)
    qed
    finally show ?thesis unfolding ip6_canonical_full_addr [OF assms] cut(6) by (simp only: full_addr_def)
  qed
qed

text \<open>
  C26. Canonical and full spelling: the canonical spelling of any IPv6 address, given by its eight
  groups, expands to the full spelling of that address, and the full spelling to itself.
\<close>

theorem ip6_full_canonical_roundtrip:
  assumes "groups_ok gs"
  shows "ip6_full (full_addr gs) = full_addr gs \<and> ip6_full (ip6_canonical (full_addr gs)) = full_addr gs"
  using assms ip6_full_full_addr ip6_full_canonical by blast

theorem ip6_full_canonical_roundtrip_witness:
  "ip6_full (ip6_canonical (full_addr [65152, 0, 0, 0, 0, 0, 0, 1])) = full_addr [65152, 0, 0, 0, 0, 0, 0, 1]"
  using ip6_full_canonical_roundtrip [of "[65152, 0, 0, 0, 0, 0, 0, 1]"] by (simp add: groups_ok_def)

section \<open>The bits of an address\<close>

definition bit_char :: "char \<Rightarrow> bool" where
  "bit_char c \<longleftrightarrow> c = CHR ''0'' \<or> c = CHR ''1''"

definition bit_text :: "nat \<Rightarrow> string \<Rightarrow> bool" where
  "bit_text n s \<longleftrightarrow> length s = n \<and> list_all bit_char s"

definition bin16 :: "nat \<Rightarrow> string" where
  "bin16 g = padStart 16 CHR ''0'' (num_str 2 g)"

definition groups_of :: "string \<Rightarrow> nat list" where
  "groups_of bs = map (\<lambda>x. base_val 2 (take 16 (drop (x * 16) bs))) [0..<8]"

lemma base_val_zeros [simp]: "base_val b (replicate n CHR ''0'' @ s) = base_val b s"
proof (induction n)
  case (Suc n)
  have "base_val b (CHR ''0'' # t) = base_val b t" for t
    using base_val_append [of b "''0''" t] by (simp add: digit_val_def)
  with Suc show ?case by simp
qed simp

lemma base_val_pad [simp]: "base_val b (padStart n CHR ''0'' s) = base_val b s"
  by (simp add: padStart_def)

lemma parseInt_base_digits:
  assumes "s \<noteq> []" "\<forall>c \<in> set s. is_base_digit b c"
  shows "parseInt_base b s = Some (base_val b s)"
proof -
  have "\<not> is_js_space (hd s)"
    using assms by (auto simp: is_base_digit_def is_js_space_def digit_val_def Let_def split: if_splits dest!: bspec [of _ _ "hd s"])
  then have "dropWhile is_js_space s = s" by (simp add: dropWhile_eq_self_iff)
  moreover have "takeWhile (is_base_digit b) s = s" using assms by (simp only: takeWhile_eq_all_conv)
  ultimately show ?thesis
    using assms(1) by (simp only: parseInt_base_def parseInt_radix_def Let_def if_False)
qed

lemma bit_val: "bit_char c \<Longrightarrow> the (digit_val c) = (if c = CHR ''1'' then 1 else 0)"
  by (auto simp: bit_char_def digit_val_def)

lemma base_val_inj:
  assumes "length s = length t" "list_all bit_char s" "list_all bit_char t" "base_val 2 s = base_val 2 t"
  shows "s = t"
  using assms
proof (induction s arbitrary: t rule: rev_induct)
  case Nil
  then show ?case by simp
next
  case (snoc x xs)
  then obtain ys y where t: "t = ys @ [y]" by (cases t rule: rev_cases) auto
  have xy: "bit_char x" "bit_char y" using snoc.prems t by simp_all
  define i j :: nat where "i = the (digit_val x)" and "j = the (digit_val y)"
  have ij: "i < 2" "j < 2" "i = j \<longrightarrow> x = y" using xy bit_val [of x] bit_val [of y] by (auto simp: i_def j_def bit_char_def)
  have "2 * base_val 2 xs + i = 2 * base_val 2 ys + j" using snoc.prems(4) t by (simp add: i_def j_def)
  then have vals: "base_val 2 xs = base_val 2 ys" using ij by linarith
  then have "i = j" using \<open>2 * base_val 2 xs + i = 2 * base_val 2 ys + j\<close> by simp
  have "xs = ys" using snoc.prems t vals by (intro snoc.IH) auto
  then show ?case using t ij \<open>i = j\<close> by simp
qed

lemma bin16_facts:
  assumes "g < 2 ^ 16"
  shows "bit_text 16 (bin16 g)" "base_val 2 (bin16 g) = g"
proof -
  have "length (num_str 2 g) \<le> 16" using num_str_length [of 2 16 g] assms by simp
  moreover have "bit_char c" if "c \<in> set (num_str 2 g)" for c
  proof -
    have "is_base_digit 2 c" using that by (intro num_str_digits) auto
    then have "(of_char c :: nat) = 48 \<or> (of_char c :: nat) = 49"
      by (auto simp: is_base_digit_def digit_val_def Let_def split: option.splits if_splits)
    then have "c = char_of (48 :: nat) \<or> c = char_of (49 :: nat)" by (metis char_of_char)
    moreover have "char_of (48 :: nat) = CHR ''0''" "char_of (49 :: nat) = CHR ''1''" by code_simp+
    ultimately show ?thesis by (simp add: bit_char_def)
  qed
  moreover have "bit_char CHR ''0''" by (simp add: bit_char_def)
  ultimately show "bit_text 16 (bin16 g)" by (auto simp: bit_text_def bin16_def padStart_def list_all_iff)
  show "base_val 2 (bin16 g) = g" by (simp add: bin16_def)
qed

lemma bits_base_digits: "bit_text n s \<Longrightarrow> \<forall>c \<in> set s. is_base_digit 2 c"
proof -
  have "bit_char c \<Longrightarrow> is_base_digit 2 c" for c by (auto simp: bit_char_def is_base_digit_def digit_val_def)
  then show "bit_text n s \<Longrightarrow> \<forall>c \<in> set s. is_base_digit 2 c" by (simp add: bit_text_def list_all_iff)
qed

lemma bit_text_piece:
  assumes "bit_text 128 bs" "x < 8"
  shows "bit_text 16 (take 16 (drop (x * 16) bs))"
proof -
  have "list_all bit_char (take 16 (drop (x * 16) bs))"
    using assms(1) by (auto simp: bit_text_def list_all_iff dest: in_set_takeD in_set_dropD)
  moreover have "length (take 16 (drop (x * 16) bs)) = 16" using assms by (simp add: bit_text_def)
  ultimately show ?thesis by (simp only: bit_text_def)
qed

lemma groups_of_ok: "bit_text 128 bs \<Longrightarrow> groups_ok (groups_of bs)"
proof -
  assume bs: "bit_text 128 bs"
  have "base_val 2 (take 16 (drop (x * 16) bs)) < 2 ^ 16" if "x < 8" for x
    using base_val_less [OF bits_base_digits [OF bit_text_piece [OF bs that]]] bit_text_piece [OF bs that]
    by (simp add: bit_text_def)
  then show ?thesis by (auto simp: groups_ok_def groups_of_def)
qed

lemma ip6bin2addr_bits:
  assumes "bit_text 128 bs"
  shows "ip6bin2addr bs = full_addr (groups_of bs)"
proof -
  have "padStart 4 CHR ''0'' (num_text 16 (parseInt_base 2 (take 16 (drop (x * 16) bs)))) =
      hex4 (base_val 2 (take 16 (drop (x * 16) bs)))" if "x < 8" for x
  proof -
    have p: "bit_text 16 (take 16 (drop (x * 16) bs))" using assms that by (rule bit_text_piece)
    then have "take 16 (drop (x * 16) bs) \<noteq> []" by (auto simp: bit_text_def)
    then have "parseInt_base 2 (take 16 (drop (x * 16) bs)) = Some (base_val 2 (take 16 (drop (x * 16) bs)))"
      using bits_base_digits [OF p] by (rule parseInt_base_digits)
    then show ?thesis by (simp only: num_text_def option.case hex4_def)
  qed
  then have "map (\<lambda>x. padStart 4 CHR ''0'' (num_text 16 (parseInt_base 2 (take 16 (drop (x * 16) bs))))) [0..<8] =
      map hex4 (groups_of bs)"
    unfolding groups_of_def map_map comp_def by (intro map_cong) auto
  then show ?thesis by (simp only: ip6bin2addr_def full_addr_def)
qed

lemma bin16_groups:
  assumes "bit_text 128 bs"
  shows "concat (map bin16 (groups_of bs)) = bs"
proof -
  have "bin16 (base_val 2 (take 16 (drop (x * 16) bs))) = take 16 (drop (x * 16) bs)" if "x < 8" for x
  proof -
    let ?p = "take 16 (drop (x * 16) bs)"
    have p: "bit_text 16 ?p" using assms that by (rule bit_text_piece)
    have "base_val 2 ?p < 2 ^ 16" using base_val_less [OF bits_base_digits [OF p]] p by (simp add: bit_text_def)
    with bin16_facts [OF this] p show ?thesis by (intro base_val_inj) (auto simp: bit_text_def)
  qed
  then have "map bin16 (groups_of bs) = map (\<lambda>x. take 16 (drop (x * 16) bs)) [0..<8]"
    unfolding groups_of_def map_map comp_def by (intro map_cong) auto
  also have "concat \<dots> = bs"
  proof -
    have "concat (map (\<lambda>x. take 16 (drop (x * 16) bs)) [0..<n]) = take (n * 16) bs" if "n \<le> 8" for n
      using that by (induction n) (auto simp: take_add [symmetric] add.commute)
    from this [of 8] show ?thesis using assms by (simp add: bit_text_def)
  qed
  finally show ?thesis .
qed

lemma addr2bin_of_full:
  assumes "groups_ok gs" "ip6_full a = full_addr gs"
  shows "ip6addr2bin a = concat (map bin16 gs)"
proof -
  have "map hex4 gs \<noteq> []" using assms by (auto simp: groups_ok_def)
  then have "split_on CHR '':'' (full_addr gs) = map hex4 gs"
    unfolding full_addr_def using plain_hex plain_group_free by (intro split_join_colon) auto
  moreover have "parseInt_base 16 (hex4 g) = Some g" for g
    using parseInt_base_digits [of "hex4 g" 16] by (simp add: hex4_digits flip: hex_digit_iff) (simp add: hex4_def)
  ultimately show ?thesis using assms(2) by (simp add: ip6addr2bin_def num_text_def bin16_def [abs_def] comp_def)
qed

lemma bit_text_concat: "\<forall>g \<in> set gs. g < 2 ^ 16 \<Longrightarrow> bit_text (16 * length gs) (concat (map bin16 gs))"
proof (induction gs)
  case (Cons g gs)
  then show ?case using bin16_facts(1) [of g] by (simp add: bit_text_def)
qed (simp add: bit_text_def)

lemma addr_bits:
  assumes "bit_text 128 bs"
  shows "ip6addr2bin (ip6bin2addr bs) = bs" "ip6addr2bin (ip6_canonical (ip6bin2addr bs)) = bs"
proof -
  have ok: "groups_ok (groups_of bs)" using assms by (rule groups_of_ok)
  show "ip6addr2bin (ip6bin2addr bs) = bs" "ip6addr2bin (ip6_canonical (ip6bin2addr bs)) = bs"
    unfolding ip6bin2addr_bits [OF assms]
    using addr2bin_of_full [OF ok] ip6_full_full_addr [OF ok] ip6_full_canonical [OF ok] bin16_groups [OF assms]
    by auto
qed

lemma ip6_bits_back:
  assumes "groups_ok gs"
  shows "ip6bin2addr (ip6addr2bin (full_addr gs)) = full_addr gs"
proof -
  have eight: "length gs = 8" and g: "\<forall>g \<in> set gs. g < 2 ^ 16" using assms by (auto simp: groups_ok_def)
  let ?bs = "concat (map bin16 gs)"
  have bits: "ip6addr2bin (full_addr gs) = ?bs"
    using assms by (intro addr2bin_of_full ip6_full_full_addr)
  have wf: "bit_text 128 ?bs" using bit_text_concat [OF g] eight by simp
  have "concat (map bin16 (groups_of ?bs)) = ?bs" using wf by (rule bin16_groups)
  have "groups_of ?bs = gs"
  proof (rule nth_equalityI)
    show "length (groups_of ?bs) = length gs" using eight by (simp add: groups_of_def)
    fix i
    assume "i < length (groups_of ?bs)"
    then have i: "i < 8" by (simp add: groups_of_def)
    have "take 16 (drop (16 * i) (concat (map bin16 gs))) = bin16 (gs ! i)"
      if "\<forall>g \<in> set gs. g < 2 ^ 16" "i < length gs" for gs i
      using that
    proof (induction gs arbitrary: i)
      case (Cons h hs)
      have "length (bin16 h) = 16" using bin16_facts(1) [of h] Cons.prems by (simp add: bit_text_def)
      with Cons show ?case by (cases i) auto
    qed simp
    from this [OF g, of i] i eight bin16_facts(2) [of "gs ! i"] g show "groups_of ?bs ! i = gs ! i"
      by (simp add: groups_of_def mult.commute)
  qed
  then show ?thesis
    unfolding bits using ip6bin2addr_bits [OF wf] by simp
qed

text \<open>
  C27. Addresses and bits: the 128 bits of the address \<open>ip6bin2addr\<close> prints are the ones it was given,
  and the address printed from the bits of an address in full spelling is that address.
\<close>

theorem ip6_bits_roundtrip:
  assumes "bit_text 128 bs" "groups_ok gs"
  shows "ip6addr2bin (ip6bin2addr bs) = bs \<and> ip6bin2addr (ip6addr2bin (full_addr gs)) = full_addr gs"
  using addr_bits(1) [OF assms(1)] ip6_bits_back [OF assms(2)] by blast

theorem ip6_bits_roundtrip_witness:
  "ip6addr2bin (ip6bin2addr (replicate 128 CHR ''1'')) = replicate 128 CHR ''1''
   \<and> ip6bin2addr (ip6addr2bin (full_addr [8193, 0, 0, 0, 0, 0, 0, 255])) = full_addr [8193, 0, 0, 0, 0, 0, 0, 255]"
proof (rule ip6_bits_roundtrip)
  show "bit_text 128 (replicate 128 CHR ''1'')" by (simp add: bit_text_def list_all_iff bit_char_def)
  show "groups_ok [8193, 0, 0, 0, 0, 0, 0, 255]" by (simp add: groups_ok_def)
qed

section \<open>Masking\<close>

lemma js_integer_dec: "js_integer (dec_str n) = Some (int n)"
proof -
  obtain c cs where s: "dec_str n = c # cs" by (meson neq_Nil_conv num_str_not_Nil)
  have digits: "\<forall>x \<in> set (dec_str n). is_digit x" by (simp add: dec_str_digits is_digit_iff)
  have c: "c \<noteq> CHR ''-''" "c \<noteq> CHR ''+''" using digits s by (auto simp: is_digit_def)
  have "dropWhile is_js_space (dec_str n) = dec_str n"
    by (metis digit_not_space dec_str_digits dropWhile_eq_self_iff hd_in_set)
  moreover have "dropWhile is_js_space (rev (dec_str n)) = rev (dec_str n)"
    by (metis digit_not_space dec_str_digits dropWhile_eq_self_iff hd_in_set set_rev)
  ultimately have "rev (dropWhile is_js_space (rev (dropWhile is_js_space (dec_str n)))) = c # cs"
    using s by simp
  then show ?thesis
    using digits c base_val_num_str [of 10 n] by (simp add: js_integer_def s list_all_iff)
qed

lemma js_integer_neg: "js_integer (CHR ''-'' # dec_str n) = Some (- int n)"
proof -
  have "\<not> is_js_space CHR ''-''" by (simp add: is_js_space_def)
  moreover have "dropWhile is_js_space (rev (dec_str n) @ ''-'') = rev (dec_str n) @ ''-''"
  proof -
    have "\<not> is_js_space (hd (rev (dec_str n)))"
      by (metis digit_not_space dec_str_digits hd_in_set num_str_not_Nil rev_is_Nil_conv set_rev)
    then show ?thesis by (cases "rev (dec_str n)") auto
  qed
  moreover have "list_all is_digit (dec_str n)" by (simp add: list_all_iff dec_str_digits is_digit_iff)
  ultimately show ?thesis by (simp add: js_integer_def)
qed

lemma bit_text_append: "bit_text m s \<Longrightarrow> bit_text n t \<Longrightarrow> bit_text (m + n) (s @ t)"
  by (simp add: bit_text_def)

lemma bit_text_take: "bit_text m s \<Longrightarrow> n \<le> m \<Longrightarrow> bit_text n (take n s)"
  by (auto simp: bit_text_def list_all_iff dest: in_set_takeD)

lemma bit_text_drop: "bit_text m s \<Longrightarrow> bit_text (m - n) (drop n s)"
  by (auto simp: bit_text_def list_all_iff dest: in_set_dropD)

lemma bit_text_replicate: "bit_text n (replicate n CHR ''0'')" "bit_text n (replicate n CHR ''1'')"
  by (simp_all add: bit_text_def list_all_iff bit_char_def)

lemma mask_result:
  assumes "bit_text 128 (ip6addr2bin a)" "n \<le> 128" "mask_number mk = Some (int n)"
  shows "\<exists>b. ip6_mask a mk = Inr b \<and> ip6addr2bin b = take n (ip6addr2bin a) @ replicate (128 - n) CHR ''0''"
proof -
  let ?bs = "take n (ip6addr2bin a) @ replicate (128 - n) CHR ''0''"
  have "bit_text 128 ?bs"
    using bit_text_append [OF bit_text_take [OF assms(1,2)] bit_text_replicate(1) [of "128 - n"]] assms(2) by simp
  moreover have "ip6_mask a mk = Inr (ip6_canonical (ip6bin2addr ?bs))"
    using assms(2,3) by (simp add: ip6_mask_def js_repeat_def js_take_def nat_diff_distrib Let_def)
  ultimately show ?thesis using addr_bits(2) by blast
qed

lemma mask_result_low:
  assumes "bit_text 128 (ip6addr2bin a)" "n \<le> 128"
  shows "\<exists>b. ip6_mask a (MNum (- int n)) = Inr b \<and>
    ip6addr2bin b = replicate (128 - n) CHR ''0'' @ drop (128 - n) (ip6addr2bin a)"
proof (cases "n = 0")
  case True
  then show ?thesis using mask_result [OF assms(1), of 0 "MNum 0"] assms(1) by (auto simp: mask_number_def bit_text_def)
next
  case False
  let ?bs = "replicate (128 - n) CHR ''0'' @ drop (128 - n) (ip6addr2bin a)"
  have "bit_text 128 ?bs"
    using bit_text_append [OF bit_text_replicate(1) [of "128 - n"] bit_text_drop [OF assms(1), of "128 - n"]] assms(2)
    by simp
  moreover have "ip6_mask a (MNum (- int n)) = Inr (ip6_canonical (ip6bin2addr ?bs))"
    using assms(2) False by (simp add: ip6_mask_def mask_number_def js_repeat_def nat_diff_distrib Let_def)
  ultimately show ?thesis using addr_bits(2) by blast
qed

lemma full_addr_bits: "groups_ok gs \<Longrightarrow> bit_text 128 (ip6addr2bin (full_addr gs))"
  using addr2bin_of_full [of gs "full_addr gs"] ip6_full_full_addr [of gs] bit_text_concat [of gs]
  by (simp add: groups_ok_def)

text \<open>
  Masking: a mask from 0 to 128, given as a number or as its numeral, keeps that many leading bits
  of the address and clears the rest; a negative number keeps that many trailing bits.
\<close>

theorem ip6_mask_bits:
  assumes "groups_ok gs" "n \<le> 128"
  shows "\<exists>a b c. ip6_mask (full_addr gs) (MNum (int n)) = Inr a \<and> ip6_mask (full_addr gs) (MStr (dec_str n)) = Inr b
    \<and> ip6_mask (full_addr gs) (MNum (- int n)) = Inr c
    \<and> ip6addr2bin a = take n (ip6addr2bin (full_addr gs)) @ replicate (128 - n) CHR ''0''
    \<and> ip6addr2bin b = ip6addr2bin a
    \<and> ip6addr2bin c = replicate (128 - n) CHR ''0'' @ drop (128 - n) (ip6addr2bin (full_addr gs))"
proof -
  have bits: "bit_text 128 (ip6addr2bin (full_addr gs))" using assms(1) by (rule full_addr_bits)
  show ?thesis
    using mask_result [OF bits assms(2), of "MNum (int n)"] mask_result [OF bits assms(2), of "MStr (dec_str n)"]
      mask_result_low [OF bits assms(2)]
    by (auto simp: mask_number_def js_integer_dec)
qed

theorem ip6_mask_bits_witness:
  "\<exists>a. ip6_mask (full_addr [65152, 0, 0, 0, 0, 0, 0, 1]) (MNum 10) = Inr a
     \<and> ip6addr2bin a = take 10 (ip6addr2bin (full_addr [65152, 0, 0, 0, 0, 0, 0, 1])) @ replicate 118 CHR ''0''"
  using ip6_mask_bits [of "[65152, 0, 0, 0, 0, 0, 0, 1]" 10] by (auto simp: groups_ok_def)

text \<open>
  A negative mask given as text, which \<open>validateIP6Range\<close> accepts, masks nothing: the sum with 128
  is a concatenation. A mask above 128 raises an exception.
\<close>

theorem ip6_mask_text_negative:
  assumes "groups_ok gs" "0 < n"
  shows "ip6_mask (full_addr gs) (MStr (CHR ''-'' # dec_str n)) = Inr (ip6_canonical (full_addr gs))
    \<and> ip6_mask (full_addr gs) (MNum (128 + int n)) = Inl RangeError"
proof
  have "ip6bin2addr (ip6addr2bin (full_addr gs)) = full_addr gs"
    using ip6_bits_back [OF assms(1)] .
  then show "ip6_mask (full_addr gs) (MStr (CHR ''-'' # dec_str n)) = Inr (ip6_canonical (full_addr gs))"
    using assms(2) by (simp add: ip6_mask_def mask_number_def js_integer_neg Let_def)
  show "ip6_mask (full_addr gs) (MNum (128 + int n)) = Inl RangeError"
    using assms(2) by (simp add: ip6_mask_def mask_number_def js_repeat_def Let_def)
qed

theorem ip6_mask_text_negative_witness:
  "ip6_mask (full_addr [65152, 0, 0, 0, 0, 0, 0, 1]) (MStr (CHR ''-'' # dec_str 64)) =
     Inr (ip6_canonical (full_addr [65152, 0, 0, 0, 0, 0, 0, 1]))"
  using ip6_mask_text_negative [of "[65152, 0, 0, 0, 0, 0, 0, 1]" 64] by (simp add: groups_ok_def)

lemma js_integer_digits:
  assumes "s \<noteq> []" "list_all is_digit s"
  shows "js_integer s = Some (int (dec_val s))"
proof -
  obtain c cs where s: "s = c # cs" using assms(1) by (cases s) auto
  have sp: "\<not> is_js_space x" if "x \<in> set s" for x
    using assms(2) that digit_not_space is_digit_iff by (auto simp: list_all_iff)
  have "dropWhile is_js_space s = s" using sp s by simp
  moreover have "dropWhile is_js_space (rev s) = rev s"
    using sp assms(1) by (metis dropWhile_eq_self_iff hd_in_set set_rev)
  moreover have "c \<noteq> CHR ''-'' \<and> c \<noteq> CHR ''+''" using assms(2) s by (auto simp: is_digit_def)
  ultimately show ?thesis using assms(2) s by (simp add: js_integer_def)
qed

end
