(* ===== verification/Ip6_Accept.thy ===== *)
theory Ip6_Accept
  imports Ip6_Address
begin

text \<open>
  Which IPv6 texts the validators accept, and that an accepted text expands to a full address: the
  patterns of \<open>validateIP6\<close> are read as conditions on the components between the colons.
\<close>

section \<open>The patterns on the components\<close>

abbreviation colon_split :: "string \<Rightarrow> string list" where
  "colon_split \<equiv> split_on CHR '':''"

abbreviation colon_join :: "string list \<Rightarrow> string" where
  "colon_join \<equiv> join '':''"

definition has_double :: "string list \<Rightarrow> bool" where
  "has_double cs \<longleftrightarrow> (\<exists>A B. cs = A @ [] # B \<and> A \<noteq> [] \<and> B \<noteq> [])"

definition has_triple :: "string list \<Rightarrow> bool" where
  "has_triple cs \<longleftrightarrow> (\<exists>A B. cs = A @ [] # [] # B \<and> A \<noteq> [] \<and> B \<noteq> [])"

definition two_doubles :: "string list \<Rightarrow> bool" where
  "two_doubles cs \<longleftrightarrow> (\<exists>A M B. cs = A @ [] # M @ [] # B \<and> A \<noteq> [] \<and> B \<noteq> [] \<and> M \<noteq> [] \<and> M \<noteq> [[]]
     \<and> (\<forall>x \<in> set M. \<forall>c \<in> set x. \<not> is_newline c))"

definition ends_single :: "string list \<Rightarrow> bool" where
  "ends_single cs \<longleftrightarrow> (\<exists>A x. cs = A @ [x, []] \<and> x \<noteq> [])"

definition starts_single :: "string list \<Rightarrow> bool" where
  "starts_single cs \<longleftrightarrow> length cs \<ge> 2 \<and> hd cs = [] \<and> \<not> (\<exists>B. cs = [] # [] # B \<and> B \<noteq> [])"

lemma any_text_iff [simp]: "rx_match any_text s"
  by (simp add: any_text_def rx_match_Star_Cls list_all_iff)

lemma join_one: "A \<noteq> [] \<Longrightarrow> B \<noteq> [] \<Longrightarrow> colon_join (A @ [] # B) = colon_join A @ ''::'' @ colon_join B"
  by (simp add: join_append join_Cons)

lemma join_two: "A \<noteq> [] \<Longrightarrow> B \<noteq> [] \<Longrightarrow> colon_join (A @ [] # [] # B) = colon_join A @ '':::'' @ colon_join B"
  by (simp add: join_append join_Cons)

lemma split_double: "colon_split (u @ CHR '':'' # CHR '':'' # v) = colon_split u @ [] # colon_split v"
  by (simp add: split_on_append)

lemma double_iff: "rx_match (RSeqs [any_text, RLit ''::'', any_text]) s \<longleftrightarrow> has_double (colon_split s)"
proof -
  have "rx_match (RSeqs [any_text, RLit ''::'', any_text]) s \<longleftrightarrow> (\<exists>u v. s = u @ ''::'' @ v)"
    unfolding RSeqs.simps by (simp add: rx_match_Seq rx_match_Lit rx_match_Eps del: RLit.simps) blast
  also have "\<dots> \<longleftrightarrow> has_double (colon_split s)"
  proof
    assume "\<exists>u v. s = u @ ''::'' @ v"
    then show "has_double (colon_split s)" by (force simp: has_double_def split_double)
  next
    assume "has_double (colon_split s)"
    then obtain A B where "colon_split s = A @ [] # B" "A \<noteq> []" "B \<noteq> []" by (auto simp: has_double_def)
    then have "s = colon_join A @ ''::'' @ colon_join B" using join_one by (metis join_split_on)
    then show "\<exists>u v. s = u @ ''::'' @ v" by blast
  qed
  finally show ?thesis .
qed

lemma triple_iff: "rx_match (RSeqs [any_text, RLit '':::'', any_text]) s \<longleftrightarrow> has_triple (colon_split s)"
proof -
  have "rx_match (RSeqs [any_text, RLit '':::'', any_text]) s \<longleftrightarrow> (\<exists>u v. s = u @ '':::'' @ v)"
    unfolding RSeqs.simps by (simp add: rx_match_Seq rx_match_Lit rx_match_Eps del: RLit.simps) blast
  also have "\<dots> \<longleftrightarrow> has_triple (colon_split s)"
  proof
    assume "\<exists>u v. s = u @ '':::'' @ v"
    then obtain u v where "s = u @ CHR '':'' # CHR '':'' # CHR '':'' # v" by auto
    then have "colon_split s = colon_split u @ [] # [] # colon_split v" by (simp add: split_double)
    then show "has_triple (colon_split s)" unfolding has_triple_def by (metis split_on_not_Nil)
  next
    assume "has_triple (colon_split s)"
    then obtain A B where "colon_split s = A @ [] # [] # B" "A \<noteq> []" "B \<noteq> []" by (auto simp: has_triple_def)
    then have "s = colon_join A @ '':::'' @ colon_join B" using join_two by (metis join_split_on)
    then show "\<exists>u v. s = u @ '':::'' @ v" by blast
  qed
  finally show ?thesis .
qed

lemma ends_single_iff:
  "rx_match (RSeqs [any_text, RCls (\<lambda>c. c \<noteq> CHR '':''), RChr CHR '':'']) s \<longleftrightarrow> ends_single (colon_split s)"
proof -
  have "rx_match (RSeqs [any_text, RCls (\<lambda>c. c \<noteq> CHR '':''), RChr CHR '':'']) s \<longleftrightarrow>
      (\<exists>u c. s = (u @ [c]) @ '':'' \<and> c \<noteq> CHR '':'')"
    unfolding RSeqs.simps
    by (simp add: rx_match_Seq [of any_text] rx_match_Seq_Cls rx_match_Seq_Eps rx_match_Chr) blast
  also have "\<dots> \<longleftrightarrow> ends_single (colon_split s)"
  proof
    assume "\<exists>u c. s = (u @ [c]) @ '':'' \<and> c \<noteq> CHR '':''"
    then obtain u c where s: "s = (u @ [c]) @ '':''" "c \<noteq> CHR '':''" by blast
    have cs: "colon_split s = colon_split (u @ [c]) @ [[]]" using s(1) split_on_append [of "CHR '':''" "u @ [c]" "[]"] by simp
    define ys where "ys = colon_split (u @ [c])"
    have "ys \<noteq> []" by (simp add: ys_def)
    then obtain A x where ys: "ys = A @ [x]" by (metis rev_exhaust)
    have "x \<noteq> []"
    proof
      assume "x = []"
      then have "u @ [c] = colon_join (A @ [[]])" using ys ys_def by (metis join_split_on)
      then show False using s(2) by (cases "A = []") (auto simp: join_append)
    qed
    then show "ends_single (colon_split s)" unfolding ends_single_def cs using ys ys_def by auto
  next
    assume "ends_single (colon_split s)"
    then obtain A x where cs: "colon_split s = A @ [x, []]" "x \<noteq> []" by (auto simp: ends_single_def)
    then have s: "s = colon_join ((A @ [x]) @ [[]])" by (metis append_Cons append_Nil append_assoc join_split_on)
    then have "s = colon_join (A @ [x]) @ '':''" unfolding s by (subst join_append) simp_all
    moreover have "colon_join (A @ [x]) = (if A = [] then [] else colon_join A @ '':'') @ butlast x @ [last x]"
      using cs(2) by (simp add: join_append)
    moreover have "CHR '':'' \<notin> set x" using cs split_on_part_free [of x "CHR '':''" s] by simp
    then have "last x \<noteq> CHR '':''" using cs(2) last_in_set by metis
    ultimately show "\<exists>u c. s = (u @ [c]) @ '':'' \<and> c \<noteq> CHR '':''" by (metis append.assoc)
  qed
  finally show ?thesis .
qed

lemma starts_single_iff: "take 1 s = '':'' \<and> take 2 s \<noteq> ''::'' \<longleftrightarrow> starts_single (colon_split s)"
proof (cases s)
  case Nil
  then show ?thesis by (simp add: starts_single_def)
next
  case (Cons c t)
  show ?thesis
  proof (cases "c = CHR '':''")
    case True
    then have cs: "colon_split s = [] # colon_split t" using Cons by simp
    have "take 2 s = ''::'' \<longleftrightarrow> (\<exists>r. t = CHR '':'' # r)" using Cons True by (cases t) (auto simp: numeral_2_eq_2)
    also have "\<dots> \<longleftrightarrow> (\<exists>B. colon_split t = [] # B \<and> B \<noteq> [])"
      by (cases t) (auto split: list.splits)
    finally show ?thesis using cs Cons True by (auto simp: starts_single_def Suc_le_eq)
  next
    case False
    then have "hd (colon_split s) \<noteq> []" using Cons by (auto split: list.splits)
    with False Cons show ?thesis by (simp add: starts_single_def)
  qed
qed

lemma two_doubles_iff:
  "rx_match (RSeqs [any_text, RLit ''::'', RPlus any_char, RLit ''::'', any_text]) s \<longleftrightarrow> two_doubles (colon_split s)"
proof -
  have "rx_match (RSeqs [any_text, RLit ''::'', RPlus any_char, RLit ''::'', any_text]) s \<longleftrightarrow>
      (\<exists>u w v. s = u @ ''::'' @ w @ ''::'' @ v \<and> w \<noteq> [] \<and> (\<forall>c \<in> set w. \<not> is_newline c))"
    unfolding RSeqs.simps any_char_def
    by (simp add: rx_match_Seq rx_match_Lit rx_match_Eps rx_match_Plus_Cls list_all_iff del: RLit.simps) blast
  also have "\<dots> \<longleftrightarrow> two_doubles (colon_split s)"
  proof
    assume "\<exists>u w v. s = u @ ''::'' @ w @ ''::'' @ v \<and> w \<noteq> [] \<and> (\<forall>c \<in> set w. \<not> is_newline c)"
    then obtain u w v where s: "s = u @ ''::'' @ w @ ''::'' @ v" "w \<noteq> []" "\<forall>c \<in> set w. \<not> is_newline c" by blast
    have "colon_split s = colon_split u @ [] # colon_split w @ [] # colon_split v" using s by (simp add: split_double)
    moreover have "colon_split w \<noteq> [[]]"
    proof
      assume "colon_split w = [[]]"
      then have "w = colon_join [[]]" by (metis join_split_on)
      with s(2) show False by simp
    qed
    moreover have "\<forall>x \<in> set (colon_split w). \<forall>c \<in> set x. \<not> is_newline c"
      using s(3) split_on_part_subset by blast
    ultimately show "two_doubles (colon_split s)" unfolding two_doubles_def by (metis split_on_not_Nil)
  next
    assume "two_doubles (colon_split s)"
    then obtain A M B where cs: "colon_split s = A @ [] # M @ [] # B" "A \<noteq> []" "B \<noteq> []" "M \<noteq> []" "M \<noteq> [[]]"
        "\<forall>x \<in> set M. \<forall>c \<in> set x. \<not> is_newline c" unfolding two_doubles_def by blast
    have "s = colon_join (A @ [] # (M @ [] # B))" using cs(1) by (metis join_split_on)
    also have "\<dots> = colon_join A @ ''::'' @ colon_join (M @ [] # B)" using cs by (intro join_one) auto
    also have "colon_join (M @ [] # B) = colon_join M @ ''::'' @ colon_join B" using cs by (intro join_one) auto
    finally have "s = colon_join A @ ''::'' @ colon_join M @ ''::'' @ colon_join B" .
    moreover have "colon_join M \<noteq> []" using cs(4,5) by (simp add: join_eq_Nil)
    moreover have "\<not> is_newline CHR '':''" by (simp add: is_newline_def)
    then have "\<forall>c \<in> set (colon_join M). \<not> is_newline c" using cs(6) set_join [of "'':''" M] by auto
    ultimately show "\<exists>u w v. s = u @ ''::'' @ w @ ''::'' @ v \<and> w \<noteq> [] \<and> (\<forall>c \<in> set w. \<not> is_newline c)" by blast
  qed
  finally show ?thesis .
qed

definition group_field :: "string \<Rightarrow> bool" where
  "group_field x \<longleftrightarrow> length x \<le> 4 \<and> list_all hex_digit x"

definition components_ok :: "string list \<Rightarrow> bool" where
  "components_ok cs \<longleftrightarrow> \<not> has_triple cs \<and> \<not> two_doubles cs \<and> \<not> ends_single cs \<and> \<not> starts_single cs
     \<and> 2 \<le> length cs \<and> length cs \<le> 8 \<and> (length cs < 8 \<longrightarrow> has_double cs) \<and> list_all group_field cs"

lemma validateIP6_components: "validateIP6 s = 0 \<longleftrightarrow> components_ok (colon_split s)"
proof -
  have "rx_match (RRange 0 4 (RCls hex_digit)) x \<longleftrightarrow> group_field x" for x
    by (simp add: rx_match_Range_Cls group_field_def)
  moreover have "foldl (\<lambda>e x. if \<not> P x then 1 else e) e cs = 0 \<longleftrightarrow> e = 0 \<and> list_all P cs"
    for e :: nat and P and cs :: "string list" by (induction cs arbitrary: e) auto
  ultimately show ?thesis
    unfolding validateIP6_def Let_def triple_iff two_doubles_iff ends_single_iff starts_single_iff double_iff
      components_ok_def
    by auto
qed

section \<open>The accepted texts\<close>

definition group_text :: "string \<Rightarrow> bool" where
  "group_text x \<longleftrightarrow> x \<noteq> [] \<and> length x \<le> 4 \<and> list_all hex_digit x"

text \<open>
  Eight groups, or two lists of groups around a double colon. With groups on both sides there may be
  seven of them; with groups on one side only six, although seven are a legal spelling.
\<close>

definition ip6_components :: "string list \<Rightarrow> bool" where
  "ip6_components cs \<longleftrightarrow>
     (length cs = 8 \<and> list_all group_text cs)
     \<or> (\<exists>pre post. list_all group_text (pre @ post) \<and>
          (if pre = [] \<and> post = [] then cs = [[], [], []]
           else if pre = [] then cs = [] # [] # post \<and> length post \<le> 6
           else if post = [] then cs = pre @ [[], []] \<and> length pre \<le> 6
           else cs = pre @ [] # post \<and> length pre + length post \<le> 7))"

lemma group_text_field: "group_text x \<longleftrightarrow> group_field x \<and> x \<noteq> []"
  by (auto simp: group_text_def group_field_def)

lemma group_field_newline: "list_all group_field xs \<Longrightarrow> \<forall>x \<in> set xs. \<forall>c \<in> set x. \<not> is_newline c"
proof -
  have "hex_digit c \<Longrightarrow> \<not> is_newline c" for c
    by (auto simp: hex_digit_iff is_base_digit_def digit_val_def is_newline_def)
  then show "list_all group_field xs \<Longrightarrow> \<forall>x \<in> set xs. \<forall>c \<in> set x. \<not> is_newline c"
    by (simp add: list_all_iff group_field_def)
qed

text \<open>After a double colon with something before it, there is no further empty component.\<close>

lemma no_more_empty:
  assumes "components_ok cs" "cs = A @ [] # B" "A \<noteq> []" "B \<noteq> []" "hd B \<noteq> []"
  shows "[] \<notin> set B"
proof
  assume "[] \<in> set B"
  then obtain M C where B: "B = M @ [] # C" "[] \<notin> set M" by (metis split_list_first)
  then have M: "M \<noteq> []" using assms(5) by (cases M) auto
  show False
  proof (cases "C = []")
    case True
    have "last M \<noteq> []" using M B(2) last_in_set by metis
    have "M = butlast M @ [last M]" using M by simp
    then have "cs = (A @ [] # butlast M) @ [last M, []]" using assms(2) B True by (metis append_Cons append_assoc append_Nil)
    then show False using assms(1) \<open>last M \<noteq> []\<close> unfolding components_ok_def ends_single_def by blast
  next
    case False
    have "M \<noteq> [[]]" using B(2) by auto
    moreover have "list_all group_field M" using assms(1,2) B by (simp add: components_ok_def)
    ultimately have "two_doubles cs"
      unfolding two_doubles_def using assms(2,3) B M False group_field_newline by blast
    then show False using assms(1) by (simp add: components_ok_def)
  qed
qed

lemma components_ok_form:
  assumes "components_ok cs" shows "ip6_components cs"
proof (cases "[] \<in> set cs")
  case False
  then have "\<not> has_double cs" by (auto simp: has_double_def)
  then have "length cs = 8" using assms by (auto simp: components_ok_def)
  moreover have "list_all group_text cs" using assms False by (auto simp: components_ok_def list_all_iff group_text_field)
  ultimately show ?thesis by (simp add: ip6_components_def)
next
  case True
  then obtain A B where cs: "cs = A @ [] # B" "[] \<notin> set A" by (metis split_list_first)
  have fields: "list_all group_field A" "list_all group_field B" and len: "2 \<le> length cs" "length cs \<le> 8"
    using assms cs by (auto simp: components_ok_def)
  have A: "list_all group_text A" using fields(1) cs(2) by (auto simp: list_all_iff group_text_field)
  have groups: "list_all group_text C" if "list_all group_field C" "[] \<notin> set C" for C
    using that by (auto simp: list_all_iff group_text_field)
  show ?thesis
  proof (cases "A = []")
    case True
    then have "\<exists>C. cs = [] # [] # C \<and> C \<noteq> []"
      using assms cs len by (auto simp: components_ok_def starts_single_def)
    then obtain C where C: "cs = [] # [] # C" "C \<noteq> []" by blast
    show ?thesis
    proof (cases "C = [[]]")
      case True
      with C show ?thesis by (auto simp: ip6_components_def intro!: exI [of _ "[]"])
    next
      case False
      have "hd C \<noteq> []"
      proof
        assume "hd C = []"
        then obtain D where "C = [] # D" "D \<noteq> []" using C(2) False by (cases C) auto
        then have "has_triple cs" unfolding has_triple_def using C(1) by (intro exI [of _ "[[]]"] exI [of _ D]) simp
        then show False using assms by (simp add: components_ok_def)
      qed
      then have "[] \<notin> set C" using no_more_empty [OF assms, of "[[]]" C] C by simp
      moreover have "list_all group_field C" using assms C by (simp add: components_ok_def)
      ultimately have "list_all group_text C" by (intro groups)
      with C len show ?thesis unfolding ip6_components_def
        by - (rule disjI2, rule exI [of _ "[]"], rule exI [of _ C], simp)
    qed
  next
    case pre: False
    have B: "B \<noteq> []"
    proof
      assume "B = []"
      then have "cs = butlast A @ [last A, []]" using cs pre by simp
      moreover have "last A \<noteq> []" using cs(2) pre last_in_set by metis
      ultimately show False using assms unfolding components_ok_def ends_single_def by blast
    qed
    show ?thesis
    proof (cases "hd B = []")
      case True
      then obtain D where D: "B = [] # D" using B by (cases B) auto
      have "D = []"
      proof (rule ccontr)
        assume "D \<noteq> []"
        then have "has_triple cs" unfolding has_triple_def using cs(1) D pre by blast
        then show False using assms by (simp add: components_ok_def)
      qed
      with cs D pre len A show ?thesis unfolding ip6_components_def
        by - (rule disjI2, rule exI [of _ A], rule exI [of _ "[]"], simp)
    next
      case False
      then have "[] \<notin> set B" using no_more_empty [OF assms cs(1) pre B] by simp
      then have "list_all group_text B" by (rule groups [OF fields(2)])
      with cs pre B len A show ?thesis unfolding ip6_components_def
        by - (rule disjI2, rule exI [of _ A], rule exI [of _ B], simp)
    qed
  qed
qed

definition empties :: "string list \<Rightarrow> nat" where
  "empties cs = length (filter (\<lambda>x. x = []) cs)"

lemma empties_simps [simp]:
  "empties [] = 0" "empties (x # xs) = (if x = [] then Suc (empties xs) else empties xs)"
  "empties (xs @ ys) = empties xs + empties ys"
  by (simp_all add: empties_def)

lemma empties_groups: "list_all group_text xs \<Longrightarrow> empties xs = 0"
  by (induction xs) (auto simp: group_text_def)

lemma empties_pos: "[] \<in> set xs \<Longrightarrow> 0 < empties xs"
  by (auto simp: empties_def filter_empty_conv)

lemma inner_empties:
  assumes "has_triple cs \<or> two_doubles cs"
  shows "2 \<le> empties cs" and "hd cs = [] \<or> last cs = [] \<Longrightarrow> 3 \<le> empties cs" and "4 \<le> length cs"
proof -
  have "\<exists>A C B. cs = A @ C @ B \<and> A \<noteq> [] \<and> B \<noteq> [] \<and> 2 \<le> empties C \<and> 2 \<le> length C"
    using assms
  proof
    assume "has_triple cs"
    then obtain A B where "cs = A @ [[], []] @ B" "A \<noteq> []" "B \<noteq> []" by (auto simp: has_triple_def)
    moreover have "2 \<le> empties [[], []]" "2 \<le> length [[], []]" by simp_all
    ultimately show ?thesis by blast
  next
    assume "two_doubles cs"
    then obtain A M B where "cs = A @ ([] # M @ [[]]) @ B" "A \<noteq> []" "B \<noteq> []" by (auto simp: two_doubles_def)
    moreover have "2 \<le> empties ([] # M @ [[]])" "2 \<le> length ([] # M @ [[]])" by simp_all
    ultimately show ?thesis by blast
  qed
  then obtain A C B where cs: "cs = A @ C @ B" "A \<noteq> []" "B \<noteq> []" "2 \<le> empties C" "2 \<le> length C" by blast
  then show "2 \<le> empties cs" by simp
  have "Suc 0 \<le> length A" "Suc 0 \<le> length B" using cs by (simp_all add: Suc_le_eq)
  then show "4 \<le> length cs" using cs(1,5) by simp
  assume "hd cs = [] \<or> last cs = []"
  then have "[] \<in> set A \<or> [] \<in> set B" using cs(1-3) by (metis hd_append2 hd_in_set last_appendR last_in_set append_is_Nil_conv)
  then have "0 < empties A \<or> 0 < empties B" by (metis empties_pos)
  then show "3 \<le> empties cs" using cs(1,4) by auto
qed

lemma ends_starts_empty: "ends_single cs \<Longrightarrow> last cs = []" "starts_single cs \<Longrightarrow> hd cs = []"
  by (auto simp: ends_single_def starts_single_def)

lemma form_components_ok:
  assumes "ip6_components cs" shows "components_ok cs"
proof -
  have inner: "\<not> has_triple cs \<and> \<not> two_doubles cs" if "empties cs < 2 \<or> empties cs < 3 \<and> (hd cs = [] \<or> last cs = []) \<or> length cs < 4"
    using that inner_empties [of cs] by linarith
  have fields: "list_all group_text xs \<Longrightarrow> list_all group_field xs" for xs
    by (auto simp: list_all_iff group_text_field)
  have ends: "xs \<noteq> [] \<Longrightarrow> list_all group_text xs \<Longrightarrow> hd xs \<noteq> [] \<and> last xs \<noteq> []" for xs
    using hd_in_set [of xs] last_in_set [of xs] by (auto simp: list_all_iff group_text_def)
  have nil: "group_field []" by (simp add: group_field_def)
  consider (eight) "length cs = 8" "list_all group_text cs"
    | (all) "cs = [[], [], []]"
    | (front) post where "post \<noteq> []" "list_all group_text post" "cs = [] # [] # post" "length post \<le> 6"
    | (rear) pre where "pre \<noteq> []" "list_all group_text pre" "cs = pre @ [[], []]" "length pre \<le> 6"
    | (middle) pre post where "pre \<noteq> []" "post \<noteq> []" "list_all group_text pre" "list_all group_text post"
        "cs = pre @ [] # post" "length pre + length post \<le> 7"
    using assms unfolding ip6_components_def by (auto split: if_splits)
  then show ?thesis
  proof cases
    case eight
    then have "cs \<noteq> []" by auto
    then show ?thesis
      using eight inner ends [of cs] ends_starts_empty [of cs] fields
      by (auto simp: components_ok_def empties_groups)
  next
    case all
    have "\<not> ends_single cs" using all by (auto simp: ends_single_def Cons_eq_append_conv)
    moreover have "\<not> starts_single cs" using all by (simp add: starts_single_def)
    moreover have "has_double cs" using all unfolding has_double_def by (intro exI [of _ "[[]]"]) simp
    ultimately show ?thesis using inner all nil by (auto simp: components_ok_def)
  next
    case front
    have "\<not> starts_single cs" using front by (simp add: starts_single_def)
    moreover have "has_double cs" using front unfolding has_double_def by - (rule exI [of _ "[[]]"], rule exI [of _ post], simp)
    moreover have "\<not> ends_single cs" using ends_starts_empty(1) [of cs] ends [of post] front by auto
    ultimately show ?thesis
      using inner front fields nil by (simp add: components_ok_def empties_groups)
  next
    case rear
    have "\<not> starts_single cs" using ends_starts_empty(2) [of cs] ends [of pre] rear by auto
    moreover have "has_double cs" using rear unfolding has_double_def by - (rule exI [of _ pre], rule exI [of _ "[[]]"], simp)
    moreover have "\<not> ends_single cs" using rear by (auto simp: ends_single_def)
    ultimately show ?thesis
      using inner rear fields nil by (simp add: components_ok_def empties_groups Suc_le_eq)
  next
    case middle
    have "\<not> starts_single cs" using ends_starts_empty(2) [of cs] ends [of pre] middle by auto
    moreover have "has_double cs" using middle unfolding has_double_def by blast
    moreover have "\<not> ends_single cs" using ends_starts_empty(1) [of cs] ends [of post] middle by auto
    ultimately show ?thesis
      using inner middle fields nil by (simp add: components_ok_def empties_groups Suc_le_eq)
  qed
qed

definition ip6_text :: "string \<Rightarrow> bool" where
  "ip6_text s \<longleftrightarrow> ip6_components (colon_split s)"

lemma validateIP6_iff: "validateIP6 s = 0 \<longleftrightarrow> ip6_text s"
  using components_ok_form form_components_ok validateIP6_components by (auto simp: ip6_text_def)

interpretation ip6: validator validateIP6 ip6_text
  by unfold_locales (rule validateIP6_iff)

text \<open>The spellings behind the components.\<close>

lemma ip6_text_cases:
  assumes "ip6_text s"
  obtains (eight) gs where "length gs = 8" "list_all group_text gs" "s = colon_join gs"
  | (short) pre post where "list_all group_text (pre @ post)" "length pre + length post \<le> 7"
      "s = colon_join (outer_colons (pre @ [] # post))"
proof -
  have s: "s = colon_join (colon_split s)" by simp
  let ?cs = "colon_split s"
  from assms consider "length ?cs = 8" "list_all group_text ?cs"
    | pre post where "list_all group_text (pre @ post)" "length pre + length post \<le> 7" "?cs = outer_colons (pre @ [] # post)"
  proof -
    assume 1: "length ?cs = 8 \<Longrightarrow> list_all group_text ?cs \<Longrightarrow> thesis"
      and 2: "\<And>pre post. list_all group_text (pre @ post) \<Longrightarrow> length pre + length post \<le> 7 \<Longrightarrow>
        ?cs = outer_colons (pre @ [] # post) \<Longrightarrow> thesis"
    have ends: "xs \<noteq> [] \<Longrightarrow> list_all group_text xs \<Longrightarrow> hd xs \<noteq> [] \<and> last xs \<noteq> []" for xs
      using hd_in_set [of xs] last_in_set [of xs] by (auto simp: list_all_iff group_text_def)
    from assms show thesis
      unfolding ip6_text_def ip6_components_def
    proof (elim disjE exE conjE)
      fix pre post
      assume g: "list_all group_text (pre @ post)"
        and f: "if pre = [] \<and> post = [] then ?cs = [[], [], []]
           else if pre = [] then ?cs = [] # [] # post \<and> length post \<le> 6
           else if post = [] then ?cs = pre @ [[], []] \<and> length pre \<le> 6
           else ?cs = pre @ [] # post \<and> length pre + length post \<le> 7"
      have "?cs = outer_colons (pre @ [] # post)"
        using f ends [of pre] ends [of post] g
        by (cases pre; cases post) (auto simp: outer_colons_def split: if_splits)
      moreover have "length pre + length post \<le> 7" using f by (auto split: if_splits)
      ultimately show thesis using g 2 by blast
    qed (rule 1)
  qed
  then show thesis using eight short s by (cases) metis+
qed

lemma full_group_text:
  assumes "group_text h"
  shows "plain_group (full_group n h) \<and> length (full_group n h) = 4"
proof -
  have "full_group n h = padStart 4 CHR ''0'' h"
    using assms last_n_zeros [of h] by (simp add: full_group_def group_text_def)
  moreover have "hex_digit CHR ''0''" by (simp add: hex_digit_def)
  ultimately show ?thesis using assms by (auto simp: padStart_def plain_group_def group_text_def list_all_iff)
qed

lemma group_plain: "list_all group_text xs \<Longrightarrow> \<forall>x \<in> set xs. plain_group x"
  by (auto simp: list_all_iff group_text_def plain_group_def)

text \<open>The expansion of a compressed spelling with \<open>m\<close> groups left out.\<close>

lemma full_of_short:
  assumes "list_all group_text (pre @ post)" "length pre + length post \<le> 7"
  shows "ip6_full (colon_join (outer_colons (pre @ [] # post))) =
    colon_join (map (full_group 0) pre @ replicate (8 - (length pre + length post)) ''0000'' @ map (full_group 0) post)"
proof -
  let ?n = "Suc (length pre + length post)"
  let ?s = "colon_join (outer_colons (pre @ [] # post))"
  have pp: "\<forall>x \<in> set (pre @ post). plain_group x" using assms(1) by (rule group_plain)
  have "\<forall>x \<in> set (outer_colons (pre @ [] # post)). x = [] \<or> plain_group x"
    using pp outer_colons_set [of "pre @ [] # post"] by auto
  then have "\<forall>c \<in> set ?s. c = CHR '':'' \<or> hex_digit c" using join_plain_set by blast
  then have "ip6_full ?s = colon_join (map (full_group ?n) (pre @ [] # post))"
    using strip_colons_compressed [OF pp] by (simp only: ip6_full_colons(2) Let_def) simp
  also have "\<dots> = colon_join (map (full_group 0) pre @ colon_join (replicate (9 - ?n) ''0000'') # map (full_group 0) post)"
    using pp by (auto simp: full_group_def plain_group_def intro!: arg_cong [of _ _ colon_join])
  also have "\<dots> = colon_join (map (full_group 0) pre @ replicate (9 - ?n) ''0000'' @ map (full_group 0) post)"
    using assms(2) by (intro join_nested) simp
  finally show ?thesis by simp
qed

text \<open>
  C28. \<open>validateIP6\<close> accepts exactly the texts with eight groups of one to four hexadecimal digits, or
  with one double colon between, before or after fewer of them: seven when there are groups on both
  sides, six otherwise.
\<close>

theorem validateIP6_accepts: "validateIP6 s = 0 \<longleftrightarrow> ip6_components (split_on CHR '':'' s)"
  using validateIP6_iff by (simp only: ip6_text_def)

text \<open>
  C29. A text \<open>validateIP6\<close> accepts expands to a full spelling: eight groups of exactly four
  hexadecimal digits.
\<close>

theorem validateIP6_full:
  assumes "validateIP6 s = 0"
  shows "\<exists>gs. ip6_full s = join '':'' gs \<and> length gs = 8 \<and> list_all (\<lambda>g. length g = 4 \<and> list_all hex_digit g) gs"
proof -
  have "ip6_text s" using assms validateIP6_iff by simp
  then show ?thesis
  proof (cases rule: ip6_text_cases)
    case (eight gs)
    then have "gs \<noteq> []" by auto
    then have "ip6_full s = colon_join (map (full_group 8) gs)"
      using full_of_plain [OF _ group_plain [OF eight(2)]] eight by simp
    moreover have "list_all (\<lambda>g. length g = 4 \<and> list_all hex_digit g) (map (full_group 8) gs)"
      using eight(2) full_group_text by (auto simp: list_all_iff plain_group_def)
    ultimately show ?thesis using eight(1) by (intro exI [of _ "map (full_group 8) gs"]) simp
  next
    case (short pre post)
    let ?gs = "map (full_group 0) pre @ replicate (8 - (length pre + length post)) ''0000'' @ map (full_group 0) post"
    have "hex_digit CHR ''0''" by (simp add: hex_digit_def)
    then have "list_all (\<lambda>g. length g = 4 \<and> list_all hex_digit g) ?gs"
      using short(1) full_group_text [of _ 0] by (auto simp: list_all_iff plain_group_def)
    moreover have "length ?gs = 8" using short(2) by simp
    ultimately show ?thesis using full_of_short [OF short(1,2)] short(3) by blast
  qed
qed

theorem validateIP6_full_witness:
  "\<exists>gs. ip6_full ''fe80::1'' = join '':'' gs \<and> length gs = 8 \<and> list_all (\<lambda>g. length g = 4 \<and> list_all hex_digit g) gs"
proof -
  have "validateIP6 ''fe80::1'' = 0" by code_simp
  then show ?thesis by (rule validateIP6_full)
qed

end
