(* ===== verification/Addr_Overlap.thy ===== *)
theory Addr_Overlap
  imports Ip6_Accept
begin

text \<open>
  Overlap of addresses, subnets and ranges, and the address tables built on it: \<open>getMaskInteger\<close> to
  \<open>testAddrOverlap\<close> and \<open>addAddressStringToTable\<close> of \<open>common.js\<close>. The locale \<open>addr_range\<close> states when the
  comparison of bounds decides whether two ranges share an address; it is interpreted for the signed
  integers of IPv4 and the full spellings of IPv6.
\<close>

section \<open>Ranges\<close>

text \<open>\<open>x << n\<close> for a computed count: the count is taken modulo 32.\<close>

definition js_shl_var :: "int option \<Rightarrow> int option \<Rightarrow> int" where
  "js_shl_var x n = js_shl x (case n of None \<Rightarrow> 0 | Some k \<Rightarrow> nat (k mod 32))"

definition getMaskInteger :: "string option \<Rightarrow> int" where
  "getMaskInteger maskSize = js_shl_var (Some (-1)) (map_option (\<lambda>k. 32 - k) (parsePaddedInt maskSize))"

definition getIpRangeIntegers :: "string \<Rightarrow> int option \<times> int option" where
  "getIpRangeIntegers ipStr =
     (if CHR ''/'' \<in> set ipStr
      then (let sp = split_sep_ws CHR ''/'' ipStr;
                ipInt = getIpInteger (nth_opt sp 0);
                ipMaskInt = (if CHR ''.'' \<in> set (sp ! 1) then getIpInteger (nth_opt sp 1) else Some (getMaskInteger (nth_opt sp 1)));
                startInt = js_and ipInt ipMaskInt;
                endInt = js_or (Some startInt) (Some (js_not ipMaskInt))
            in (Some startInt, Some endInt))
      else if CHR ''-'' \<in> set ipStr
      then (let sp = split_sep_ws CHR ''-'' ipStr
            in (getIpInteger (nth_opt sp 0), getIpInteger (nth_opt sp 1)))
      else (getIpInteger (Some ipStr), getIpInteger (Some ipStr)))"

definition getIp6RangeStrings :: "string \<Rightarrow> (string \<times> string) js_result" where
  "getIp6RangeStrings ipStr =
     (if CHR ''/'' \<in> set ipStr
      then (let sp = split_sep_ws CHR ''/'' ipStr
            in res_bind (ip6_mask (sp ! 0) (MStr (sp ! 1))) (\<lambda>net.
                 let startStr = ip6_full net;
                     startBin = ip6addr2bin startStr;
                     n = js_integer (sp ! 1)
                 in res_bind (js_repeat CHR ''1'' (map_option (\<lambda>k. 128 - k) n)) (\<lambda>ones.
                      Inr (startStr, ip6bin2addr (js_take n startBin @ ones)))))
      else if CHR ''-'' \<in> set ipStr
      then (let sp = split_sep_ws CHR ''-'' ipStr
            in Inr (ip6_full (sp ! 0), ip6_full (sp ! 1)))
      else Inr (ip6_full ipStr, ip6_full ipStr))"

section \<open>Overlap\<close>

text \<open>\<open>toUpperCase\<close> on ASCII letters.\<close>

definition upper_char :: "char \<Rightarrow> char" where
  "upper_char c = (let n = (of_char c :: nat) in if 97 \<le> n \<and> n \<le> 122 then char_of (n - 32) else c)"

definition overlap_adj :: "string \<Rightarrow> string" where
  "overlap_adj addrStr =
     (let s = (if addrStr = [] then ''ALL'' else map upper_char addrStr)
      in if s = ''ALL_OTHERS_COMBINED'' \<or> s = ''ALL_OTHERS_INDIVIDUAL'' then ''ALL_OTHERS_COMBINED'' else s)"

definition testSingleAddrOverlap :: "string \<Rightarrow> string \<Rightarrow> bool \<Rightarrow> bool js_result" where
  "testSingleAddrOverlap addrStr1 addrStr2 treatipv6 =
     (let a1 = overlap_adj addrStr1; a2 = overlap_adj addrStr2
      in if a1 = a2 then Inr True
         else if treatipv6
         then (if validateMultipleIp6s a1 > 0 \<or> validateMultipleIp6s a2 > 0 \<or> CHR '','' \<in> set a1 \<or> CHR '','' \<in> set a2
               then Inr False
               else res_bind (getIp6RangeStrings a1) (\<lambda>p1. res_bind (getIp6RangeStrings a2) (\<lambda>p2.
                      Inr (str_le (fst p1) (snd p2) \<and> str_le (fst p2) (snd p1)))))
         else (if validateMultipleIps a1 > 0 \<or> validateMultipleIps a2 > 0 \<or> CHR '','' \<in> set a1 \<or> CHR '','' \<in> set a2
               then Inr False
               else (let p1 = getIpRangeIntegers a1; p2 = getIpRangeIntegers a2
                     in Inr (num_le (fst p1) (snd p2) \<and> num_le (fst p2) (snd p1)))))"

definition addr_sep :: "char \<Rightarrow> bool" where
  "addr_sep c \<longleftrightarrow> c = CHR '','' \<or> is_ws c"

definition overlap_step :: "bool \<Rightarrow> string \<times> string \<Rightarrow> bool \<Rightarrow> bool js_result" where
  "overlap_step treatipv6 = (\<lambda>(a, b) overlapFound. if overlapFound then Inr True else testSingleAddrOverlap a b treatipv6)"

definition testAddrOverlap :: "string \<Rightarrow> string \<Rightarrow> bool \<Rightarrow> bool js_result" where
  "testAddrOverlap addrStr1 addrStr2 treatipv6 =
     (let split1 = split_runs addr_sep (rtrim (ltrim addrStr1));
          split2 = split_runs addr_sep (rtrim (ltrim addrStr2))
      in fold_res (overlap_step treatipv6) (List.product split1 split2) False)"

section \<open>Address tables\<close>

text \<open>
  A table is the list of the addresses in its rows. The name \<open>validateIp6Range\<close> the source uses for
  type 5 is not defined anywhere.
\<close>

definition ip_valid_function :: "nat \<Rightarrow> (string \<Rightarrow> nat) js_result" where
  "ip_valid_function ipValidType =
     (if ipValidType = 0 then Inr (\<lambda>_. 1)
      else if ipValidType = 1 then Inr validateIP
      else if ipValidType = 2 then Inr validateIpRange
      else if ipValidType = 3 then Inr validateMultipleIps
      else if ipValidType = 4 then Inr validateIP6
      else if ipValidType = 5 then Inl ReferenceError
      else Inr validateMultipleIp6s)"

text \<open>One new address against the MAC and the IP addresses so far; \<open>None\<close> once one is refused.\<close>

definition add_addr_step ::
    "bool \<Rightarrow> nat \<Rightarrow> (string \<Rightarrow> nat) \<Rightarrow> string \<Rightarrow> (string list \<times> string list) option
     \<Rightarrow> (string list \<times> string list) option js_result" where
  "add_addr_step macsValid ipValidType ipValidFunction addr state =
     (case state of
        None \<Rightarrow> Inr None
      | Some (allCurrentMacs, allCurrentIps) \<Rightarrow>
          let macValid = macsValid \<and> validateMac addr = 0;
              ipValid = (ipValidFunction addr = 0)
          in if macValid \<or> ipValid
             then (let currAddrs = (if macValid then allCurrentMacs else allCurrentIps);
                       treatipv6 = \<not> (macValid \<or> ipValidType \<le> 3)
                   in res_bind (if currAddrs = [] then Inr False
                                else testAddrOverlap addr (join '','' currAddrs) treatipv6) (\<lambda>found.
                        Inr (if found then None
                             else if macValid then Some (allCurrentMacs @ [addr], allCurrentIps)
                             else Some (allCurrentMacs, allCurrentIps @ [addr]))))
             else Inr None)"

definition stored_addr :: "string \<Rightarrow> string" where
  "stored_addr tmpaddr =
     (if CHR ''-'' \<in> set tmpaddr
      then (let tmpaddrs = split_on CHR ''-'' tmpaddr
            in if isIPv6 (tmpaddrs ! 0)
               then join ''-'' (tmpaddrs[0 := ip6_canonical (tmpaddrs ! 0), 1 := ip6_canonical (tmpaddrs ! 1)])
               else tmpaddr)
      else if isIPv6 tmpaddr then ip6_canonical tmpaddr else tmpaddr)"

definition addAddressStringToTable :: "bool \<Rightarrow> nat \<Rightarrow> string \<Rightarrow> string list \<Rightarrow> (string list \<times> bool) js_result" where
  "addAddressStringToTable macsValid ipValidType newAddrs rows =
     res_bind (ip_valid_function ipValidType) (\<lambda>ipValidFunction.
       let macs = filter (\<lambda>a. validateMac a = 0) rows;
           ips = filter (\<lambda>a. validateMac a \<noteq> 0) rows
       in res_bind (fold_res (add_addr_step macsValid ipValidType ipValidFunction) (split_sep_ws CHR '','' newAddrs)
                      (Some (macs, ips))) (\<lambda>final.
            case final of
              None \<Rightarrow> Inr (rows, False)
            | Some _ \<Rightarrow> Inr (rows @ map stored_addr (split_sep_ws CHR '','' (rtrim (ltrim newAddrs))), True)))"

section \<open>The contract of a range test\<close>

locale addr_range =
  fixes le :: "'k \<Rightarrow> 'k \<Rightarrow> bool" and key :: "'w \<Rightarrow> 'k" and lo hi :: "'s \<Rightarrow> 'w" and valid :: "'s \<Rightarrow> bool"
  assumes le_refl: "le x x"
    and le_trans: "le x y \<Longrightarrow> le y z \<Longrightarrow> le x z"
    and le_total: "le x y \<or> le y x"
    and lo_le_hi: "valid s \<Longrightarrow> le (key (lo s)) (key (hi s))"
begin

definition members :: "'s \<Rightarrow> 'w set" where
  "members s = {x. le (key (lo s)) (key x) \<and> le (key x) (key (hi s))}"

definition overlap :: "'s \<Rightarrow> 's \<Rightarrow> bool" where
  "overlap s t \<longleftrightarrow> le (key (lo s)) (key (hi t)) \<and> le (key (lo t)) (key (hi s))"

lemma overlap_iff:
  assumes "valid s" "valid t"
  shows "overlap s t \<longleftrightarrow> members s \<inter> members t \<noteq> {}"
proof
  assume o: "overlap s t"
  show "members s \<inter> members t \<noteq> {}"
  proof (cases "le (key (lo s)) (key (lo t))")
    case True
    then have "lo t \<in> members s \<inter> members t"
      using o lo_le_hi [OF assms(2)] le_refl by (simp add: overlap_def members_def)
    then show ?thesis by blast
  next
    case False
    then have "le (key (lo t)) (key (lo s))" using le_total by blast
    then have "lo s \<in> members s \<inter> members t"
      using o lo_le_hi [OF assms(1)] le_refl by (simp add: overlap_def members_def)
    then show ?thesis by blast
  qed
next
  assume "members s \<inter> members t \<noteq> {}"
  then show "overlap s t" unfolding overlap_def members_def using le_trans by blast
qed

lemma members_nonempty: "valid s \<Longrightarrow> lo s \<in> members s"
  using lo_le_hi le_refl by (simp add: members_def)

lemma overlap_sym: "overlap s t = overlap t s"
  by (auto simp: overlap_def)

end

section \<open>IPv4 addresses, subnets and ranges\<close>

text \<open>The 32 bits of a host, the prefix length of a mask, and the addresses a text stands for.\<close>

definition host_word :: "string \<Rightarrow> 32 word" where
  "host_word s = (case octets s of None \<Rightarrow> 0 | Some (a, b, c, d) \<Rightarrow> word_of_nat (quad_num a b c d))"

definition mask_word :: "string \<Rightarrow> 32 word" where
  "mask_word m = (if CHR ''.'' \<in> set m then host_word m else NOT (mask (32 - dec_val m)))"

definition covers :: "string \<Rightarrow> 32 word set" where
  "covers s =
     (case split_on CHR ''/'' s of
        [a, m] \<Rightarrow> {w. w AND mask_word m = host_word a AND mask_word m}
      | _ \<Rightarrow>
          (case split_sep_ws CHR ''-'' s of
             [a, b] \<Rightarrow> {w. sint (host_word a) \<le> sint w \<and> sint w \<le> sint (host_word b)}
           | _ \<Rightarrow> {host_word s}))"

lemma int_and_not_mask: "(x :: int) AND NOT (mask k) = x - x mod 2 ^ k"
proof -
  have "(x AND NOT (mask k)) + (x AND mask k) = (x AND NOT (mask k)) OR (x AND mask k)"
    by (rule disjunctive_add) (auto simp: bit_simps)
  also have "\<dots> = x" by (rule bit_eqI) (auto simp: bit_simps)
  finally show ?thesis by (simp add: take_bit_eq_mask [symmetric] take_bit_eq_mod)
qed

lemma int_or_mask: "(x AND NOT (mask k)) OR (mask k :: int) = x - x mod 2 ^ k + (2 ^ k - 1)"
proof -
  have "(x AND NOT (mask k)) + mask k = (x AND NOT (mask k)) OR mask k"
    by (rule disjunctive_add) (auto simp: bit_simps)
  then show ?thesis by (simp only: int_and_not_mask) (simp only: mask_eq_exp_minus_1)
qed

lemma sint_mask:
  assumes "k \<le> 31"
  shows "sint (mask k :: 32 word) = mask k" "sint (NOT (mask k) :: 32 word) = NOT (mask k)"
proof -
  have "(2 :: int) ^ k \<le> 2 ^ 31" using assms by (intro power_increasing) auto
  then have "sint (word_of_int (mask k) :: 32 word) = mask k"
    by (subst sint_wrap) (auto simp: mask_eq_exp_minus_1)
  moreover have "(word_of_int (mask k) :: 32 word) = mask k" by (simp only: of_int_mask_eq)
  ultimately show m: "sint (mask k :: 32 word) = mask k" by simp
  have "- (2 ^ 32) \<le> NOT (mask k :: int) \<and> NOT (mask k :: int) < 2 ^ 32"
  proof -
    have "(2 :: int) ^ 31 \<le> 2 ^ 32" "(0 :: int) < 2 ^ k" by simp_all
    with \<open>(2 :: int) ^ k \<le> 2 ^ 31\<close> show ?thesis unfolding not_int_def mask_eq_exp_minus_1 by linarith
  qed
  then have "signed_take_bit 32 (NOT (mask k :: int)) = NOT (mask k)"
    by (intro signed_take_bit_int_eq_self) auto
  then show "sint (NOT (mask k) :: 32 word) = NOT (mask k)" using m by (simp add: signed_not_eq)
qed

text \<open>The addresses of a subnet are the ones between its first and last, as signed numbers.\<close>

lemma subnet_interval:
  fixes a w :: "32 word"
  assumes "k \<le> 31"
  shows "w AND NOT (mask k) = a AND NOT (mask k) \<longleftrightarrow>
    sint (a AND NOT (mask k)) \<le> sint w \<and> sint w \<le> sint ((a AND NOT (mask k)) OR mask k)"
proof -
  define x y :: int where "x = sint a" and "y = sint w"
  note m = sint_mask [OF assms]
  have lo: "sint (v AND NOT (mask k)) = sint v - sint v mod 2 ^ k" for v :: "32 word"
    by (simp add: signed_and_eq m int_and_not_mask)
  have hi: "sint ((a AND NOT (mask k)) OR mask k) = x - x mod 2 ^ k + (2 ^ k - 1)"
    unfolding x_def signed_or_eq signed_and_eq m by (rule int_or_mask)
  have "w AND NOT (mask k) = a AND NOT (mask k) \<longleftrightarrow> sint (w AND NOT (mask k)) = sint (a AND NOT (mask k))"
    by (auto intro: signed_word_eqI)
  also have "\<dots> \<longleftrightarrow> y - y mod 2 ^ k = x - x mod 2 ^ k" by (simp add: lo x_def y_def)
  also have "\<dots> \<longleftrightarrow> x - x mod 2 ^ k \<le> y \<and> y \<le> x - x mod 2 ^ k + (2 ^ k - 1)"
  proof
    assume "y - y mod 2 ^ k = x - x mod 2 ^ k"
    moreover have "0 \<le> y mod 2 ^ k" "y mod 2 ^ k < 2 ^ k" by simp_all
    ultimately show "x - x mod 2 ^ k \<le> y \<and> y \<le> x - x mod 2 ^ k + (2 ^ k - 1)" by linarith
  next
    assume b: "x - x mod 2 ^ k \<le> y \<and> y \<le> x - x mod 2 ^ k + (2 ^ k - 1)"
    define q where "q = x div 2 ^ k"
    have x: "x - x mod 2 ^ k = 2 ^ k * q" by (simp add: q_def minus_mod_eq_mult_div)
    have "y div 2 ^ k = q"
      using b unfolding x by (intro int_div_pos_eq [of _ _ _ "y - 2 ^ k * q"]) auto
    then show "y - y mod 2 ^ k = x - x mod 2 ^ k" unfolding x by (simp add: minus_mod_eq_mult_div)
  qed
  finally show ?thesis by (simp add: lo hi x_def y_def)
qed

lemma host_int:
  assumes "host_text a"
  shows "getIpInteger (Some a) = Some (sint (host_word a))"
proof -
  obtain p q r d where o: "octets a = Some (p, q, r, d)" "p < 256" "q < 256" "r < 256" "d < 255"
    using assms by (auto simp: host_text_def)
  then show ?thesis
    using getIpInteger_octets [OF o(1-4)] addr_int_sint [of p q r d] by (simp add: host_word_def)
qed

lemma word_not_mask: "k \<le> 32 \<Longrightarrow> (word_of_nat (2 ^ 32 - 2 ^ k) :: 32 word) = NOT (mask k)"
proof -
  assume "k \<le> 32"
  then have "(2 :: nat) ^ k \<le> 2 ^ 32" by (intro power_increasing) auto
  then have "(word_of_nat (2 ^ 32 - 2 ^ k) :: 32 word) = word_of_nat (2 ^ 32) - word_of_nat (2 ^ k)"
    by (rule of_nat_diff)
  also have "\<dots> = NOT (mask k)" by (simp add: mask_eq_exp_minus_1 not_eq_complement)
  finally show ?thesis .
qed

lemma mask_dotted:
  assumes "mask_text m"
  shows "\<exists>n \<le> 32. octets m = Some (mask_byte n, mask_byte (n - 8), mask_byte (n - 16), mask_byte (n - 24))
    \<and> host_word m = NOT (mask (32 - n)) \<and> getIpInteger (Some m) = Some (sint (host_word m)) \<and> CHR ''.'' \<in> set m"
proof -
  obtain n where n: "n \<le> 32" "octets m = Some (mask_byte n, mask_byte (n - 8), mask_byte (n - 16), mask_byte (n - 24))"
    using assms by (auto simp: mask_text_def)
  have "host_word m = NOT (mask (32 - n))"
    using n word_not_mask [of "32 - n"] by (simp add: host_word_def netmask_num)
  moreover have "getIpInteger (Some m) = Some (sint (host_word m))"
    using getIpInteger_octets [OF n(2)] addr_int_sint [of "mask_byte n" "mask_byte (n - 8)" "mask_byte (n - 16)" "mask_byte (n - 24)"]
      mask_byte_facts(1) n(2) by (simp add: host_word_def)
  moreover have "CHR ''.'' \<in> set m"
  proof (rule ccontr)
    assume "CHR ''.'' \<notin> set m"
    then have "octets m = None" by (simp add: octets_def)
    with n(2) show False by simp
  qed
  ultimately show ?thesis using n by blast
qed

lemma mask_number_int:
  assumes "number_in 1 31 m"
  shows "getMaskInteger (Some m) = sint (NOT (mask (32 - dec_val m)) :: 32 word)" "CHR ''.'' \<notin> set m"
proof -
  have m: "m \<noteq> []" "list_all is_digit m" "1 \<le> dec_val m" "dec_val m \<le> 31"
    using assms by (auto simp: number_in_def number_text_def)
  have "(32 - int (dec_val m)) mod 32 = 32 - int (dec_val m)" using m by (intro mod_pos_pos_trivial) auto
  then have "nat ((32 - int (dec_val m)) mod 32) = 32 - dec_val m" by simp
  then show "getMaskInteger (Some m) = sint (NOT (mask (32 - dec_val m)) :: 32 word)"
    using m by (simp add: getMaskInteger_def parsePaddedInt_digits js_shl_var_def js_shl_def toInt32_def
        push_bit_minus_one_eq_not_mask)
  show "CHR ''.'' \<notin> set m" using m(2) by (rule digits_no_dot)
qed

text \<open>
  The texts the IPv4 overlap test is for: hosts, subnets with a mask that is not zero, and ranges in
  order, without blanks.
\<close>

definition range4 :: "string \<Rightarrow> bool" where
  "range4 s \<longleftrightarrow> address_text s \<and> (\<forall>c \<in> set s. \<not> is_ws c)
     \<and> (\<forall>a m. split_on CHR ''/'' s = [a, m] \<longrightarrow> octets m \<noteq> Some (0, 0, 0, 0))"

lemma subnet_mask_word:
  assumes "mask_text m \<and> octets m \<noteq> Some (0, 0, 0, 0) \<or> number_in 1 31 m"
  shows "\<exists>k \<le> 31. mask_word m = NOT (mask k) \<and>
    (if CHR ''.'' \<in> set m then getIpInteger (Some m) else Some (getMaskInteger (Some m))) = Some (sint (mask_word m))"
  using assms
proof
  assume m: "mask_text m \<and> octets m \<noteq> Some (0, 0, 0, 0)"
  then obtain n where n: "n \<le> 32" "octets m = Some (mask_byte n, mask_byte (n - 8), mask_byte (n - 16), mask_byte (n - 24))"
      "host_word m = NOT (mask (32 - n))" "getIpInteger (Some m) = Some (sint (host_word m))" "CHR ''.'' \<in> set m"
    using mask_dotted by blast
  have "n \<noteq> 0"
  proof
    assume "n = 0"
    with n(2) m show False by (simp add: mask_byte_facts)
  qed
  then show ?thesis using n by (intro exI [of _ "32 - n"]) (simp add: mask_word_def)
next
  assume m: "number_in 1 31 m"
  then have "1 \<le> dec_val m" by (simp add: number_in_def)
  with mask_number_int [OF m] show ?thesis by (intro exI [of _ "32 - dec_val m"]) (simp add: mask_word_def)
qed

lemma js_bit_ops:
  "js_and (Some (sint (a :: 32 word))) (Some (sint b)) = sint (a AND b)"
  "js_or (Some (sint a)) (Some (sint b)) = sint (a OR b)" "js_not (Some (sint a)) = sint (NOT a)"
  by (simp_all add: js_and_def js_or_def js_not_def toInt32_def)

lemma split_sep_ws_blank_free:
  assumes "\<forall>x \<in> set s. \<not> is_ws x" shows "split_sep_ws c s = split_on c s"
proof -
  have ids: "rtrim w = w \<and> ltrim w = w" if "w \<in> set (split_on c s)" for w
    using that assms split_on_part_subset [of w c s] by (intro conjI rtrim_id ltrim_id) auto
  have "trim_pieces ws = ws" if "\<forall>w \<in> set ws. rtrim w = w \<and> ltrim w = w" for ws
    using that by (induction ws rule: trim_pieces.induct) auto
  then show ?thesis
    using ids by (auto simp: split_sep_ws_def split: list.split)
qed

lemma range4_cases:
  assumes "range4 s"
  obtains (host) "host_text s" "CHR ''/'' \<notin> set s" "CHR ''-'' \<notin> set s"
  | (subnet) a m where "s = a @ CHR ''/'' # m" "host_text a" "split_on CHR ''/'' s = [a, m]"
      "mask_text m \<and> octets m \<noteq> Some (0, 0, 0, 0) \<or> number_in 1 31 m"
  | (dash) a b where "s = a @ CHR ''-'' # b" "host_text a" "host_text b" "split_on CHR ''-'' s = [a, b]" "CHR ''/'' \<notin> set s"
      "sint (host_word a) \<le> sint (host_word b)"
proof (cases "CHR ''-'' \<in> set s")
  case True
  then obtain a b where ab: "split_on CHR ''-'' s = [a, b]" "host_text a" "host_text b"
      "num_le (getIpInteger (Some a)) (getIpInteger (Some b))"
    using assms by (auto simp: range4_def address_text_def host_range_text_def split_sep_ws_blank_free)
  then have s: "s = a @ CHR ''-'' # b" by (auto simp: split_on_eq_iff)
  moreover have "CHR ''/'' \<notin> set s" using s ab host_text_no(1) by auto
  moreover have "sint (host_word a) \<le> sint (host_word b)"
    using ab(4) host_int [OF ab(2)] host_int [OF ab(3)] by (simp add: num_le_def)
  ultimately show thesis using dash ab by blast
next
  case False
  then have "subnet_text s" using assms by (simp add: range4_def address_text_def)
  then show thesis
    unfolding subnet_text_def
  proof
    assume "host_text s"
    then show thesis using host host_text_no by blast
  next
    assume "\<exists>a m. s = a @ CHR ''/'' # m \<and> host_text a \<and> (mask_text m \<or> number_in 1 31 m)"
    then obtain a m where am: "s = a @ CHR ''/'' # m" "host_text a" "mask_text m \<or> number_in 1 31 m" by blast
    then have "CHR ''/'' \<notin> set a" "CHR ''/'' \<notin> set m"
      using host_text_no(1) mask_no_slash number_no_slash(1) by (auto simp: number_in_def)
    then have sp: "split_on CHR ''/'' s = [a, m]" using am(1) by (auto simp: split_on_eq_iff)
    then have "octets m \<noteq> Some (0, 0, 0, 0)" using assms by (simp add: range4_def)
    then show thesis using subnet am sp by blast
  qed
qed

lemma range4_ints:
  assumes "range4 s"
  shows "\<exists>(lo :: 32 word) (hi :: 32 word). getIpRangeIntegers s = (Some (sint lo), Some (sint hi)) \<and> sint lo \<le> sint hi
    \<and> covers s = {w. sint lo \<le> sint w \<and> sint w \<le> sint hi}"
proof -
  have blank: "\<forall>c \<in> set s. \<not> is_ws c" using assms by (simp add: range4_def)
  from assms show ?thesis
  proof (cases rule: range4_cases)
    case host
    then have "covers s = {w. sint (host_word s) \<le> sint w \<and> sint w \<le> sint (host_word s)}"
      by (auto simp: covers_def intro: signed_word_eqI antisym)
    moreover have "getIpRangeIntegers s = (Some (sint (host_word s)), Some (sint (host_word s)))"
      using host by (simp add: getIpRangeIntegers_def host_int)
    ultimately show ?thesis by (intro exI [of _ "host_word s"]) simp
  next
    case (subnet a m)
    then obtain k where k: "k \<le> 31" "mask_word m = NOT (mask k)"
        "(if CHR ''.'' \<in> set m then getIpInteger (Some m) else Some (getMaskInteger (Some m))) = Some (sint (mask_word m))"
      using subnet_mask_word by blast
    let ?lo = "host_word a AND NOT (mask k)" and ?hi = "(host_word a AND NOT (mask k)) OR mask k"
    have sp: "split_sep_ws CHR ''/'' s = [a, m]" by (simp only: split_sep_ws_blank_free [OF blank] subnet(3))
    have "CHR ''/'' \<in> set s" using subnet(1) by simp
    then have "getIpRangeIntegers s =
        (let ipMaskInt = (if CHR ''.'' \<in> set m then getIpInteger (Some m) else Some (getMaskInteger (Some m)));
             startInt = js_and (getIpInteger (Some a)) ipMaskInt
         in (Some startInt, Some (js_or (Some startInt) (Some (js_not ipMaskInt)))))"
      by (simp add: getIpRangeIntegers_def sp nth_opt_def Let_def)
    then have "getIpRangeIntegers s = (Some (sint ?lo), Some (sint ?hi))"
      unfolding k(3) host_int [OF subnet(2)] Let_def js_bit_ops k(2) by simp
    moreover have "covers s = {w. sint ?lo \<le> sint w \<and> sint w \<le> sint ?hi}"
      unfolding covers_def subnet(3) by (simp add: k(2) subnet_interval [OF k(1)])
    moreover have "sint ?lo \<le> sint ?hi"
      using subnet_interval [OF k(1), of "host_word a" "host_word a"] by simp
    ultimately show ?thesis by blast
  next
    case (dash a b)
    have sp: "split_sep_ws CHR ''-'' s = [a, b]" by (simp only: split_sep_ws_blank_free [OF blank] dash(4))
    have "CHR ''-'' \<in> set s" using dash(1) by simp
    then have "getIpRangeIntegers s = (Some (sint (host_word a)), Some (sint (host_word b)))"
      using dash(2,3,5) by (simp add: getIpRangeIntegers_def sp nth_opt_def host_int Let_def)
    moreover have "covers s = {w. sint (host_word a) \<le> sint w \<and> sint w \<le> sint (host_word b)}"
      using dash(5) by (simp add: covers_def sp)
    ultimately show ?thesis using dash(6) by blast
  qed
qed

definition range4_lo :: "string \<Rightarrow> 32 word" where
  "range4_lo s = (case fst (getIpRangeIntegers s) of None \<Rightarrow> 0 | Some i \<Rightarrow> word_of_int i)"

definition range4_hi :: "string \<Rightarrow> 32 word" where
  "range4_hi s = (case snd (getIpRangeIntegers s) of None \<Rightarrow> 0 | Some i \<Rightarrow> word_of_int i)"

lemma range4_bounds:
  assumes "range4 s"
  shows "getIpRangeIntegers s = (Some (sint (range4_lo s)), Some (sint (range4_hi s)))"
    "sint (range4_lo s) \<le> sint (range4_hi s)"
    "covers s = {w. sint (range4_lo s) \<le> sint w \<and> sint w \<le> sint (range4_hi s)}"
proof -
  from range4_ints [OF assms] obtain lo hi :: "32 word"
    where r: "getIpRangeIntegers s = (Some (sint lo), Some (sint hi))" "sint lo \<le> sint hi"
      "covers s = {w. sint lo \<le> sint w \<and> sint w \<le> sint hi}"
    by (elim exE conjE) (rule that)
  moreover have lh: "range4_lo s = lo" "range4_hi s = hi"
    using r(1) by (simp_all add: range4_lo_def range4_hi_def)
  ultimately show "getIpRangeIntegers s = (Some (sint (range4_lo s)), Some (sint (range4_hi s)))"
    "sint (range4_lo s) \<le> sint (range4_hi s)"
    "covers s = {w. sint (range4_lo s) \<le> sint w \<and> sint w \<le> sint (range4_hi s)}" by (simp_all only: lh)
qed

interpretation v4: addr_range "(\<le>)" sint range4_lo range4_hi range4
  by unfold_locales (auto dest: range4_bounds(2))

text \<open>Texts of digits, dots, slashes and dashes are not changed before the test.\<close>

lemma range4_chars: "range4 s \<Longrightarrow> c \<in> set s \<Longrightarrow> is_digit c \<or> c = CHR ''.'' \<or> c = CHR ''/'' \<or> c = CHR ''-''"
proof (elim range4_cases)
  have host: "x \<in> set a \<Longrightarrow> host_text a \<Longrightarrow> is_digit x \<or> x = CHR ''.''" for x a
    using octets_chars [of a _ x] by (auto simp: host_text_def)
  show "host_text s \<Longrightarrow> c \<in> set s \<Longrightarrow> ?thesis" using host by blast
  fix a m
  have msk: "x \<in> set m \<Longrightarrow> mask_text m \<or> number_in 1 31 m \<Longrightarrow> is_digit x \<or> x = CHR ''.''" for x
    using octets_chars [of m _ x] by (auto simp: mask_text_def number_in_def number_text_def list_all_iff)
  show "c \<in> set s \<Longrightarrow> s = a @ CHR ''/'' # m \<Longrightarrow> host_text a \<Longrightarrow>
      mask_text m \<and> octets m \<noteq> Some (0, 0, 0, 0) \<or> number_in 1 31 m \<Longrightarrow> ?thesis"
    using host [of c a] msk [of c] by auto
  show "c \<in> set s \<Longrightarrow> s = a @ CHR ''-'' # m \<Longrightarrow> host_text a \<Longrightarrow> host_text m \<Longrightarrow> ?thesis"
    using host [of c a] host [of c m] by auto
qed

lemma range4_plain:
  assumes "range4 s"
  shows "s \<noteq> []" "\<forall>c \<in> set s. \<not> is_ws c" "CHR '','' \<notin> set s" "CHR '':'' \<notin> set s" "overlap_adj s = s"
    "validateMultipleIps s = 0" "validateMac s \<noteq> 0"
proof -
  show ne: "s \<noteq> []"
    using assms by (cases rule: range4_cases) (auto simp: host_text_def octets_def)
  show ws: "\<forall>c \<in> set s. \<not> is_ws c" using assms by (simp add: range4_def)
  note chars = range4_chars [OF assms]
  show comma: "CHR '','' \<notin> set s" and colon: "CHR '':'' \<notin> set s"
    using chars [of "CHR '',''"] chars [of "CHR '':''"] by (auto simp: is_digit_def)
  have "upper_char c = c" if "c \<in> set s" for c
    using chars [OF that] by (auto simp: upper_char_def is_digit_def)
  then have up: "map upper_char s = s" by (simp add: map_idI)
  have "CHR ''A'' \<notin> set s" using chars [of "CHR ''A''"] by (auto simp: is_digit_def)
  then have "s \<noteq> ''ALL_OTHERS_COMBINED'' \<and> s \<noteq> ''ALL_OTHERS_INDIVIDUAL''" by auto
  then show "overlap_adj s = s" using ne up by (simp add: overlap_adj_def Let_def)
  show "validateMultipleIps s = 0"
    using assms comma ltrim_id [OF ws] rtrim_id [OF ws] by (simp add: addresses.code_iff range4_def)
  show "validateMac s \<noteq> 0"
    using colon by (simp add: mac.code_iff mac_text_def)
qed

lemma single_overlap_v4:
  assumes "range4 s" "range4 t"
  shows "testSingleAddrOverlap s t False = Inr (covers s \<inter> covers t \<noteq> {})"
proof -
  have cov: "covers s = v4.members s" "covers t = v4.members t"
    using range4_bounds(3) [OF assms(1)] range4_bounds(3) [OF assms(2)] by (simp_all add: v4.members_def)
  show ?thesis
  proof (cases "s = t")
    case True
    then show ?thesis
      using v4.members_nonempty [OF assms(1)] cov by (auto simp: testSingleAddrOverlap_def)
  next
    case False
    then show ?thesis
      using range4_plain [OF assms(1)] range4_plain [OF assms(2)] range4_bounds(1) [OF assms(1)]
        range4_bounds(1) [OF assms(2)]
      by (simp add: testSingleAddrOverlap_def num_le_def cov v4.overlap_iff [OF assms, symmetric] v4.overlap_def)
  qed
qed

lemma split_runs_join:
  assumes "ws \<noteq> []" "\<forall>w \<in> set ws. w \<noteq> [] \<and> (\<forall>c \<in> set w. \<not> P c)" "P d"
  shows "split_runs P (join [d] ws) = ws"
proof -
  have one: "split_runs_aux P b (w @ d # s) = w # split_runs_aux P True s"
    if "w \<noteq> []" "\<forall>c \<in> set w. \<not> P c" for w b s
    using that assms(3)
  proof (induction w arbitrary: b)
    case (Cons c w)
    then show ?case by (cases w) auto
  qed simp
  have last: "split_runs_aux P b w = [w]" if "w \<noteq> []" "\<forall>c \<in> set w. \<not> P c" for w b
    using that
  proof (induction w arbitrary: b)
    case (Cons c w)
    then show ?case by (cases w) auto
  qed simp
  have "split_runs_aux P b (join [d] ws) = ws" for b
    using assms(1,2)
  proof (induction ws arbitrary: b rule: list_nonempty_induct)
    case (single w)
    then show ?case by (simp add: last)
  next
    case (cons w ws)
    then have "join [d] (w # ws) = w @ d # join [d] ws" by (cases ws) auto
    then show ?case using cons one [of w b] by simp
  qed
  then show ?thesis by (simp add: split_runs_def)
qed

lemma join_range4_blank:
  assumes "list_all range4 ts"
  shows "\<forall>c \<in> set (join '','' ts). \<not> is_ws c"
proof
  fix c assume "c \<in> set (join '','' ts)"
  then consider "c = CHR '',''" | t where "t \<in> set ts" "c \<in> set t" using set_join [of "'',''" ts] by auto
  then show "\<not> is_ws c"
  proof cases
    case 1
    then show ?thesis by (simp add: is_ws_def)
  next
    case 2
    then show ?thesis using range4_plain(2) [of t] assms by (simp add: list_all_iff)
  qed
qed

lemma overlap_list_v4:
  assumes "range4 a" "list_all range4 ts" "ts \<noteq> []"
  shows "testAddrOverlap a (join '','' ts) False = Inr (\<exists>t \<in> set ts. covers a \<inter> covers t \<noteq> {})"
proof -
  note blank = join_range4_blank [OF assms(2)]
  have sep: "t \<noteq> [] \<and> (\<forall>c \<in> set t. \<not> addr_sep c)" if "range4 t" for t
    using range4_plain(1-3) [OF that] by (auto simp: addr_sep_def)
  have "rtrim (ltrim a) = a"
    using range4_plain(2) [OF assms(1)] by (simp add: ltrim_id rtrim_id)
  then have a: "split_runs addr_sep (rtrim (ltrim a)) = [a]" using sep [OF assms(1)] by simp
  have "split_runs addr_sep (join '','' ts) = ts"
    using assms(2,3) sep by (intro split_runs_join) (auto simp: addr_sep_def list_all_iff)
  then have t: "split_runs addr_sep (rtrim (ltrim (join '','' ts))) = ts"
    using ltrim_id [OF blank] rtrim_id [OF blank] by simp
  have "fold_res (overlap_step False) (map (Pair a) ts) f = Inr (f \<or> (\<exists>t \<in> set ts. covers a \<inter> covers t \<noteq> {}))" for f
    using assms(2)
    by (induction ts arbitrary: f) (auto simp: overlap_step_def single_overlap_v4 [OF assms(1)])
  then show ?thesis by (simp add: testAddrOverlap_def Let_def a t)
qed

text \<open>The addresses of a table share no member.\<close>

definition rows_disjoint :: "string list \<Rightarrow> bool" where
  "rows_disjoint rows \<longleftrightarrow> sorted_wrt (\<lambda>s t. covers s \<inter> covers t = {}) rows"

lemma rows_disjoint_snoc:
  "rows_disjoint (xs @ [a]) \<longleftrightarrow> rows_disjoint xs \<and> (\<forall>t \<in> set xs. covers a \<inter> covers t = {})"
  by (auto simp: rows_disjoint_def sorted_wrt_append Int_commute)

lemma rows_disjoint_prefix: "rows_disjoint (xs @ ys) \<Longrightarrow> rows_disjoint xs"
  by (simp add: rows_disjoint_def sorted_wrt_append)

lemma add_none: "fold_res (add_addr_step m k f) xs None = Inr None"
  by (induction xs) (auto simp: add_addr_step_def)

lemma add_addrs_v4:
  assumes "list_all range4 new" "list_all range4 ips" "rows_disjoint ips"
  shows "fold_res (add_addr_step m 3 validateMultipleIps) new (Some (macs, ips)) =
    Inr (if rows_disjoint (ips @ new) then Some (macs, ips @ new) else None)"
  using assms
proof (induction new arbitrary: ips)
  case Nil
  then show ?case by simp
next
  case (Cons a new)
  then have a: "range4 a" "list_all range4 new" by simp_all
  have step: "add_addr_step m 3 validateMultipleIps a (Some (macs, ips)) =
      Inr (if rows_disjoint (ips @ [a]) then Some (macs, ips @ [a]) else None)"
    using range4_plain(6,7) [OF a(1)] overlap_list_v4 [OF a(1) Cons.prems(2)] Cons.prems(3)
    by (auto simp: add_addr_step_def rows_disjoint_snoc Let_def)
  show ?case
  proof (cases "rows_disjoint (ips @ [a])")
    case True
    with Cons.IH [OF a(2), of "ips @ [a]"] Cons.prems(2) a(1) step show ?thesis by simp
  next
    case False
    then have "\<not> rows_disjoint (ips @ a # new)" using rows_disjoint_prefix [of "ips @ [a]" new] by auto
    with False step show ?thesis by (simp add: add_none)
  qed
qed

lemma range4_IPv4: "range4 s \<Longrightarrow> CHR ''-'' \<notin> set s \<Longrightarrow> \<not> isIPv6 s"
  by (auto simp: isIPv6_def getIPFamily_def ip_range.code_iff range4_def address_text_def)

lemma stored_range4: "range4 s \<Longrightarrow> stored_addr s = s"
proof (cases "CHR ''-'' \<in> set s")
  case True
  assume "range4 s"
  then obtain a b where ab: "split_on CHR ''-'' s = [a, b]" "host_text a"
    using True by (auto simp: range4_def address_text_def host_range_text_def split_sep_ws_blank_free)
  then have "\<not> isIPv6 a" by (simp add: isIPv6_def getIPFamily_def ip_range.code_iff subnet_text_def)
  with ab True show ?thesis by (simp add: stored_addr_def)
next
  case False
  assume "range4 s"
  with False show ?thesis by (simp add: stored_addr_def range4_IPv4)
qed

section \<open>Properties\<close>



text \<open>
  Three addresses the overlap test does not see. A mask of 0.0.0.0 stands for every address, but
  the subnet's first and last address compared as signed numbers are 0 and -1, so it overlaps nothing.
  Blanks around the dash of a range are accepted by the validator but cut the range in pieces that are
  not compared as one. Type 5 of the address table (IPv6 address or subnet) names a validator that
  does not exist, so every call with it raises a ReferenceError.
\<close>

theorem overlap_test_misses:
  "testSingleAddrOverlap ''1.2.3.4/0.0.0.0'' ''10.0.0.1'' False = Inr False
   \<and> validateMultipleIps ''1.2.3.4/0.0.0.0'' = 0
   \<and> addAddressStringToTable True 3 ''1.2.3.4 - 1.2.3.9'' [''1.2.3.5''] = Inr ([''1.2.3.5'', ''1.2.3.4 - 1.2.3.9''], True)
   \<and> addAddressStringToTable macsValid 5 newAddrs rows = Inl ReferenceError"
proof (intro conjI)
  show "testSingleAddrOverlap ''1.2.3.4/0.0.0.0'' ''10.0.0.1'' False = Inr False" by code_simp
  show "validateMultipleIps ''1.2.3.4/0.0.0.0'' = 0" by code_simp
  show "addAddressStringToTable True 3 ''1.2.3.4 - 1.2.3.9'' [''1.2.3.5''] = Inr ([''1.2.3.5'', ''1.2.3.4 - 1.2.3.9''], True)"
    by code_simp
  show "addAddressStringToTable macsValid 5 newAddrs rows = Inl ReferenceError"
    by (simp add: addAddressStringToTable_def ip_valid_function_def)
qed

lemma demo_ranges: "range4 ''10.0.0.0/8''" "range4 ''10.1.0.9''" "range4 ''11.0.0.1-11.0.0.9''"
proof -
  have addr: "range4 s" if "validateMultipleIps s = 0" "list_all (\<lambda>c. \<not> is_ws c) s" "CHR '','' \<notin> set s"
    "(case split_on CHR ''/'' s of [a, m] \<Rightarrow> octets m \<noteq> Some (0, 0, 0, 0) | _ \<Rightarrow> True)" for s
    using that ltrim_id [of s] rtrim_id [of s]
    by (auto simp: range4_def addresses.code_iff list_all_iff split: list.splits)
  show "range4 ''10.0.0.0/8''" "range4 ''10.1.0.9''" "range4 ''11.0.0.1-11.0.0.9''"
    by (rule addr; code_simp)+
qed



end
