(* ===== verification/Quota_Times.thy ===== *)
theory Quota_Times
  imports Addr_Overlap
begin

text \<open>
  The active times of a quota as ranges of seconds in the week: \<open>getDaySeconds\<close> to \<open>rangesOverlap\<close> of
  \<open>quotas.js\<close>. The week starts on Sunday and has 604800 seconds. The day names of the interface
  language (\<open>UI.Sun\<close> to \<open>UI.Sat\<close>, a translation table) are the argument \<open>ui\<close>.
\<close>

section \<open>Seconds of a day and of a week\<close>

definition getDaySeconds :: "nat \<Rightarrow> nat" where
  "getDaySeconds offset = offset div (60 * 60 * 24) * (60 * 60 * 24)"

definition getHourSeconds :: "nat \<Rightarrow> nat" where
  "getHourSeconds offset = (offset mod (60 * 60 * 24)) div (60 * 60) * (60 * 60)"

definition day_len :: nat where "day_len = 24 * 60 * 60"
definition week_len :: nat where "week_len = 7 * 24 * 60 * 60"

text \<open>\<open>dayToIndex[name]\<close>: the table is filled from Sunday to Saturday, so a later equal name wins.\<close>

definition day_index :: "string list \<Rightarrow> string \<Rightarrow> nat option" where
  "day_index ui name = map_of (rev (zip (map (map upper_char) ui) [0 ..< 7])) (map upper_char (take 3 name))"

text \<open>\<open>parsePaddedInt(x) + "" != "NaN" ? parsePaddedInt(x) : 0\<close> on a piece without a sign.\<close>

definition padded_num :: "string option \<Rightarrow> nat" where
  "padded_num x = (case parsePaddedInt x of None \<Rightarrow> 0 | Some n \<Rightarrow> nat n)"

definition time_sep :: "char \<Rightarrow> bool" where
  "time_sep c \<longleftrightarrow> c = CHR '':'' \<or> is_ws c"

definition hour_piece :: "string \<Rightarrow> nat" where
  "hour_piece piece =
     (let sp = split_runs time_sep piece
      in padded_num (nth_opt sp 0) * 60 * 60 + padded_num (nth_opt sp 1) * 60
         + (case nth_opt sp 2 of None \<Rightarrow> 0 | Some s \<Rightarrow> padded_num (Some s)))"

definition week_piece :: "string list \<Rightarrow> string \<Rightarrow> nat" where
  "week_piece ui piece =
     (let sp = split_runs time_sep piece
      in (case day_index ui (sp ! 0) of Some d \<Rightarrow> d * 24 * 60 * 60 | None \<Rightarrow> 0)
         + padded_num (nth_opt sp 1) * 60 * 60 + padded_num (nth_opt sp 2) * 60
         + (case nth_opt sp 3 of None \<Rightarrow> 0 | Some s \<Rightarrow> padded_num (Some s)))"

text \<open>The pieces of one pair; \<open>pieces[1].split\<close> is a TypeError when there is no dash.\<close>

definition parse_pair :: "(string \<Rightarrow> nat) \<Rightarrow> string \<Rightarrow> (nat \<times> nat) js_result" where
  "parse_pair parsePiece pair =
     (let pieces = split_sep_ws CHR ''-'' pair
      in case nth_opt pieces 1 of
           None \<Rightarrow> Inl TypeError
         | Some q \<Rightarrow> Inr (parsePiece (pieces ! 0), parsePiece q))"

definition pair_step :: "(string \<Rightarrow> nat) \<Rightarrow> string \<Rightarrow> (nat \<times> nat) list \<Rightarrow> (nat \<times> nat) list js_result" where
  "pair_step parsePiece pair ranges = res_bind (parse_pair parsePiece pair) (\<lambda>r. Inr (ranges @ [r]))"

section \<open>Ranges\<close>

text \<open>
  \<open>splitRangesAtEnd\<close>: a range that ends before it starts goes on to the end of the period, and its rest
  is put at the end of the list the loop is still reading.
\<close>

function split_ranges :: "nat \<Rightarrow> (nat \<times> nat) list \<Rightarrow> (nat \<times> nat) list" where
  "split_ranges mx [] = []"
| "split_ranges mx ((s, e) # q) =
     (if e < s then (s, mx) # split_ranges mx (q @ [(0, e)]) else (s, e) # split_ranges mx q)"
  by pat_completeness auto
termination
  by (relation "measure (\<lambda>(mx, q). \<Sum>(s, e) \<leftarrow> q. if e < s then 2 else 1)") auto

fun flat_pairs :: "(nat \<times> nat) list \<Rightarrow> nat list" where
  "flat_pairs [] = []"
| "flat_pairs ((s, e) # ps) = s # e # flat_pairs ps"

definition splitRangesAtEnd :: "(nat \<times> nat) list \<Rightarrow> nat \<Rightarrow> nat list" where
  "splitRangesAtEnd rangeList mx = flat_pairs (sort_key fst (split_ranges mx rangeList))"

definition valid_days :: "string list \<Rightarrow> string \<Rightarrow> bool list" where
  "valid_days ui days =
     (if days = [] then replicate 7 True
      else fold (\<lambda>d v. case day_index ui d of None \<Rightarrow> v | Some i \<Rightarrow> v[i := True])
             (split_sep_ws CHR '','' days) (replicate 7 False))"

definition hour_ranges :: "string \<Rightarrow> nat list js_result" where
  "hour_ranges hours =
     res_bind (if hours = [] then Inr []
               else res_bind (fold_res (pair_step hour_piece) (map (\<lambda>p. rtrim (ltrim p)) (split_sep_ws CHR '','' hours)) [])
                      (\<lambda>rs. Inr (splitRangesAtEnd rs (24 * 60 * 60))))
       (\<lambda>hr. Inr (if hr = [] then [0, 24 * 60 * 60] else hr))"

definition day_ranges :: "bool list \<Rightarrow> nat list \<Rightarrow> nat list" where
  "day_ranges validDays hourRanges =
     concat (map (\<lambda>d. if validDays ! d then map (\<lambda>h. d * 24 * 60 * 60 + h) hourRanges else [])
       [0 ..< length validDays])"

definition invert_ranges :: "nat list \<Rightarrow> nat list" where
  "invert_ranges ranges =
     (let r = (case ranges of [] \<Rightarrow> [0] | x # xs \<Rightarrow> if x = 0 then xs else 0 # ranges)
      in if r \<noteq> [] \<and> last r = week_len then butlast r else r @ [week_len])"

definition timeVariablesToWeeklyRanges :: "string list \<Rightarrow> string \<Rightarrow> string \<Rightarrow> string \<Rightarrow> bool \<Rightarrow> nat list js_result" where
  "timeVariablesToWeeklyRanges ui hours days weekly invert =
     (if hours = [] \<and> days = [] \<and> weekly = [] then Inr [0, week_len]
      else res_bind
        (if weekly \<noteq> []
         then res_bind (fold_res (pair_step (week_piece ui)) (split_sep_ws CHR '','' weekly) [])
                (\<lambda>rs. Inr (splitRangesAtEnd rs week_len))
         else res_bind (hour_ranges hours) (\<lambda>hr. Inr (day_ranges (valid_days ui days) hr)))
        (\<lambda>ranges. Inr (if invert then invert_ranges ranges else ranges)))"

section \<open>Overlap of two lists of ranges\<close>

text \<open>Reading past the end gives \<open>undefined\<close>, which compares as false.\<close>

definition lt_opt :: "nat option \<Rightarrow> nat option \<Rightarrow> bool" where
  "lt_opt x y = (case (x, y) of (Some a, Some b) \<Rightarrow> a < b | _ \<Rightarrow> False)"

text \<open>The inner loop: from the index and the range it has read, to the index it stops at and the verdict.\<close>

function r2_loop :: "nat list \<Rightarrow> nat option \<Rightarrow> nat option \<Rightarrow> nat \<Rightarrow> nat option \<Rightarrow> bool \<Rightarrow> nat \<times> bool" where
  "r2_loop ranges2 r1Start r1End r2Index r2Start found =
     (if \<not> found \<and> lt_opt r2Start r1Start \<and> r2Index < length ranges2
      then (let i = r2Index + 2
            in if i < length ranges2
               then r2_loop ranges2 r1Start r1End i (nth_opt ranges2 i)
                      (lt_opt (nth_opt ranges2 i) r1End \<and> lt_opt r1Start (nth_opt ranges2 (i + 1)))
               else r2_loop ranges2 r1Start r1End i r2Start found)
      else (r2Index, found))"
  by pat_completeness auto
termination
  by (relation "measure (\<lambda>(rs, a, b, i, s, f). length rs - i)") auto

declare r2_loop.simps [simp del]

function r1_loop :: "nat list \<Rightarrow> nat list \<Rightarrow> nat \<Rightarrow> nat \<Rightarrow> bool \<Rightarrow> bool" where
  "r1_loop ranges1 ranges2 r1Index r2Index overlapFound =
     (if r1Index < length ranges1 \<and> \<not> overlapFound
      then (let r1Start = nth_opt ranges1 r1Index; r1End = nth_opt ranges1 (r1Index + 1);
                r2Start = nth_opt ranges2 r2Index; r2End = nth_opt ranges2 (r2Index + 1);
                (i, f) = r2_loop ranges2 r1Start r1End r2Index r2Start (lt_opt r2Start r1End \<and> lt_opt r1Start r2End)
            in r1_loop ranges1 ranges2 (r1Index + 2) i f)
      else overlapFound)"
  by pat_completeness auto
termination
  by (relation "measure (\<lambda>(r1, r2, i, j, f). length r1 - i)") auto

declare r1_loop.simps [simp del]

type_synonym time_params = "string \<times> string \<times> string \<times> bool"

definition rangesOverlap :: "string list \<Rightarrow> time_params \<Rightarrow> time_params \<Rightarrow> bool js_result" where
  "rangesOverlap ui t1 t2 =
     (case (t1, t2) of ((h1, d1, w1, i1), (h2, d2, w2, i2)) \<Rightarrow>
        res_bind (timeVariablesToWeeklyRanges ui h1 d1 w1 i1) (\<lambda>ranges1.
        res_bind (timeVariablesToWeeklyRanges ui h2 d2 w2 i2) (\<lambda>ranges2.
          Inr (r1_loop ranges1 ranges2 0 0 False))))"

section \<open>The seconds of a list of ranges\<close>

definition pair_secs :: "(nat \<times> nat) list \<Rightarrow> nat set" where
  "pair_secs ps = (\<Union>(s, e) \<in> set ps. {s ..< e})"

fun flat_secs :: "nat list \<Rightarrow> nat set" where
  "flat_secs (s # e # r) = {s ..< e} \<union> flat_secs r"
| "flat_secs _ = {}"

text \<open>A range that ends before it starts runs over the end of the period.\<close>

definition wrap_secs :: "nat \<Rightarrow> nat \<times> nat \<Rightarrow> nat set" where
  "wrap_secs mx = (\<lambda>(s, e). if e < s then {s ..< mx} \<union> {0 ..< e} else {s ..< e})"

lemma flat_secs_pairs [simp]: "flat_secs (flat_pairs ps) = pair_secs ps"
  by (induction ps rule: flat_pairs.induct) (auto simp: pair_secs_def)

lemma length_flat_pairs [simp]: "length (flat_pairs ps) = 2 * length ps"
  by (induction ps rule: flat_pairs.induct) auto

lemma flat_pairs_nth:
  assumes "i < length ps"
  shows "nth_opt (flat_pairs ps) (2 * i) = Some (fst (ps ! i))"
    and "nth_opt (flat_pairs ps) (Suc (2 * i)) = Some (snd (ps ! i))"
proof -
  have "flat_pairs ps ! (2 * i) = fst (ps ! i) \<and> flat_pairs ps ! Suc (2 * i) = snd (ps ! i)"
    using assms
  proof (induction ps arbitrary: i rule: flat_pairs.induct)
    case (2 s e ps)
    then show ?case by (cases i) auto
  qed simp
  then show "nth_opt (flat_pairs ps) (2 * i) = Some (fst (ps ! i))"
    "nth_opt (flat_pairs ps) (Suc (2 * i)) = Some (snd (ps ! i))"
    using assms by (simp_all add: nth_opt_def)
qed

lemma pair_secs_sort [simp]: "pair_secs (sort_key f ps) = pair_secs ps"
  by (simp add: pair_secs_def)

lemma split_ranges_secs: "pair_secs (split_ranges mx q) = \<Union> (wrap_secs mx ` set q)"
proof (induction mx q rule: split_ranges.induct)
  case (2 mx s e q)
  then show ?case by (auto simp: pair_secs_def wrap_secs_def)
qed (simp add: pair_secs_def)

lemma splitRangesAtEnd_secs: "flat_secs (splitRangesAtEnd rs mx) = \<Union> (wrap_secs mx ` set rs)"
  by (simp add: splitRangesAtEnd_def split_ranges_secs)

lemma pair_step_fold:
  assumes "map (parse_pair f) ps = map Inr rs"
  shows "fold_res (pair_step f) ps acc = Inr (acc @ rs)"
  using assms
proof (induction ps arbitrary: rs acc)
  case (Cons p ps)
  then obtain r rs' where "rs = r # rs'" "parse_pair f p = Inr r" "map (parse_pair f) ps = map Inr rs'"
    by (cases rs) auto
  then show ?case using Cons.IH [of rs' "acc @ [r]"] by (simp add: pair_step_def)
qed simp

lemma flat_secs_shift: "flat_secs (map ((+) k) xs) = (+) k ` flat_secs xs"
  by (induction xs rule: flat_secs.induct) (auto simp: image_Un)

lemma flat_secs_append: "even (length xs) \<Longrightarrow> flat_secs (xs @ ys) = flat_secs xs \<union> flat_secs ys"
  by (induction xs rule: flat_secs.induct) auto

lemma day_ranges_secs:
  assumes "even (length hr)"
  shows "flat_secs (day_ranges v hr) = {d * day_len + t |d t. d < length v \<and> v ! d \<and> t \<in> flat_secs hr}"
proof -
  have "flat_secs (concat (map (\<lambda>d. if v ! d then map (\<lambda>h. d * 24 * 60 * 60 + h) hr else []) ds)) =
      {d * day_len + t |d t. d \<in> set ds \<and> v ! d \<and> t \<in> flat_secs hr}" for ds
  proof (induction ds)
    case (Cons d ds)
    have "flat_secs (if v ! d then map (\<lambda>h. d * 24 * 60 * 60 + h) hr else []) =
        {d * day_len + t |t. v ! d \<and> t \<in> flat_secs hr}"
      using flat_secs_shift [of "d * 24 * 60 * 60" hr] by (auto simp: day_len_def image_def)
    then show ?case using Cons assms by (auto simp: flat_secs_append)
  qed simp
  then show ?thesis by (simp add: day_ranges_def)
qed

section \<open>Complement\<close>

lemma flat_secs_gaps:
  assumes "even (length xs)" "sorted (x # xs @ [w])"
  shows "flat_secs (x # xs @ [w]) = {x ..< w} - flat_secs xs"
  using assms
proof (induction xs arbitrary: x rule: flat_secs.induct)
  case (1 s e r)
  then have "flat_secs (e # r @ [w]) = {e ..< w} - flat_secs r" by simp
  moreover have "y \<ge> e" if "y \<in> flat_secs r" for y
  proof -
    have "flat_secs r \<subseteq> {e ..< w}" if "sorted (e # r @ [w])" for r e
      using that by (induction r arbitrary: e rule: flat_secs.induct) fastforce+
    moreover have "sorted (e # r @ [w])" using 1 by simp
    ultimately show ?thesis using that by fastforce
  qed
  ultimately show ?case using 1 by (fastforce simp: set_eq_iff)
qed auto

lemma invert_ranges_secs:
  assumes "even (length xs)" "sorted xs" "\<forall>x \<in> set xs. x \<le> week_len"
  shows "flat_secs (invert_ranges xs) = {0 ..< week_len} - flat_secs xs"
proof -
  define full where "full = 0 # xs @ [week_len]"
  have "sorted full" using assms(2,3) by (simp add: full_def sorted_append)
  then have full: "flat_secs full = {0 ..< week_len} - flat_secs xs"
    unfolding full_def using assms(1) by (intro flat_secs_gaps)
  define r where "r = (case xs of [] \<Rightarrow> [0] | x # ys \<Rightarrow> if x = 0 then ys else 0 # xs)"
  have r: "flat_secs (r @ [week_len]) = flat_secs full" "odd (length r)"
    using assms(1) by (auto simp: r_def full_def split: list.split)
  have "flat_secs (if r \<noteq> [] \<and> last r = week_len then butlast r else r @ [week_len]) = flat_secs (r @ [week_len])"
  proof (cases "r \<noteq> [] \<and> last r = week_len")
    case True
    then have "r @ [week_len] = butlast r @ [week_len, week_len]" by (metis append_butlast_last_id append.assoc append_Cons append_Nil)
    moreover have "even (length (butlast r))" using r(2) by simp
    ultimately have "flat_secs (r @ [week_len]) = flat_secs (butlast r)"
      by (simp only: flat_secs_append) simp
    then show ?thesis using True by simp
  next
    case False
    then show ?thesis by (simp only: if_not_P if_False)
  qed
  then show ?thesis unfolding invert_ranges_def Let_def r_def [symmetric] using full r(1) by (simp only:)
qed

section \<open>The overlap scan\<close>

definition pair_overlap :: "nat \<times> nat \<Rightarrow> nat \<times> nat \<Rightarrow> bool" where
  "pair_overlap p q \<longleftrightarrow> fst q < snd p \<and> fst p < snd q"

text \<open>Lists the scan is correct for: ordered by start, and no range is empty.\<close>

definition range_list :: "(nat \<times> nat) list \<Rightarrow> bool" where
  "range_list ps \<longleftrightarrow> sorted (map fst ps) \<and> (\<forall>(s, e) \<in> set ps. s < e)"

lemma range_list_nth:
  assumes "range_list ps" "i < length ps"
  shows "fst (ps ! i) < snd (ps ! i)" and "j < i \<Longrightarrow> fst (ps ! j) \<le> fst (ps ! i)"
proof -
  show "fst (ps ! i) < snd (ps ! i)"
    using assms nth_mem [OF assms(2)] by (cases "ps ! i") (auto simp: range_list_def)
  show "fst (ps ! j) \<le> fst (ps ! i)" if "j < i"
    using assms that sorted_nth_mono [of "map fst ps" j i] by (simp add: range_list_def)
qed

text \<open>The inner loop stops at a range that overlaps, or skips only ranges that end before \<open>r1\<close> starts.\<close>

lemma r2_loop_result:
  assumes "range_list ps" "a < b" "j \<le> length ps"
  shows "\<exists>j'. j \<le> j' \<and> j' \<le> length ps
    \<and> r2_loop (flat_pairs ps) (Some a) (Some b) (2 * j) (nth_opt (flat_pairs ps) (2 * j))
        (j < length ps \<and> pair_overlap (a, b) (ps ! j))
      = (2 * j', \<exists>k. j \<le> k \<and> k < length ps \<and> pair_overlap (a, b) (ps ! k))
    \<and> ((\<exists>k. j \<le> k \<and> k < length ps \<and> pair_overlap (a, b) (ps ! k))
        \<or> (\<forall>k. j \<le> k \<and> k < j' \<longrightarrow> snd (ps ! k) \<le> a))"
  using assms(3)
proof (induction "length ps - j" arbitrary: j)
  case 0
  then have "nth_opt (flat_pairs ps) (2 * j) = None" by (simp add: nth_opt_def)
  then show ?case using 0 by (intro exI [of _ j]) (subst r2_loop.simps, simp add: lt_opt_def)
next
  case (Suc n)
  then have j: "j < length ps" by simp
  note at_j = flat_pairs_nth [OF j] and strict = range_list_nth(1) [OF assms(1) j]
  let ?ov = "\<lambda>k. pair_overlap (a, b) (ps ! k)" and ?ex = "\<lambda>j. \<exists>k. j \<le> k \<and> k < length ps \<and> pair_overlap (a, b) (ps ! k)"
  consider "?ov j" | "\<not> ?ov j" "a \<le> fst (ps ! j)" | "\<not> ?ov j" "fst (ps ! j) < a" by linarith
  then show ?case
  proof cases
    case 1
    then have "?ex j" using j by blast
    moreover have "r2_loop (flat_pairs ps) (Some a) (Some b) (2 * j) (nth_opt (flat_pairs ps) (2 * j)) True = (2 * j, True)"
      by (subst r2_loop.simps) simp
    ultimately show ?thesis using 1 j by (intro exI [of _ j]) auto
  next
    case 2
    then have b: "b \<le> fst (ps ! j)" using strict by (auto simp: pair_overlap_def)
    have "\<not> ?ex j"
    proof
      assume "?ex j"
      then obtain k where k: "j \<le> k" "k < length ps" "?ov k" by blast
      then have "fst (ps ! j) \<le> fst (ps ! k)" using range_list_nth(2) [OF assms(1) k(2), of j] by (cases "j = k") auto
      with b k(3) show False by (simp add: pair_overlap_def)
    qed
    moreover have "r2_loop (flat_pairs ps) (Some a) (Some b) (2 * j) (nth_opt (flat_pairs ps) (2 * j)) False = (2 * j, False)"
      using 2 by (subst r2_loop.simps) (simp add: at_j lt_opt_def)
    ultimately show ?thesis using 2 j by (intro exI [of _ j]) auto
  next
    case 3
    then have le: "snd (ps ! j) \<le> a" using assms(2) by (auto simp: pair_overlap_def)
    have ex: "?ex j \<longleftrightarrow> ?ex (Suc j)" using 3(1) by (metis Suc_leD le_antisym not_less_eq_eq)
    have step: "r2_loop (flat_pairs ps) (Some a) (Some b) (2 * j) (nth_opt (flat_pairs ps) (2 * j)) False =
        r2_loop (flat_pairs ps) (Some a) (Some b) (2 * Suc j) (nth_opt (flat_pairs ps) (2 * Suc j))
          (Suc j < length ps \<and> ?ov (Suc j))"
    proof (cases "Suc j < length ps")
      case True
      have r: "r2_loop (flat_pairs ps) (Some a) (Some b) (2 * j) (nth_opt (flat_pairs ps) (2 * j)) False =
          r2_loop (flat_pairs ps) (Some a) (Some b) (2 * j + 2) (nth_opt (flat_pairs ps) (2 * j + 2))
            (lt_opt (nth_opt (flat_pairs ps) (2 * j + 2)) (Some b) \<and> lt_opt (Some a) (nth_opt (flat_pairs ps) (2 * j + 2 + 1)))"
        using 3 True j by (subst r2_loop.simps) (simp add: at_j lt_opt_def)
      have i: "2 * j + 2 = 2 * Suc j" "2 * Suc j + 1 = Suc (2 * Suc j)" by simp_all
      have "(lt_opt (Some (fst (ps ! Suc j))) (Some b) \<and> lt_opt (Some a) (Some (snd (ps ! Suc j))))
          = (Suc j < length ps \<and> ?ov (Suc j))"
        using True by (simp add: lt_opt_def pair_overlap_def)
      then show ?thesis unfolding r i flat_pairs_nth [OF True] by (simp only:)
    next
      case False
      then have none: "nth_opt (flat_pairs ps) (2 * Suc j) = None" by (simp add: nth_opt_def)
      have "r2_loop (flat_pairs ps) (Some a) (Some b) (2 * j) (nth_opt (flat_pairs ps) (2 * j)) False = (2 * Suc j, False)"
        using 3 False j by (subst r2_loop.simps) (simp add: at_j lt_opt_def, subst r2_loop.simps, simp)
      moreover have "r2_loop (flat_pairs ps) (Some a) (Some b) (2 * Suc j) None False = (2 * Suc j, False)"
        by (subst r2_loop.simps) (simp add: lt_opt_def)
      ultimately show ?thesis using False none by simp
    qed
    have "n = length ps - Suc j" "Suc j \<le> length ps" using Suc by simp_all
    from Suc.hyps(1) [OF this] obtain j' where j': "Suc j \<le> j'" "j' \<le> length ps"
        "r2_loop (flat_pairs ps) (Some a) (Some b) (2 * j) (nth_opt (flat_pairs ps) (2 * j)) False = (2 * j', ?ex (Suc j))"
        "?ex (Suc j) \<or> (\<forall>k. Suc j \<le> k \<and> k < j' \<longrightarrow> snd (ps ! k) \<le> a)"
      unfolding step by blast
    have "?ex (Suc j) \<or> (\<forall>k. j \<le> k \<and> k < j' \<longrightarrow> snd (ps ! k) \<le> a)"
      using j'(4) le by (metis Suc_leI le_neq_implies_less)
    then show ?thesis using j' 3(1) ex by (intro exI [of _ j']) auto
  qed
qed

lemma r1_loop_result:
  assumes "range_list ps" "range_list qs" "j \<le> length qs" "i \<le> length ps"
    and "\<forall>k < j. \<forall>m. i \<le> m \<and> m < length ps \<longrightarrow> snd (qs ! k) \<le> fst (ps ! m)"
  shows "r1_loop (flat_pairs ps) (flat_pairs qs) (2 * i) (2 * j) False =
    (\<exists>m k. i \<le> m \<and> m < length ps \<and> k < length qs \<and> pair_overlap (ps ! m) (qs ! k))"
  using assms(3-5)
proof (induction "length ps - i" arbitrary: i j)
  case 0
  then show ?case by (subst r1_loop.simps) simp
next
  case (Suc n)
  then have i: "i < length ps" by simp
  obtain a b where ab: "ps ! i = (a, b)" by fastforce
  then have "a < b" using range_list_nth(1) [OF assms(1) i] by simp
  from r2_loop_result [OF assms(2) this Suc.prems(1)] obtain j' where j': "j \<le> j'" "j' \<le> length qs"
      "r2_loop (flat_pairs qs) (Some a) (Some b) (2 * j) (nth_opt (flat_pairs qs) (2 * j))
        (j < length qs \<and> pair_overlap (a, b) (qs ! j))
      = (2 * j', \<exists>k. j \<le> k \<and> k < length qs \<and> pair_overlap (a, b) (qs ! k))"
      "(\<exists>k. j \<le> k \<and> k < length qs \<and> pair_overlap (a, b) (qs ! k)) \<or> (\<forall>k. j \<le> k \<and> k < j' \<longrightarrow> snd (qs ! k) \<le> a)"
    by blast
  have ov: "lt_opt (nth_opt (flat_pairs qs) (2 * j)) (Some b) \<and> lt_opt (Some a) (nth_opt (flat_pairs qs) (Suc (2 * j)))
      \<longleftrightarrow> j < length qs \<and> pair_overlap (a, b) (qs ! j)"
    using flat_pairs_nth [of j qs] by (cases "j < length qs") (auto simp: lt_opt_def pair_overlap_def nth_opt_def)
  have step: "r1_loop (flat_pairs ps) (flat_pairs qs) (2 * i) (2 * j) False =
      r1_loop (flat_pairs ps) (flat_pairs qs) (2 * Suc i) (2 * j')
        (\<exists>k. j \<le> k \<and> k < length qs \<and> pair_overlap (a, b) (qs ! k))"
    using i by (subst r1_loop.simps) (simp add: flat_pairs_nth [OF i] ab ov j'(3))
  have before: "snd (qs ! k) \<le> a" if "k < j" for k
    using Suc.prems(3) [rule_format, OF that, of i] i ab by simp
  then have skipped: "\<not> pair_overlap (a, b) (qs ! k)" if "k < j" for k
    using that by (fastforce simp: pair_overlap_def)
  show ?case
  proof (cases "\<exists>k. j \<le> k \<and> k < length qs \<and> pair_overlap (a, b) (qs ! k)")
    case True
    moreover have "r1_loop (flat_pairs ps) (flat_pairs qs) (2 * Suc i) (2 * j') True" by (subst r1_loop.simps) simp
    moreover obtain k where "k < length qs \<and> pair_overlap (ps ! i) (qs ! k)" using True ab by auto
    then have "\<exists>m k. i \<le> m \<and> m < length ps \<and> k < length qs \<and> pair_overlap (ps ! m) (qs ! k)" using i by blast
    ultimately show ?thesis unfolding step by (simp only: True)
  next
    case False
    have "snd (qs ! k) \<le> fst (ps ! m)" if "k < j'" "Suc i \<le> m" "m < length ps" for k m
    proof -
      have "snd (qs ! k) \<le> a"
        using j'(4) False before that(1) by (cases "k < j") auto
      also have "a \<le> fst (ps ! m)" using range_list_nth(2) [OF assms(1) that(3), of i] that ab by simp
      finally show ?thesis .
    qed
    moreover have "n = length ps - Suc i" "Suc i \<le> length ps" using Suc by simp_all
    ultimately have "r1_loop (flat_pairs ps) (flat_pairs qs) (2 * Suc i) (2 * j') False =
        (\<exists>m k. Suc i \<le> m \<and> m < length ps \<and> k < length qs \<and> pair_overlap (ps ! m) (qs ! k))"
      using Suc.hyps(1) [of "Suc i" j'] j'(2) by blast
    moreover have none: "\<not> pair_overlap (ps ! i) (qs ! k)" if "k < length qs" for k
      using False skipped that ab by (metis not_le)
    have "Suc i \<le> m" if "i \<le> m" "k < length qs" "pair_overlap (ps ! m) (qs ! k)" for m k
      using that none [of k] by (cases "m = i") auto
    then have "(\<exists>m k. i \<le> m \<and> m < length ps \<and> k < length qs \<and> pair_overlap (ps ! m) (qs ! k)) =
        (\<exists>m k. Suc i \<le> m \<and> m < length ps \<and> k < length qs \<and> pair_overlap (ps ! m) (qs ! k))"
      using Suc_leD by blast
    ultimately show ?thesis unfolding step by (simp only: False)
  qed
qed

lemma range_list_common:
  assumes "range_list ps" "range_list qs"
  shows "(\<exists>p \<in> set ps. \<exists>q \<in> set qs. pair_overlap p q) \<longleftrightarrow> pair_secs ps \<inter> pair_secs qs \<noteq> {}"
proof
  assume "\<exists>p \<in> set ps. \<exists>q \<in> set qs. pair_overlap p q"
  then obtain a b c d where pq: "(a, b) \<in> set ps" "(c, d) \<in> set qs" "c < b" "a < d"
    by (auto simp: pair_overlap_def)
  then have "a < b" "c < d" using assms by (auto simp: range_list_def)
  then have "max a c \<in> {a ..< b} \<inter> {c ..< d}" using pq by auto
  then have "max a c \<in> pair_secs ps \<inter> pair_secs qs" using pq(1,2) unfolding pair_secs_def by blast
  then show "pair_secs ps \<inter> pair_secs qs \<noteq> {}" by blast
qed (fastforce simp: pair_secs_def pair_overlap_def)

lemma scan_common:
  assumes "timeVariablesToWeeklyRanges ui h1 d1 w1 i1 = Inr (flat_pairs ps)" "range_list ps"
    and "timeVariablesToWeeklyRanges ui h2 d2 w2 i2 = Inr (flat_pairs qs)" "range_list qs"
  shows "rangesOverlap ui (h1, d1, w1, i1) (h2, d2, w2, i2) = Inr (pair_secs ps \<inter> pair_secs qs \<noteq> {})"
proof -
  have "r1_loop (flat_pairs ps) (flat_pairs qs) (2 * 0) (2 * 0) False =
      (\<exists>m k. 0 \<le> m \<and> m < length ps \<and> k < length qs \<and> pair_overlap (ps ! m) (qs ! k))"
    by (rule r1_loop_result [OF assms(2,4)]) simp_all
  also have "\<dots> \<longleftrightarrow> (\<exists>p \<in> set ps. \<exists>q \<in> set qs. pair_overlap p q)"
    unfolding Bex_def by (metis in_set_conv_nth zero_le)
  finally show ?thesis using assms(1,3) by (simp add: rangesOverlap_def range_list_common [OF assms(2,4)])
qed

section \<open>Times without a day, and the inverse of two successive days\<close>

lemma no_day_ranges:
  assumes "days \<noteq> []" "list_all (\<lambda>x. day_index ui x = None) (split_sep_ws CHR '','' days)"
  shows "day_ranges (valid_days ui days) hr = []"
proof -
  have "fold (\<lambda>x v. case day_index ui x of None \<Rightarrow> v | Some i \<Rightarrow> v[i := True]) ds v = v"
    if "list_all (\<lambda>x. day_index ui x = None) ds" for ds and v :: "bool list"
    using that by (induction ds) auto
  with assms have "valid_days ui days = replicate 7 False" by (simp add: valid_days_def)
  then show ?thesis by (simp add: day_ranges_def concat_eq_Nil_conv)
qed

text \<open>The ranges of all of the week but the days \<open>d\<close> and \<open>d + 1\<close>: one is empty, at the midnight between them.\<close>

definition except_two :: "nat \<Rightarrow> nat list" where
  "except_two d = (if d = 0 then [] else [0, d * day_len]) @ [Suc d * day_len, Suc d * day_len]
     @ (if d = 5 then [] else [(d + 2) * day_len, week_len])"

lemma except_two_days:
  assumes "days \<noteq> []" "d \<le> 5" "valid_days ui days = map (\<lambda>i. i = d \<or> i = Suc d) [0 ..< 7]"
  shows "timeVariablesToWeeklyRanges ui [] days [] True = Inr (except_two d)"
proof -
  from assms(2) consider "d = 0" | "d = 1" | "d = 2" | "d = 3" | "d = 4" | "d = 5" by linarith
  then show ?thesis
    by cases (simp_all add: timeVariablesToWeeklyRanges_def hour_ranges_def day_ranges_def assms(1,3) invert_ranges_def
        week_len_def day_len_def except_two_def upt_rec)
qed

lemma except_two_secs:
  assumes "d \<le> 5"
  shows "flat_secs (except_two d) = {0 ..< week_len} - {d * day_len ..< (d + 2) * day_len}"
proof -
  from assms consider "d = 0" | "d = 1" | "d = 2" | "d = 3" | "d = 4" | "d = 5" by linarith
  then show ?thesis by cases (auto simp: except_two_def week_len_def day_len_def)
qed

lemma midnight_scan:
  assumes "d * day_len \<le> s" "s < Suc d * day_len" "Suc d * day_len < e"
  shows "r1_loop (except_two d) [s, e] 0 0 False"
proof -
  have "\<not> s < d * day_len" using assms(1) by simp
  then show ?thesis
    using assms(2,3)
    by (cases "d = 0") (auto simp: except_two_def r1_loop.simps r2_loop.simps nth_opt_def lt_opt_def simp del: mult_Suc)
qed

section \<open>Properties\<close>

definition english_days :: "string list" where
  "english_days = [''Sun'', ''Mon'', ''Tue'', ''Wed'', ''Thu'', ''Fri'', ''Sat'']"

text \<open>
  C6. \<open>rangesOverlap\<close> on two times whose range lists are ordered by start and hold no empty range: the
  single pass over both lists, which skips ranges that end before the current one starts, answers
  whether some second of the week belongs to both.
\<close>

theorem rangesOverlap_correct:
  assumes "timeVariablesToWeeklyRanges ui h1 d1 w1 i1 = Inr (flat_pairs ps)" "range_list ps"
    and "timeVariablesToWeeklyRanges ui h2 d2 w2 i2 = Inr (flat_pairs qs)" "range_list qs"
  shows "rangesOverlap ui (h1, d1, w1, i1) (h2, d2, w2, i2) = Inr (pair_secs ps \<inter> pair_secs qs \<noteq> {})"
  by (rule scan_common [OF assms])

text \<open>
  With hours and weekdays (no weekly ranges), every hours pair of which has its dash, the ranges
  cover exactly the seconds that lie on a chosen day and in one of the hours, where hours that end
  before they start run from their start to midnight and from midnight to their end on that same day.
\<close>

theorem weekly_ranges_of_days:
  assumes "hours \<noteq> []" "map (parse_pair hour_piece) (map (\<lambda>p. rtrim (ltrim p)) (split_sep_ws CHR '','' hours)) = map Inr rs"
    and "rs \<noteq> []"
  shows "\<exists>r. timeVariablesToWeeklyRanges ui hours days [] False = Inr r \<and>
    flat_secs r = {d * day_len + t |d t. d < 7 \<and> valid_days ui days ! d \<and> t \<in> \<Union> (wrap_secs day_len ` set rs)}"
proof -
  define hr where "hr = splitRangesAtEnd rs (24 * 60 * 60)"
  have "split_ranges mx rs \<noteq> []" for mx using assms(3) by (cases rs) (auto split: if_splits)
  then have "hr \<noteq> []"
    by (cases "sort_key fst (split_ranges (24 * 60 * 60) rs)" rule: flat_pairs.cases)
      (auto simp: hr_def splitRangesAtEnd_def dest: arg_cong [of _ _ length])
  then have "hour_ranges hours = Inr hr"
    using assms(1) pair_step_fold [OF assms(2), of "[]"] by (simp add: hour_ranges_def hr_def)
  moreover have "length (valid_days ui days) = 7"
  proof -
    have "length (fold (\<lambda>d v. case day_index ui d of None \<Rightarrow> v | Some i \<Rightarrow> v[i := True]) ds (v :: bool list)) = length v" for ds v
      by (induction ds arbitrary: v) (auto split: option.split)
    then show ?thesis by (simp add: valid_days_def)
  qed
  moreover have "even (length hr)" "flat_secs hr = \<Union> (wrap_secs day_len ` set rs)"
    using splitRangesAtEnd_secs [of rs "24 * 60 * 60"] by (simp_all add: hr_def splitRangesAtEnd_def day_len_def)
  ultimately show ?thesis
    using assms(1) day_ranges_secs [of hr "valid_days ui days"] by (simp add: timeVariablesToWeeklyRanges_def)
qed

text \<open>
  A quota that is active except at the given times: when the ranges of those times are in order,
  do not overlap and stay in the week, inverting them gives exactly the other seconds of the week.
\<close>

theorem inverted_ranges_complement:
  assumes "timeVariablesToWeeklyRanges ui hours days weekly False = Inr r" "hours \<noteq> [] \<or> days \<noteq> [] \<or> weekly \<noteq> []"
    and "sorted r" "\<forall>x \<in> set r. x \<le> week_len"
  shows "\<exists>r'. timeVariablesToWeeklyRanges ui hours days weekly True = Inr r' \<and> flat_secs r' = {0 ..< week_len} - flat_secs r"
proof -
  have hr: "even (length hr)" if "hour_ranges hours = Inr hr" for hr
    using that by (auto simp: hour_ranges_def res_bind_Inr_iff splitRangesAtEnd_def split: if_splits)
  have "even (length (concat (map (\<lambda>d. if v ! d then map (\<lambda>h. d * 24 * 60 * 60 + h) hr else []) ds)))"
    if "even (length hr)" for v hr ds using that by (induction ds) auto
  then have "even (length (day_ranges v hr))" if "even (length hr)" for v hr using that by (simp add: day_ranges_def)
  with assms(1,2) hr have "even (length r)"
    by (auto simp: timeVariablesToWeeklyRanges_def res_bind_Inr_iff splitRangesAtEnd_def split: if_splits)
  then have "flat_secs (invert_ranges r) = {0 ..< week_len} - flat_secs r"
    by (rule invert_ranges_secs [OF _ assms(3,4)])
  moreover have "timeVariablesToWeeklyRanges ui hours days weekly True = Inr (invert_ranges r)"
    using assms(1,2) by (auto simp: timeVariablesToWeeklyRanges_def res_bind_Inr_iff split: if_splits)
  ultimately show ?thesis by blast
qed

text \<open>
  C40. Two ways in which \<open>rangesOverlap\<close> misjudges. The names of the chosen days are looked up among the
  day names of the interface language, although they are stored in English: when none of them is found,
  a quota that is active on these days only has no range and is reported to overlap no quota, not even one
  that is always active, and a quota that is active except on these days counts as always active. And a quota
  that is active except on two successive days of the week gets an empty range at the midnight between them:
  it is reported to overlap any range of these two days that contains this midnight, although no second
  is common to both.
\<close>

theorem rangesOverlap_misjudged:
  "(days \<noteq> [] \<and> list_all (\<lambda>x. day_index ui x = None) (split_sep_ws CHR '','' days)
      \<and> hour_ranges hours = Inr hr \<and> timeVariablesToWeeklyRanges ui h2 d2 w2 i2 = Inr r2 \<longrightarrow>
     rangesOverlap ui (hours, days, [], False) (h2, d2, w2, i2) = Inr False
     \<and> timeVariablesToWeeklyRanges ui hours days [] True = Inr [0, week_len])
   \<and> (days \<noteq> [] \<and> d \<le> 5 \<and> valid_days ui days = map (\<lambda>i. i = d \<or> i = Suc d) [0 ..< 7]
      \<and> timeVariablesToWeeklyRanges ui h2 d2 w2 i2 = Inr [s, e]
      \<and> d * day_len \<le> s \<and> s < Suc d * day_len \<and> Suc d * day_len < e \<and> e \<le> (d + 2) * day_len \<longrightarrow>
     rangesOverlap ui ([], days, [], True) (h2, d2, w2, i2) = Inr True
     \<and> (\<exists>r. timeVariablesToWeeklyRanges ui [] days [] True = Inr r \<and> flat_secs r \<inter> flat_secs [s, e] = {}))"
proof (intro conjI impI, goal_cases)
  case 1
  then show ?case by (simp add: rangesOverlap_def timeVariablesToWeeklyRanges_def [of ui hours] no_day_ranges r1_loop.simps)
next
  case 2
  then show ?case by (simp add: timeVariablesToWeeklyRanges_def no_day_ranges invert_ranges_def week_len_def)
next
  case 3
  then show ?case
    using except_two_days [of days d ui] by (auto simp: rangesOverlap_def midnight_scan)
next
  case 4
  then show ?case
    using except_two_days [of days d ui] except_two_secs [of d] by auto
qed

lemma demo_monday:
  "timeVariablesToWeeklyRanges english_days [] ''mon'' [] False = Inr (flat_pairs [(86400, 172800)])"
proof -
  have "valid_days english_days ''mon'' = [False, True, False, False, False, False, False]" by code_simp
  then show ?thesis
    by (simp add: timeVariablesToWeeklyRanges_def hour_ranges_def day_ranges_def upt_rec)
qed

theorem rangesOverlap_correct_witness:
  "rangesOverlap english_days ([], ''mon'', [], False) ([], [], [], False) =
     Inr (pair_secs [(86400, 172800)] \<inter> pair_secs [(0, 604800)] \<noteq> {})"
  by (rule rangesOverlap_correct [OF demo_monday])
    (simp_all add: range_list_def timeVariablesToWeeklyRanges_def week_len_def)

theorem weekly_ranges_of_days_witness:
  "\<exists>r. timeVariablesToWeeklyRanges english_days ''22:00-06:30'' ''mon'' [] False = Inr r \<and>
    flat_secs r = {d * day_len + t |d t. d < 7 \<and> valid_days english_days ''mon'' ! d
      \<and> t \<in> \<Union> (wrap_secs day_len ` set [(79200, 23400)])}"
proof (rule weekly_ranges_of_days)
  have p: "split_sep_ws CHR '','' ''22:00-06:30'' = [''22:00-06:30'']" "rtrim (ltrim ''22:00-06:30'') = ''22:00-06:30''"
      "split_sep_ws CHR ''-'' ''22:00-06:30'' = [''22:00'', ''06:30'']"
      "split_runs time_sep ''22:00'' = [''22'', ''00'']" "split_runs time_sep ''06:30'' = [''06'', ''30'']"
      "padded_num (Some ''22'') = 22" "padded_num (Some ''00'') = 0" "padded_num (Some ''06'') = 6"
      "padded_num (Some ''30'') = 30" by code_simp+
  show "map (parse_pair hour_piece) (map (\<lambda>p. rtrim (ltrim p)) (split_sep_ws CHR '','' ''22:00-06:30'')) =
      map Inr [(79200, 23400)]"
    by (simp add: p parse_pair_def hour_piece_def nth_opt_def)
qed simp_all

theorem inverted_ranges_complement_witness:
  "\<exists>r'. timeVariablesToWeeklyRanges english_days [] ''mon'' [] True = Inr r'
     \<and> flat_secs r' = {0 ..< week_len} - flat_secs [86400, 172800]"
  using inverted_ranges_complement [of english_days "[]" "''mon''" "[]" "[86400, 172800]"] demo_monday
  by (simp add: week_len_def)

theorem rangesOverlap_misjudged_witness:
  "rangesOverlap [''So'', ''Mo'', ''Di'', ''Mi'', ''Do'', ''Fr'', ''Sa''] ([], ''mon'', [], False) ([], [], [], False) = Inr False
   \<and> rangesOverlap english_days ([], ''mon,tue'', [], True) ([], [], ''Mon 12:00-Tue 12:00'', False) = Inr True"
proof
  have "list_all (\<lambda>x. day_index [''So'', ''Mo'', ''Di'', ''Mi'', ''Do'', ''Fr'', ''Sa''] x = None) (split_sep_ws CHR '','' ''mon'')"
    by code_simp
  then show "rangesOverlap [''So'', ''Mo'', ''Di'', ''Mi'', ''Do'', ''Fr'', ''Sa''] ([], ''mon'', [], False) ([], [], [], False) = Inr False"
    using rangesOverlap_misjudged [THEN conjunct1, of "''mon''" "[''So'', ''Mo'', ''Di'', ''Mi'', ''Do'', ''Fr'', ''Sa'']" "[]" "[0, day_len]"
        "[]" "[]" "[]" False "[0, week_len]"]
    by (simp add: hour_ranges_def timeVariablesToWeeklyRanges_def day_len_def)
  have days: "valid_days english_days ''mon,tue'' = map (\<lambda>i. i = 1 \<or> i = Suc 1) [0 ..< 7]" by code_simp
  have p: "split_sep_ws CHR '','' ''Mon 12:00-Tue 12:00'' = [''Mon 12:00-Tue 12:00'']"
      "split_sep_ws CHR ''-'' ''Mon 12:00-Tue 12:00'' = [''Mon 12:00'', ''Tue 12:00'']"
      "split_runs time_sep ''Mon 12:00'' = [''Mon'', ''12'', ''00'']" "split_runs time_sep ''Tue 12:00'' = [''Tue'', ''12'', ''00'']"
      "padded_num (Some ''12'') = 12" "padded_num (Some ''00'') = 0"
      "day_index english_days ''Mon'' = Some 1" "day_index english_days ''Tue'' = Some 2" by code_simp+
  have "timeVariablesToWeeklyRanges english_days [] [] ''Mon 12:00-Tue 12:00'' False = Inr [129600, 216000]"
    by (simp add: timeVariablesToWeeklyRanges_def p pair_step_def parse_pair_def week_piece_def nth_opt_def splitRangesAtEnd_def)
  then show "rangesOverlap english_days ([], ''mon,tue'', [], True) ([], [], ''Mon 12:00-Tue 12:00'', False) = Inr True"
    using rangesOverlap_misjudged [THEN conjunct2, of "''mon,tue''" 1 english_days "[]" "[]" "''Mon 12:00-Tue 12:00''" False 129600 216000] days
    by (simp add: day_len_def del: mult_Suc)
qed

end
