(* ===== verification/Page_Dom.thy ===== *)
theory Page_Dom
  imports Validators
begin

text \<open>
  The elements of a page as the functions of \<open>common.js\<close> read and change them: the document as a
  table from ids to elements, the select lists, the visibility and enabling of fields, and the
  proofreading of a form. A page also keeps the alerts it showed and the global variable \<open>value\<close>,
  which several of the functions assign. The theorems state what a select list shows after each
  operation and that a form without errors is one whose visible fields are all valid.
\<close>

section \<open>State\<close>

record element =
  el_type :: string
  el_value :: string
  el_options :: "(string \<times> string) list"
  el_selected :: int
  el_checked :: bool
  el_disabled :: bool
  el_readOnly :: bool
  el_display :: string
  el_color :: string
  el_class :: "string list"
  el_data :: string

record page =
  doc :: "string \<Rightarrow> element option"
  alerts :: "string list"
  gvalue :: "string option"

definition is_select :: "element \<Rightarrow> bool" where
  "is_select e \<longleftrightarrow> el_type e \<in> {''select-one'', ''select-multiple'', ''select''}"

text \<open>A property of \<open>null\<close> is a \<open>TypeError\<close>.\<close>

definition get_el :: "page \<Rightarrow> string \<Rightarrow> element js_result" where
  "get_el p i = (case doc p i of None \<Rightarrow> Inl TypeError | Some e \<Rightarrow> Inr e)"

definition set_el :: "string \<Rightarrow> element \<Rightarrow> page \<Rightarrow> page" where
  "set_el i e p = p\<lparr>doc := (doc p)(i \<mapsto> e)\<rparr>"

definition upd_el :: "string \<Rightarrow> (element \<Rightarrow> element) \<Rightarrow> page \<Rightarrow> page js_result" where
  "upd_el i f p = res_bind (get_el p i) (\<lambda>e. Inr (set_el i (f e) p))"

definition alert :: "string \<Rightarrow> page \<Rightarrow> page" where
  "alert msg p = p\<lparr>alerts := alerts p @ [msg]\<rparr>"

text \<open>The index of the first option with a value or a text.\<close>

fun option_index :: "('a \<Rightarrow> bool) \<Rightarrow> 'a list \<Rightarrow> nat option" where
  "option_index P [] = None"
| "option_index P (x # xs) = (if P x then Some 0 else map_option Suc (option_index P xs))"

text \<open>The \<open>value\<close> property: of a select element, the value of the selected option.\<close>

definition get_value :: "element \<Rightarrow> string" where
  "get_value e =
     (if is_select e
      then (if 0 \<le> el_selected e \<and> nat (el_selected e) < length (el_options e)
            then snd (el_options e ! nat (el_selected e)) else [])
      else el_value e)"

definition put_value :: "string \<Rightarrow> element \<Rightarrow> element" where
  "put_value v e =
     (if is_select e
      then e\<lparr>el_selected := (case option_index (\<lambda>opt. snd opt = v) (el_options e) of Some k \<Rightarrow> int k | None \<Rightarrow> -1)\<rparr>
      else e\<lparr>el_value := v\<rparr>)"

section \<open>Select lists\<close>

text \<open>
  Adding and removing an option as the document does it: a drop-down list with options always has
  one selected, the first when the selected one is gone.
\<close>

definition sel_reset :: "element \<Rightarrow> element" where
  "sel_reset e =
     (if el_type e = ''select-one'' \<and> el_selected e < 0 \<and> el_options e \<noteq> []
      then e\<lparr>el_selected := 0\<rparr> else e)"

definition sel_add :: "string \<Rightarrow> string \<Rightarrow> nat option \<Rightarrow> element \<Rightarrow> element" where
  "sel_add txt v before e =
     (let n = length (el_options e);
          k = (case before of None \<Rightarrow> n | Some b \<Rightarrow> min b n);
          sel = (if 0 \<le> el_selected e \<and> k \<le> nat (el_selected e) then el_selected e + 1 else el_selected e)
      in sel_reset (e\<lparr>el_options := take k (el_options e) @ [(txt, v)] @ drop k (el_options e), el_selected := sel\<rparr>))"

definition sel_remove :: "nat \<Rightarrow> element \<Rightarrow> element" where
  "sel_remove k e =
     (if k < length (el_options e)
      then (let sel = (if el_selected e = int k then -1
                       else if int k < el_selected e then el_selected e - 1 else el_selected e)
            in sel_reset (e\<lparr>el_options := take k (el_options e) @ drop (Suc k) (el_options e), el_selected := sel\<rparr>))
      else e)"

definition getSelectedValue :: "string \<Rightarrow> string \<Rightarrow> string \<Rightarrow> page \<Rightarrow> (page \<times> string option) js_result" where
  "getSelectedValue uiErr uiNex selectId p =
     (case doc p selectId of
        None \<Rightarrow> Inr (alert (uiErr @ '': '' @ selectId @ '' '' @ uiNex) p, None)
      | Some e \<Rightarrow>
          if 0 \<le> el_selected e
          then (case nth_opt (el_options e) (nat (el_selected e)) of
                  None \<Rightarrow> Inl TypeError
                | Some opt \<Rightarrow> Inr (p, Some (snd opt)))
          else Inr (p, Some []))"

definition getSelectedText :: "string \<Rightarrow> page \<Rightarrow> string js_result" where
  "getSelectedText selectId p =
     res_bind (get_el p selectId) (\<lambda>e.
       if 0 \<le> el_selected e
       then (case nth_opt (el_options e) (nat (el_selected e)) of None \<Rightarrow> Inl TypeError | Some opt \<Rightarrow> Inr (fst opt))
       else Inr [])"

text \<open>The search loop of \<open>setSelectedValue\<close> and \<open>setSelectedText\<close>, and the fall back to the first option.\<close>

definition select_first :: "(string \<times> string \<Rightarrow> bool) \<Rightarrow> element \<Rightarrow> element" where
  "select_first P e =
     (case option_index P (el_options e) of
        Some k \<Rightarrow> e\<lparr>el_selected := int k\<rparr>
      | None \<Rightarrow> if el_options e \<noteq> [] \<and> el_selected e < 0 then e\<lparr>el_selected := 0\<rparr> else e)"

text \<open>
  A missing element is alerted and then read: a \<open>TypeError\<close>, which the alert does not prevent.
\<close>

definition setSelectedValue :: "string \<Rightarrow> string \<Rightarrow> page \<Rightarrow> page js_result" where
  "setSelectedValue selectId selection p = upd_el selectId (select_first (\<lambda>opt. snd opt = selection)) p"

definition setSelectedText :: "string \<Rightarrow> string \<Rightarrow> page \<Rightarrow> page js_result" where
  "setSelectedText selectId selection p = upd_el selectId (select_first (\<lambda>opt. fst opt = selection)) p"

definition addOptionToSelectElement :: "string \<Rightarrow> string \<Rightarrow> string \<Rightarrow> nat option \<Rightarrow> page \<Rightarrow> page js_result" where
  "addOptionToSelectElement selectId optionText optionValue before p =
     upd_el selectId (sel_add optionText optionValue before) p"

definition remove_first :: "(string \<times> string \<Rightarrow> bool) \<Rightarrow> element \<Rightarrow> element" where
  "remove_first P e = (case option_index P (el_options e) of Some k \<Rightarrow> sel_remove k e | None \<Rightarrow> e)"

definition removeOptionFromSelectElement :: "string \<Rightarrow> string \<Rightarrow> page \<Rightarrow> page js_result" where
  "removeOptionFromSelectElement selectId optionText p = upd_el selectId (remove_first (\<lambda>opt. fst opt = optionText)) p"

definition removeOptionFromSelectElementByValue :: "string \<Rightarrow> string \<Rightarrow> page \<Rightarrow> page js_result" where
  "removeOptionFromSelectElementByValue selectId optionValue p =
     upd_el selectId (remove_first (\<lambda>opt. snd opt = optionValue)) p"

function removeAllOptionsFromSelectElement :: "element \<Rightarrow> element" where
  "removeAllOptionsFromSelectElement e =
     (if el_options e \<noteq> [] then removeAllOptionsFromSelectElement (sel_remove 0 e) else e)"
  by pat_completeness auto
termination
  by (relation "measure (\<lambda>e. length (el_options e))") (auto simp: sel_remove_def sel_reset_def Let_def)

declare removeAllOptionsFromSelectElement.simps [simp del]

text \<open>\<open>allowableNames\<close> shorter than \<open>allowableValues\<close> gives \<open>undefined\<close> names, printed as such.\<close>

definition name_at :: "string list \<Rightarrow> nat \<Rightarrow> string" where
  "name_at names k = (case nth_opt names k of None \<Rightarrow> ''undefined'' | Some n \<Rightarrow> n)"

definition add_allowable :: "string list \<Rightarrow> string list \<Rightarrow> element \<Rightarrow> element" where
  "add_allowable vals names e =
     fold (\<lambda>k e. sel_add (name_at names k) (vals ! k) None e) [0..<length vals] e"

definition doReplace :: "string list \<Rightarrow> string list \<Rightarrow> element \<Rightarrow> bool" where
  "doReplace allowableValues allowableNames e =
     (if length allowableValues = length (el_options e)
      then \<exists>k \<in> set [0..<length (el_options e)].
             Some (fst (el_options e ! k)) \<noteq> nth_opt allowableNames k
             \<or> snd (el_options e ! k) \<noteq> allowableValues ! k
      else True)"

definition setAllowableSelections :: "string \<Rightarrow> string list \<Rightarrow> string list \<Rightarrow> page \<Rightarrow> page js_result" where
  "setAllowableSelections selectId allowableValues allowableNames p =
     (case doc p selectId of
        None \<Rightarrow> Inr p
      | Some e \<Rightarrow>
          if doReplace allowableValues allowableNames e
          then res_bind (getSelectedValue [] [] selectId p) (\<lambda>(p1, currentSelection).
                    res_bind (upd_el selectId (\<lambda>e. add_allowable allowableValues allowableNames
                                (removeAllOptionsFromSelectElement e)) p1) (\<lambda>p2.
                    setSelectedValue selectId (case currentSelection of None \<Rightarrow> ''undefined'' | Some s \<Rightarrow> s) p2))
          else Inr p)"

section \<open>Visibility and enabling\<close>

definition setVisibility :: "string list \<Rightarrow> nat list \<Rightarrow> string list option \<Rightarrow> page \<Rightarrow> page js_result" where
  "setVisibility ids visibility defaultDisplays p =
     fold_res (\<lambda>index p. upd_el (ids ! index) (\<lambda>e.
         if nth_opt visibility index = Some 0 then e\<lparr>el_display := ''none''\<rparr>
         else (case defaultDisplays of
                 None \<Rightarrow> e\<lparr>el_display := ''block''\<rparr>
               | Some ds \<Rightarrow> (case nth_opt ds index of None \<Rightarrow> e | Some d \<Rightarrow> e\<lparr>el_display := d\<rparr>))) p)
       [0..<length ids] p"

definition trueAndVisible :: "string \<Rightarrow> string \<Rightarrow> page \<Rightarrow> bool js_result" where
  "trueAndVisible elementId visibilityId p =
     res_bind (get_el p elementId) (\<lambda>e.
       if el_checked e then res_bind (get_el p visibilityId) (\<lambda>v. Inr (el_display v \<noteq> ''none'')) else Inr False)"

text \<open>
  \<open>element.readonly = false\<close> sets a property of that name, which no browser reads: the \<open>readOnly\<close>
  state of the element stays.
\<close>

definition enable_el :: "element \<Rightarrow> element" where
  "enable_el e =
     (let e1 = e\<lparr>el_disabled := False\<rparr>
      in if el_type e = ''text'' \<or> el_type e = ''textarea''
         then e1\<lparr>el_color := [], el_class := [''form-control'']\<rparr>
         else if is_select e then e1\<lparr>el_class := [''form-control'']\<rparr>
         else if el_type e = ''button'' then e1\<lparr>el_class := filter (\<lambda>c. c \<noteq> ''disabled'') (el_class e)\<rparr>
         else e1)"

definition disable_el :: "string \<Rightarrow> element \<Rightarrow> element" where
  "disable_el defaultValue e =
     (let e1 = e\<lparr>el_disabled := True\<rparr>
      in if el_type e = ''text'' \<or> el_type e = ''textarea''
         then (put_value defaultValue e1)\<lparr>el_color := ''#AAAAAA'', el_class := [''form-control'', ''disabled'']\<rparr>
         else if is_select e
         then (select_first (\<lambda>opt. snd opt = defaultValue) e1)\<lparr>el_class := [''form-control'', ''disabled'']\<rparr>
         else if el_type e = ''button''
         then e1\<lparr>el_class := (if ''disabled'' \<in> set (el_class e) then el_class e else el_class e @ [''disabled''])\<rparr>
         else if el_type e = ''file'' then put_value defaultValue e1
         else e1)"

definition setElementEnabled :: "string \<Rightarrow> bool \<Rightarrow> string \<Rightarrow> page \<Rightarrow> page js_result" where
  "setElementEnabled i enabled defaultValue p =
     upd_el i (if enabled then enable_el else disable_el defaultValue) p"

definition enableAssociatedField :: "string \<Rightarrow> string \<Rightarrow> string \<Rightarrow> page \<Rightarrow> page js_result" where
  "enableAssociatedField checkbox associatedId defaultValue p =
     res_bind (get_el p checkbox) (\<lambda>c. setElementEnabled associatedId (el_checked c) defaultValue p)"

definition setElementReadOnly :: "string \<Rightarrow> bool \<Rightarrow> page \<Rightarrow> page js_result" where
  "setElementReadOnly i readOnly p =
     upd_el i (\<lambda>e. (if readOnly then e\<lparr>el_disabled := False\<rparr> else e)\<lparr>el_readOnly := readOnly\<rparr>) p"

definition updateReadOnlyAssociate :: "string \<Rightarrow> element \<Rightarrow> page \<Rightarrow> page js_result" where
  "updateReadOnlyAssociate associate element p =
     upd_el associate (\<lambda>a. if el_readOnly a \<and> \<not> el_disabled a
        then (put_value (get_value element) a)\<lparr>el_color := el_color element\<rparr> else a) p"

text \<open>\<open>getSelectedValue\<close> is called, and may alert, once for every value of the list.\<close>

definition setInvisibleIfIdMatches ::
    "string \<Rightarrow> string \<Rightarrow> string \<Rightarrow> string list \<Rightarrow> string \<Rightarrow> string option \<Rightarrow> page \<Rightarrow> page js_result" where
  "setInvisibleIfIdMatches uiErr uiNex selectId invisibleOptionValues associatedElementId defaultDisplayMode p =
     (let displayMode = (case defaultDisplayMode of None \<Rightarrow> ''block'' | Some d \<Rightarrow> d)
      in case doc p associatedElementId of
           None \<Rightarrow> Inr p
         | Some visElement \<Rightarrow>
             res_bind
               (fold_res (\<lambda>v (p, found).
                  res_bind (getSelectedValue uiErr uiNex selectId p) (\<lambda>(p1, selected).
                    Inr (p1, if selected = Some v then True else found))) invisibleOptionValues (p, False))
               (\<lambda>(p1, found). upd_el associatedElementId
                  (\<lambda>e. e\<lparr>el_display := (if found then ''none'' else displayMode)\<rparr>) p1))"

section \<open>Proofreading\<close>

definition proofread_el :: "(string \<Rightarrow> nat) \<Rightarrow> nat \<Rightarrow> element \<Rightarrow> element" where
  "proofread_el proofFunction validReturnCode e =
     (if \<not> el_disabled e
      then e\<lparr>el_color := (if proofFunction (get_value e) = validReturnCode then [] else ''red'')\<rparr> else e)"

definition proofreadText :: "string \<Rightarrow> (string \<Rightarrow> nat) \<Rightarrow> nat \<Rightarrow> page \<Rightarrow> page js_result" where
  "proofreadText i proofFunction validReturnCode p = upd_el i (proofread_el proofFunction validReturnCode) p"

definition resetProofreadText :: "string \<Rightarrow> page \<Rightarrow> page js_result" where
  "resetProofreadText i p = upd_el i (\<lambda>e. e\<lparr>el_color := []\<rparr>) p"

definition resetProofreadFields :: "string list \<Rightarrow> page \<Rightarrow> page js_result" where
  "resetProofreadFields inputIds p = fold_res resetProofreadText inputIds p"

text \<open>One row of the parallel arrays \<open>inputIds\<close>, \<open>labelIds\<close>, \<open>functions\<close>, \<open>validReturnCodes\<close>, \<open>visibilityIds\<close>.\<close>

record proof_row =
  pr_input :: string
  pr_label :: string
  pr_function :: "string \<Rightarrow> nat"
  pr_valid :: nat
  pr_visibility :: "string option"

text \<open>\<open>labelStr.replace(/:/, "")\<close>: the first colon.\<close>

fun drop_colon :: "string \<Rightarrow> string" where
  "drop_colon [] = []"
| "drop_colon (c # cs) = (if c = CHR '':'' then cs else c # drop_colon cs)"

definition row_visible :: "proof_row \<Rightarrow> page \<Rightarrow> bool js_result" where
  "row_visible r p =
     (case pr_visibility r of
        None \<Rightarrow> Inr True
      | Some v \<Rightarrow> res_bind (get_el p v) (\<lambda>e. Inr (\<not> (el_display e = ''none'' \<or> el_disabled e))))"

definition proofread_row :: "string \<Rightarrow> proof_row \<Rightarrow> page \<times> string list \<Rightarrow> (page \<times> string list) js_result" where
  "proofread_row prfErr r = (\<lambda>(p, errorArray).
     res_bind (row_visible r p) (\<lambda>isVisible.
       if \<not> isVisible then Inr (p, errorArray)
       else res_bind (proofreadText (pr_input r) (pr_function r) (pr_valid r) p) (\<lambda>p1.
            res_bind (get_el p1 (pr_input r)) (\<lambda>input.
              if pr_function r (get_value input) \<noteq> pr_valid r
              then (case doc p1 (pr_label r) of
                      Some l \<Rightarrow> Inr (p1, errorArray @ [prfErr @ '' '' @ drop_colon (el_data l)])
                    | None \<Rightarrow> Inr (alert (''error in proofread: label with id '' @ pr_label r @ '' is not defined'') p1,
                                  errorArray @ [prfErr @ '' '' @ pr_label r]))
              else Inr (p1, errorArray)))))"

definition proofreadFields :: "string \<Rightarrow> proof_row list \<Rightarrow> page \<Rightarrow> (page \<times> string list) js_result" where
  "proofreadFields prfErr rows p = fold_res (proofread_row prfErr) rows (p, [])"

section \<open>Facts about the document\<close>

lemma get_el_Some [simp]: "doc p i = Some e \<Longrightarrow> get_el p i = Inr e"
  by (simp add: get_el_def)

lemma upd_el_Some [simp]: "doc p i = Some e \<Longrightarrow> upd_el i f p = Inr (set_el i (f e) p)"
  by (simp add: upd_el_def)

lemma doc_set_el [simp]: "doc (set_el i e p) j = (if j = i then Some e else doc p j)"
  "alerts (set_el i e p) = alerts p" "gvalue (set_el i e p) = gvalue p"
  by (auto simp: set_el_def)

lemma doc_alert [simp]: "doc (alert m p) = doc p"
  by (simp add: alert_def)

lemma option_index_Some:
  "option_index P xs = Some k \<longleftrightarrow> k < length xs \<and> P (xs ! k) \<and> (\<forall>j < k. \<not> P (xs ! j))"
proof (induction xs arbitrary: k)
  case Nil
  then show ?case by simp
next
  case (Cons x xs)
  show ?case
  proof (cases k)
    case 0
    then show ?thesis by auto
  next
    case (Suc m)
    have "(\<forall>j < Suc m. \<not> P ((x # xs) ! j)) \<longleftrightarrow> \<not> P x \<and> (\<forall>j < m. \<not> P (xs ! j))"
      by (auto simp: less_Suc_eq_0_disj)
    with Suc Cons show ?thesis by auto
  qed
qed

lemma option_index_None: "option_index P xs = None \<longleftrightarrow> (\<forall>x \<in> set xs. \<not> P x)"
  by (induction xs) auto

section \<open>What a select list shows\<close>

text \<open>A drop-down list shows one of its options as long as it has any.\<close>

definition sel_wf :: "element \<Rightarrow> bool" where
  "sel_wf e \<longleftrightarrow> el_type e = ''select-one''
     \<and> (if el_options e = [] then el_selected e = -1
        else 0 \<le> el_selected e \<and> nat (el_selected e) < length (el_options e))"

lemma sel_wf_select [simp]: "sel_wf e \<Longrightarrow> is_select e"
  by (simp add: sel_wf_def is_select_def)

lemma sel_wf_add [intro]: "sel_wf e \<Longrightarrow> sel_wf (sel_add txt v before e)"
  by (auto simp: sel_wf_def sel_add_def sel_reset_def Let_def min_def split: option.splits if_splits)

lemma sel_wf_remove [intro]: "sel_wf e \<Longrightarrow> sel_wf (sel_remove k e)"
  by (auto simp: sel_wf_def sel_remove_def sel_reset_def Let_def split: if_splits)

lemma sel_wf_select_first [intro]: "sel_wf e \<Longrightarrow> sel_wf (select_first P e)"
  by (auto simp: sel_wf_def select_first_def option_index_Some split: option.splits if_splits)

lemma select_first_options [simp]:
  "el_options (select_first P e) = el_options e" "el_type (select_first P e) = el_type e"
  by (auto simp: select_first_def split: option.splits)

lemma removeAll_result:
  assumes "sel_wf e"
  shows "removeAllOptionsFromSelectElement e = e\<lparr>el_options := [], el_selected := -1\<rparr>"
  using assms
proof (induction e rule: removeAllOptionsFromSelectElement.induct)
  case (1 e)
  show ?case
  proof (cases "el_options e = []")
    case True
    with 1(2) show ?thesis by (simp add: removeAllOptionsFromSelectElement.simps [of e] sel_wf_def)
  next
    case False
    with 1 have "removeAllOptionsFromSelectElement (sel_remove 0 e) =
        (sel_remove 0 e)\<lparr>el_options := [], el_selected := -1\<rparr>" by blast
    moreover have "(sel_remove 0 e)\<lparr>el_options := [], el_selected := -1\<rparr> = e\<lparr>el_options := [], el_selected := -1\<rparr>"
      by (simp add: sel_remove_def sel_reset_def Let_def)
    ultimately show ?thesis using False by (simp add: removeAllOptionsFromSelectElement.simps [of e])
  qed
qed

lemma sel_add_end:
  assumes "sel_wf e"
  shows "sel_add txt v None e =
    e\<lparr>el_options := el_options e @ [(txt, v)], el_selected := (if el_options e = [] then 0 else el_selected e)\<rparr>"
  using assms by (auto simp: sel_wf_def sel_add_def sel_reset_def Let_def)

lemma add_allowable_prefix:
  assumes "sel_wf e" "el_options e = []" "n \<le> length vals"
  shows "fold (\<lambda>k e. sel_add (name_at names k) (vals ! k) None e) [0..<n] e =
    e\<lparr>el_options := map (\<lambda>k. (name_at names k, vals ! k)) [0..<n], el_selected := (if n = 0 then -1 else 0)\<rparr>"
  using assms(3)
proof (induction n)
  case 0
  then show ?case using assms by (simp add: sel_wf_def)
next
  case (Suc n)
  let ?e = "e\<lparr>el_options := map (\<lambda>k. (name_at names k, vals ! k)) [0..<n], el_selected := (if n = 0 then -1 else 0)\<rparr>"
  have "sel_wf ?e" using assms by (simp add: sel_wf_def)
  with Suc show ?case by (simp add: sel_add_end)
qed

lemma add_allowable_result:
  assumes "sel_wf e" "el_options e = []" "length names = length vals"
  shows "add_allowable vals names e = e\<lparr>el_options := zip names vals, el_selected := (if vals = [] then -1 else 0)\<rparr>"
proof -
  have "map (\<lambda>k. (name_at names k, vals ! k)) [0..<length vals] = zip names vals"
    using assms(3) by (auto intro!: nth_equalityI simp: name_at_def nth_opt_def)
  then show ?thesis
    unfolding add_allowable_def by (simp add: add_allowable_prefix [OF assms(1,2)])
qed

lemma select_first_value:
  assumes "sel_wf e"
  shows "v \<in> snd ` set (el_options e) \<Longrightarrow> get_value (select_first (\<lambda>opt. snd opt = v) e) = v"
    and "v \<notin> snd ` set (el_options e) \<Longrightarrow> select_first (\<lambda>opt. snd opt = v) e = e"
proof -
  show "get_value (select_first (\<lambda>opt. snd opt = v) e) = v" if v: "v \<in> snd ` set (el_options e)"
  proof -
    have "option_index (\<lambda>opt. snd opt = v) (el_options e) \<noteq> None"
      using v by (auto simp: option_index_None)
    then obtain k where "option_index (\<lambda>opt. snd opt = v) (el_options e) = Some k" by blast
    then have "k < length (el_options e)" "snd (el_options e ! k) = v"
      and "select_first (\<lambda>opt. snd opt = v) e = e\<lparr>el_selected := int k\<rparr>"
      by (simp_all add: select_first_def) (simp_all add: option_index_Some)
    then show ?thesis
      using assms by (simp add: get_value_def is_select_def sel_wf_def)
  qed
  show "select_first (\<lambda>opt. snd opt = v) e = e" if "v \<notin> snd ` set (el_options e)"
  proof -
    have "option_index (\<lambda>opt. snd opt = v) (el_options e) = None"
      using that by (auto simp: option_index_None)
    then show ?thesis using assms by (auto simp: select_first_def sel_wf_def)
  qed
qed

lemma getSelectedValue_wf:
  assumes "doc p i = Some e" "sel_wf e"
  shows "getSelectedValue a b i p = Inr (p, Some (get_value e))"
  using assms by (auto simp: getSelectedValue_def sel_wf_def get_value_def is_select_def nth_opt_def split: if_splits)

text \<open>
  Reading back a selection: on a drop-down list, choosing a value that is one of its options makes
  \<open>getSelectedValue\<close> return it; choosing any other value leaves the page as it is.
\<close>

theorem setSelectedValue_get:
  assumes "doc p i = Some e" "sel_wf e"
  shows "\<exists>p'. setSelectedValue i v p = Inr p' \<and>
    (if v \<in> snd ` set (el_options e) then getSelectedValue a b i p' = Inr (p', Some v)
     else doc p' = doc p)"
proof -
  let ?e = "select_first (\<lambda>opt. snd opt = v) e"
  have "setSelectedValue i v p = Inr (set_el i ?e p)" using assms by (simp add: setSelectedValue_def)
  moreover have "getSelectedValue a b i (set_el i ?e p) = Inr (set_el i ?e p, Some (get_value ?e))"
    using assms by (intro getSelectedValue_wf) auto
  moreover have "doc (set_el i e p) = doc p" using assms by auto
  ultimately show ?thesis using select_first_value [OF assms(2)] by auto
qed

text \<open>
  Replacing the options of a drop-down list: it then has exactly the allowed options, and shows
  the value it showed before if that is still allowed, and the first allowed one otherwise.
\<close>

theorem setAllowableSelections_result:
  assumes "doc p i = Some e" "sel_wf e" "length names = length vals"
  shows "\<exists>p' e'. setAllowableSelections i vals names p = Inr p' \<and> doc p' i = Some e' \<and> sel_wf e'
    \<and> el_options e' = zip names vals
    \<and> get_value e' = (if get_value e \<in> set vals then get_value e else if vals = [] then [] else hd vals)"
proof (cases "el_options e = zip names vals")
  case True
  have "get_value e \<in> set vals" if "vals \<noteq> []"
  proof -
    have "nat (el_selected e) < length vals" using assms(2,3) True that by (auto simp: sel_wf_def split: if_splits)
    moreover from this have "get_value e = vals ! nat (el_selected e)"
      using assms(2,3) True by (auto simp: get_value_def is_select_def sel_wf_def split: if_splits)
    ultimately show ?thesis by simp
  qed
  moreover have "get_value e = []" if "vals = []" using that True assms(2) by (simp add: get_value_def)
  moreover have "setAllowableSelections i vals names p = Inr p"
    using assms True by (auto simp: setAllowableSelections_def doReplace_def nth_opt_def)
  ultimately show ?thesis using assms True by (intro exI [of _ p] exI [of _ e]) auto
next
  case False
  have replace: "doReplace vals names e"
  proof -
    have "\<exists>k < length vals. el_options e ! k \<noteq> (names ! k, vals ! k)" if "length vals = length (el_options e)"
      using False that assms(3) by (metis length_zip min.idem nth_equalityI nth_zip)
    then show ?thesis using assms(3) by (fastforce simp: doReplace_def nth_opt_def prod_eq_iff)
  qed
  let ?e = "e\<lparr>el_options := zip names vals, el_selected := (if vals = [] then -1 else 0)\<rparr>"
  have wf: "sel_wf ?e" using assms by (auto simp: sel_wf_def)
  have "add_allowable vals names (removeAllOptionsFromSelectElement e) = ?e"
    using assms by (simp add: removeAll_result add_allowable_result sel_wf_def)
  then have run: "setAllowableSelections i vals names p = setSelectedValue i (get_value e) (set_el i ?e p)"
    using assms replace getSelectedValue_wf [OF assms(1,2)] by (simp add: setAllowableSelections_def)
  let ?e' = "select_first (\<lambda>opt. snd opt = get_value e) ?e"
  have "setSelectedValue i (get_value e) (set_el i ?e p) = Inr (set_el i ?e' (set_el i ?e p))"
    by (simp add: setSelectedValue_def)
  moreover have vals: "snd ` set (el_options ?e) = set vals"
    using assms(3) by simp (metis list.set_map map_snd_zip)
  moreover have "get_value ?e = (if vals = [] then [] else hd vals)"
    using assms(2,3) by (auto simp: get_value_def is_select_def sel_wf_def hd_conv_nth)
  ultimately show ?thesis
    using run wf select_first_value [OF wf, of "get_value e"] by (auto split: if_splits)
qed

section \<open>Forms without errors\<close>

text \<open>Proofreading changes no more of a page than the colours of its elements.\<close>

definition same_fields :: "page \<Rightarrow> page \<Rightarrow> bool" where
  "same_fields p q \<longleftrightarrow>
     (\<forall>i. map_option (\<lambda>e. e\<lparr>el_color := []\<rparr>) (doc q i) = map_option (\<lambda>e. e\<lparr>el_color := []\<rparr>) (doc p i))"

lemma same_fields_refl [simp]: "same_fields p p"
  by (simp add: same_fields_def)

lemma same_fields_trans: "same_fields p q \<Longrightarrow> same_fields q r \<Longrightarrow> same_fields p r"
  by (simp add: same_fields_def)

lemma same_fieldsD:
  assumes "same_fields p q" "doc p i = Some e"
  shows "\<exists>c. doc q i = Some (e\<lparr>el_color := c\<rparr>)"
proof -
  have "map_option (\<lambda>e. e\<lparr>el_color := []\<rparr>) (doc q i) = Some (e\<lparr>el_color := []\<rparr>)"
    using assms by (metis same_fields_def option.simps(9))
  then obtain f where f: "doc q i = Some f" "f\<lparr>el_color := []\<rparr> = e\<lparr>el_color := []\<rparr>" by auto
  then have "f = e\<lparr>el_color := el_color f\<rparr>"
    by (metis element.surjective element.update_convs(9))
  then show ?thesis using f(1) by (intro exI [of _ "el_color f"]) simp
qed

lemma same_fields_proofread:
  assumes "doc p i = Some e"
  shows "same_fields p (set_el i (proofread_el f c e) p)" and "same_fields p (alert m p)"
  using assms by (auto simp: same_fields_def proofread_el_def)

lemma get_value_color [simp]: "get_value (e\<lparr>el_color := c\<rparr>) = get_value e"
  by (simp add: get_value_def is_select_def)

lemma get_value_class [simp]: "get_value (e\<lparr>el_class := c\<rparr>) = get_value e"
  by (simp add: get_value_def is_select_def)

lemma get_value_enable [simp]: "get_value (enable_el e) = get_value e"
  by (simp add: enable_el_def get_value_def is_select_def Let_def)

lemma get_value_proofread [simp]: "get_value (proofread_el f c e) = get_value e"
  by (simp add: proofread_el_def)

definition row_ok :: "page \<Rightarrow> proof_row \<Rightarrow> bool" where
  "row_ok p r \<longleftrightarrow> (\<forall>e. doc p (pr_input r) = Some e \<longrightarrow> pr_function r (get_value e) = pr_valid r)"

definition row_present :: "page \<Rightarrow> proof_row \<Rightarrow> bool" where
  "row_present p r \<longleftrightarrow> doc p (pr_input r) \<noteq> None \<and> (\<forall>v. pr_visibility r = Some v \<longrightarrow> doc p v \<noteq> None)"

definition row_shown :: "page \<Rightarrow> proof_row \<Rightarrow> bool" where
  "row_shown p r \<longleftrightarrow> row_visible r p = Inr True"

lemma row_visible_same:
  assumes "same_fields p q" "row_present p r"
  shows "row_visible r q = row_visible r p"
proof (cases "pr_visibility r")
  case None
  then show ?thesis by (simp add: row_visible_def)
next
  case (Some v)
  with assms(2) obtain e where "doc p v = Some e" by (auto simp: row_present_def)
  with same_fieldsD [OF assms(1) this] Some show ?thesis by (auto simp: row_visible_def)
qed

lemma row_present_same: "same_fields p q \<Longrightarrow> row_present p r \<Longrightarrow> row_present q r"
  unfolding row_present_def by (metis same_fieldsD not_None_eq)

lemma row_ok_same: "same_fields p q \<Longrightarrow> row_present p r \<Longrightarrow> row_ok q r = row_ok p r"
  by (auto simp: row_present_def row_ok_def dest!: same_fieldsD)

lemma proofread_row_result:
  assumes "row_present p r"
  shows "\<exists>q errs'. proofread_row prfErr r (p, errs) = Inr (q, errs @ errs') \<and> same_fields p q
    \<and> (errs' = [] \<longleftrightarrow> (row_shown p r \<longrightarrow> row_ok p r))"
proof -
  obtain e where e: "doc p (pr_input r) = Some e" using assms by (auto simp: row_present_def)
  have "\<exists>shown. row_visible r p = Inr shown"
    using assms by (cases "pr_visibility r") (auto simp: row_visible_def row_present_def)
  then obtain shown where s: "row_visible r p = Inr shown" by blast
  let ?p = "set_el (pr_input r) (proofread_el (pr_function r) (pr_valid r) e) p"
  have same: "same_fields p ?p" using e by (rule same_fields_proofread)
  have alerted: "same_fields p (alert m ?p)" for m
    using same by (simp add: same_fields_def)
  show ?thesis
  proof (cases "shown \<and> pr_function r (get_value e) \<noteq> pr_valid r")
    case True
    then show ?thesis
      using s e same alerted
      by (auto simp: proofread_row_def proofreadText_def row_shown_def row_ok_def split: option.split)
  next
    case False
    then show ?thesis
      using s e same by (auto simp: proofread_row_def proofreadText_def row_shown_def row_ok_def)
  qed
qed

lemma proofread_rows_result:
  assumes "\<forall>r \<in> set rows. row_present p r"
  shows "\<exists>q errs'. fold_res (proofread_row prfErr) rows (p, errs) = Inr (q, errs @ errs') \<and> same_fields p q
    \<and> (errs' = [] \<longleftrightarrow> (\<forall>r \<in> set rows. row_shown p r \<longrightarrow> row_ok p r))"
  using assms
proof (induction rows arbitrary: p errs)
  case Nil
  then show ?case by simp
next
  case (Cons r rows)
  then have present: "row_present p r" by simp
  obtain q e1 where q: "proofread_row prfErr r (p, errs) = Inr (q, errs @ e1)" "same_fields p q"
      "e1 = [] \<longleftrightarrow> (row_shown p r \<longrightarrow> row_ok p r)"
    using proofread_row_result [OF present] by blast
  have "\<forall>r \<in> set rows. row_present q r" using Cons.prems row_present_same [OF q(2)] by simp
  from Cons.IH [OF this, of "errs @ e1"] obtain t e2 where
      t: "fold_res (proofread_row prfErr) rows (q, errs @ e1) = Inr (t, (errs @ e1) @ e2)" "same_fields q t"
      "e2 = [] \<longleftrightarrow> (\<forall>r \<in> set rows. row_shown q r \<longrightarrow> row_ok q r)" by blast
  have "\<forall>r \<in> set rows. row_shown q r = row_shown p r \<and> row_ok q r = row_ok p r"
    using Cons.prems q(2) by (simp add: row_shown_def row_visible_same row_ok_same)
  with t(3) q(3) have "e1 @ e2 = [] \<longleftrightarrow> (\<forall>r \<in> set (r # rows). row_shown p r \<longrightarrow> row_ok p r)" by simp
  with q t same_fields_trans [OF q(2) t(2)] show ?case by auto
qed

text \<open>
  C21. Proofreading a form whose fields exist returns, without changing any value on the page, and
  reports no error exactly when the validator of every field that is shown and not disabled returns
  its valid code.
\<close>

theorem proofreadFields_result:
  assumes "\<forall>r \<in> set rows. row_present p r"
  shows "\<exists>q errs. proofreadFields prfErr rows p = Inr (q, errs) \<and> same_fields p q
    \<and> (errs = [] \<longleftrightarrow> (\<forall>r \<in> set rows. row_shown p r \<longrightarrow> row_ok p r))"
  using proofread_rows_result [OF assms, of prfErr "[]"] by (simp add: proofreadFields_def)

context validator
begin

text \<open>A row checked with a validator of the contract.\<close>

lemma row_ok_accepts:
  assumes "pr_function r = validate" "pr_valid r = 0" "doc p (pr_input r) = Some e"
  shows "row_ok p r \<longleftrightarrow> accepts (get_value e)"
  using assms by (simp add: row_ok_def code_iff)

lemma proofread_color:
  assumes "\<not> el_disabled e"
  shows "el_color (proofread_el validate 0 e) = (if accepts (get_value e) then [] else ''red'')"
  using assms by (simp add: proofread_el_def code_iff)

end

section \<open>Enabling and disabling a field\<close>

text \<open>
  Disabling a text field shows the default value greyed out, and disabling a drop-down list shows
  the default if it is one of the options; enabling it again makes it editable without touching what
  it shows. The field is greyed out exactly while it is disabled.
\<close>

theorem setElementEnabled_result:
  assumes "doc p i = Some e" "el_type e = ''text'' \<or> sel_wf e \<and> v \<in> snd ` set (el_options e)"
  shows "\<exists>q f r g. setElementEnabled i False v p = Inr q \<and> doc q i = Some f
      \<and> el_disabled f \<and> get_value f = v \<and> ''disabled'' \<in> set (el_class f)
      \<and> setElementEnabled i True v q = Inr r \<and> doc r i = Some g
      \<and> \<not> el_disabled g \<and> get_value g = v \<and> ''disabled'' \<notin> set (el_class g)"
proof (cases "el_type e = ''text''")
  case True
  with assms(1) show ?thesis
    by (simp add: setElementEnabled_def disable_el_def enable_el_def put_value_def get_value_def is_select_def Let_def)
next
  case False
  with assms(2) have wf: "sel_wf e" and v: "v \<in> snd ` set (el_options e)" by auto
  let ?f = "disable_el v e"
  have type: "el_type e = ''select-one''" using wf by (simp add: sel_wf_def)
  have wf': "sel_wf (e\<lparr>el_disabled := True\<rparr>)" using wf by (simp add: sel_wf_def)
  have f: "?f = (select_first (\<lambda>opt. snd opt = v) (e\<lparr>el_disabled := True\<rparr>))\<lparr>el_class := [''form-control'', ''disabled'']\<rparr>"
    using type by (simp add: disable_el_def is_select_def)
  have "get_value ?f = v"
    unfolding f get_value_class using v by (intro select_first_value(1) [OF wf']) simp
  moreover have "el_disabled ?f" by (simp add: f select_first_def split: option.split)
  moreover have "''disabled'' \<in> set (el_class ?f)" "el_type ?f = ''select-one''"
    using type by (simp_all add: f)
  moreover from this have "\<not> el_disabled (enable_el ?f)" "''disabled'' \<notin> set (el_class (enable_el ?f))"
    by (simp_all add: enable_el_def is_select_def)
  ultimately show ?thesis
    using assms(1) by (simp add: setElementEnabled_def)
qed

section \<open>A small page\<close>

definition demo_text :: element where
  "demo_text = \<lparr>el_type = ''text'', el_value = ''8080'', el_options = [], el_selected = -1, el_checked = False,
     el_disabled = False, el_readOnly = False, el_display = ''block'', el_color = [], el_class = [], el_data = []\<rparr>"

definition demo_select :: element where
  "demo_select = demo_text\<lparr>el_type := ''select-one'', el_options := [(''Off'', ''0''), (''On'', ''1'')], el_selected := 1\<rparr>"

definition demo_page :: page where
  "demo_page = \<lparr>doc = [''port'' \<mapsto> demo_text, ''mode'' \<mapsto> demo_select], alerts = [], gvalue = None\<rparr>"

lemma demo_docs [simp]: "doc demo_page ''port'' = Some demo_text" "doc demo_page ''mode'' = Some demo_select"
  by (simp_all add: demo_page_def)

lemma demo_select_wf [simp]: "sel_wf demo_select"
  by (simp add: sel_wf_def demo_select_def)

theorem setSelectedValue_get_witness:
  "\<exists>p'. setSelectedValue ''mode'' ''0'' demo_page = Inr p' \<and> getSelectedValue [] [] ''mode'' p' = Inr (p', Some ''0'')"
  using setSelectedValue_get [of demo_page "''mode''" demo_select "''0''" "[]" "[]"]
  by (simp add: demo_select_def [THEN arg_cong [where f = el_options]] demo_text_def)

theorem setAllowableSelections_result_witness:
  "\<exists>p' e'. setAllowableSelections ''mode'' [''1'', ''2''] [''On'', ''Auto''] demo_page = Inr p'
     \<and> doc p' ''mode'' = Some e' \<and> sel_wf e' \<and> get_value e' = ''1''"
proof -
  have "get_value demo_select = ''1''" by code_simp
  then show ?thesis
    using setAllowableSelections_result [of demo_page "''mode''" demo_select "[''On'', ''Auto'']" "[''1'', ''2'']"] by auto
qed

theorem proofreadFields_result_witness:
  "\<exists>q errs. proofreadFields ''Error in'' [\<lparr>pr_input = ''port'', pr_label = ''port_label'', pr_function = validatePort,
       pr_valid = 0, pr_visibility = Some ''mode''\<rparr>] demo_page = Inr (q, errs) \<and> errs = []"
proof -
  let ?r = "\<lparr>pr_input = ''port'', pr_label = ''port_label'', pr_function = validatePort, pr_valid = 0,
       pr_visibility = Some ''mode''\<rparr>"
  have "\<forall>r \<in> set [?r]. row_present demo_page r" by (simp add: row_present_def)
  moreover have "validatePort (get_value demo_text) = 0"
    by (simp add: port.code_iff number_in_def number_text_def get_value_def is_select_def demo_text_def
        is_digit_def base_val_def digit_val_def)
  then have "row_ok demo_page ?r" by (simp add: row_ok_def)
  ultimately show ?thesis
    using proofreadFields_result [of "[?r]" demo_page "''Error in''"] by auto
qed

theorem setElementEnabled_result_witness:
  "\<exists>q f. setElementEnabled ''port'' False ''80'' demo_page = Inr q \<and> doc q ''port'' = Some f \<and> get_value f = ''80''"
proof -
  have "el_type demo_text = ''text''" by (simp add: demo_text_def)
  then show ?thesis
    using setElementEnabled_result [of demo_page "''port''" demo_text "''80''"] by auto
qed

end
