(* ===== verification/Page_Fields.thy ===== *)
theory Page_Fields
  imports Page_Dom Uci_Container
begin

text \<open>
  Between the page and the configuration: the functions of \<open>common.js\<close> that load the fields of a
  page from a \<open>UCIContainer\<close> and save them back to it, one row of parallel arrays per field. The
  theorems state that saving writes exactly the fields that are shown, through the laws of
  \<open>config_store\<close>, and that loading a page and saving it untouched changes nothing.
\<close>

section \<open>Saving\<close>

text \<open>A row: the element, its visibility element, and the option it stands for.\<close>

record field =
  fld_id :: string
  fld_vis :: "string option"
  fld_pkg :: string
  fld_section :: string
  fld_option :: string

definition fld_key :: "field \<Rightarrow> string" where
  "fld_key f = uci_key (fld_pkg f) (fld_section f) (fld_option f)"

definition vis_shown :: "string option \<Rightarrow> page \<Rightarrow> bool js_result" where
  "vis_shown visibilityId p =
     (case visibilityId of
        None \<Rightarrow> Inr True
      | Some v \<Rightarrow> res_bind (get_el p v) (\<lambda>e. Inr (el_display e \<noteq> ''none'')))"

type_synonym setter = "field \<Rightarrow> page \<times> uci \<Rightarrow> (page \<times> uci) js_result"

definition field_set :: "field \<Rightarrow> string \<Rightarrow> uci \<Rightarrow> uci" where
  "field_set f v u = uci_set (fld_pkg f) (fld_section f) (fld_option f) (Str v) False u"

definition setVariableFromValue :: "bool \<Rightarrow> setter" where
  "setVariableFromValue setIfBlank f = (\<lambda>(p, u).
     res_bind (vis_shown (fld_vis f) p) (\<lambda>isVisible.
       if isVisible
       then res_bind (get_el p (fld_id f)) (\<lambda>e.
              let v = get_value e; p1 = p\<lparr>gvalue := Some v\<rparr>
              in Inr (p1, if v \<noteq> [] \<or> setIfBlank then field_set f v u else u))
       else Inr (p, u)))"

definition setVariableFromModifiedValue :: "bool \<Rightarrow> (string \<Rightarrow> string) \<Rightarrow> setter" where
  "setVariableFromModifiedValue setIfBlank modFunction f = (\<lambda>(p, u).
     res_bind (vis_shown (fld_vis f) p) (\<lambda>isVisible.
       if isVisible
       then res_bind (get_el p (fld_id f)) (\<lambda>e.
              let v = get_value e; p1 = p\<lparr>gvalue := Some v\<rparr>
              in Inr (p1, if v \<noteq> [] \<or> setIfBlank then field_set f (modFunction v) u else u))
       else Inr (p, u)))"

text \<open>The values of several elements, in order.\<close>

primrec read_values :: "page \<Rightarrow> string list \<Rightarrow> string list js_result" where
  "read_values p [] = Inr []"
| "read_values p (i # is) =
     res_bind (get_el p i) (\<lambda>e. res_bind (read_values p is) (\<lambda>vs. Inr (get_value e # vs)))"

text \<open>The test is on the global \<open>value\<close>, which this function does not assign.\<close>

definition setVariableFromCombined :: "string list \<Rightarrow> bool \<Rightarrow> (string list \<Rightarrow> string) \<Rightarrow> setter" where
  "setVariableFromCombined elementIds setIfBlank combineFunction f = (\<lambda>(p, u).
     res_bind (vis_shown (fld_vis f) p) (\<lambda>isVisible.
       if isVisible
       then res_bind (read_values p elementIds) (\<lambda>vs.
              case gvalue p of
                None \<Rightarrow> Inl ReferenceError
              | Some v \<Rightarrow> Inr (p, if v \<noteq> [] \<or> setIfBlank then field_set f (combineFunction vs) u else u))
       else Inr (p, u)))"

definition concat_step :: "string list \<Rightarrow> (string option) list option \<Rightarrow> nat \<Rightarrow> page \<times> string \<Rightarrow> (page \<times> string) js_result" where
  "concat_step elementIds visibilityIds k = (\<lambda>(p, acc).
     res_bind (vis_shown (case visibilityIds of None \<Rightarrow> None
                          | Some vs \<Rightarrow> (case nth_opt vs k of Some (Some v) \<Rightarrow> Some v | _ \<Rightarrow> None)) p) (\<lambda>idVisible.
     res_bind (get_el p (elementIds ! k)) (\<lambda>e.
       let v = get_value e;
           endSpace = (if Suc k < length elementIds then '' '' else [])
       in Inr (p\<lparr>gvalue := Some v\<rparr>, if idVisible \<and> v \<noteq> [] then acc @ v @ endSpace else acc))))"

definition setVariableFromConcatenation :: "string list \<Rightarrow> (string option) list option \<Rightarrow> bool \<Rightarrow> setter" where
  "setVariableFromConcatenation elementIds visibilityIds setIfBlank f = (\<lambda>(p, u).
     res_bind (fold_res (concat_step elementIds visibilityIds) [0..<length elementIds] (p, [])) (\<lambda>(p1, txt).
       Inr (p1, if txt \<noteq> [] \<or> setIfBlank then field_set f txt u else u)))"

definition setVariableConditionally :: "(string \<Rightarrow> bool) \<Rightarrow> bool \<Rightarrow> string \<Rightarrow> setter" where
  "setVariableConditionally testFunction useValueFromElement alternateValue f = (\<lambda>(p, u).
     res_bind (vis_shown (fld_vis f) p) (\<lambda>isVisible.
       if isVisible
       then res_bind (if useValueFromElement then res_bind (get_el p (fld_id f)) (\<lambda>e. Inr (get_value e))
                      else Inr alternateValue) (\<lambda>v.
              Inr (p\<lparr>gvalue := Some v\<rparr>, if testFunction v then field_set f v u else u))
       else Inr (p, u)))"

text \<open>Each row's function is applied to the row and its further parameters, in order.\<close>

definition setVariables :: "(field \<times> setter) list \<Rightarrow> page \<times> uci \<Rightarrow> (page \<times> uci) js_result" where
  "setVariables rows s = fold_res (\<lambda>(f, nextFunction). nextFunction f) rows s"

section \<open>Loading\<close>

type_synonym loader = "field \<Rightarrow> uci \<Rightarrow> page \<Rightarrow> page js_result"

definition field_get :: "field \<Rightarrow> uci \<Rightarrow> uci_val" where
  "field_get f u = uci_get u (fld_pkg f) (fld_section f) (fld_option f)"

text \<open>\<open>if(v != null && v != '') e.value = v; else if(defaultValue != null) e.value = defaultValue\<close>.\<close>

definition show_value :: "string \<Rightarrow> string option \<Rightarrow> string option \<Rightarrow> page \<Rightarrow> page js_result" where
  "show_value elementId v defaultValue p =
     (if v \<noteq> None \<and> v \<noteq> Some [] then upd_el elementId (put_value (the v)) p
      else (case defaultValue of None \<Rightarrow> Inr p | Some d \<Rightarrow> upd_el elementId (put_value d) p))"

definition loadSelectedValueFromVariable :: "string option \<Rightarrow> loader" where
  "loadSelectedValueFromVariable defaultValue f u p =
     (let v = val_string (field_get f u)
      in if v \<noteq> [] then setSelectedValue (fld_id f) v p
         else (case defaultValue of None \<Rightarrow> Inr p | Some d \<Rightarrow> setSelectedValue (fld_id f) d p))"

definition loadValueFromVariable :: "string option \<Rightarrow> loader" where
  "loadValueFromVariable defaultValue f u p =
     show_value (fld_id f) (Some (val_string (field_get f u))) defaultValue p"

definition loadValueFromModifiedVariable :: "string option \<Rightarrow> (uci_val \<Rightarrow> string option) \<Rightarrow> loader" where
  "loadValueFromModifiedVariable defaultValue modificationFunction f u p =
     show_value (fld_id f) (modificationFunction (field_get f u)) defaultValue p"

text \<open>An array has no \<open>split\<close>: a list option is a \<open>TypeError\<close>.\<close>

definition is_list_sep :: "char \<Rightarrow> bool" where
  "is_list_sep c \<longleftrightarrow> c = CHR '','' \<or> is_ws c"

definition loadValueFromVariableAtIndex :: "string option \<Rightarrow> nat \<Rightarrow> loader" where
  "loadValueFromVariableAtIndex defaultValue index f u p =
     (case field_get f u of
        Lst _ \<Rightarrow> Inl TypeError
      | Str vStr \<Rightarrow>
          let vSplit = split_runs is_list_sep vStr;
              v = (if index < length vSplit then vSplit ! index else [])
          in show_value (fld_id f) (Some v) defaultValue p)"

definition loadChecked :: "(uci_val \<Rightarrow> bool) \<Rightarrow> loader" where
  "loadChecked test f u p = upd_el (fld_id f) (\<lambda>e. e\<lparr>el_checked := test (field_get f u)\<rparr>) p"

definition loadValueFromMultipleVariables ::
    "string \<Rightarrow> (string \<times> string \<times> string) list \<Rightarrow> (uci_val list \<Rightarrow> string option) \<Rightarrow> string option \<Rightarrow> uci \<Rightarrow> page \<Rightarrow> page js_result" where
  "loadValueFromMultipleVariables elementId vars combineFunc defaultValue u p =
     show_value elementId (combineFunc (map (\<lambda>(pkg, section, option). uci_get u pkg section option) vars)) defaultValue p"

definition loadVariables :: "uci \<Rightarrow> (field \<times> loader) list \<Rightarrow> page \<Rightarrow> page js_result" where
  "loadVariables u rows p = fold_res (\<lambda>(f, nextFunc) p. nextFunc f u p) rows p"

section \<open>What saving writes\<close>

definition field_present :: "page \<Rightarrow> field \<Rightarrow> bool" where
  "field_present p f \<longleftrightarrow> doc p (fld_id f) \<noteq> None \<and> (\<forall>v. fld_vis f = Some v \<longrightarrow> doc p v \<noteq> None)"

definition field_shown :: "page \<Rightarrow> field \<Rightarrow> bool" where
  "field_shown p f \<longleftrightarrow> vis_shown (fld_vis f) p = Inr True"

definition field_value :: "page \<Rightarrow> field \<Rightarrow> string" where
  "field_value p f = (case doc p (fld_id f) of None \<Rightarrow> [] | Some e \<Rightarrow> get_value e)"

definition field_written :: "page \<Rightarrow> field \<times> bool \<Rightarrow> bool" where
  "field_written p = (\<lambda>(f, setIfBlank). field_shown p f \<and> (field_value p f \<noteq> [] \<or> setIfBlank))"

definition save_rows :: "(field \<times> bool) list \<Rightarrow> (field \<times> setter) list" where
  "save_rows rows = map (\<lambda>(f, setIfBlank). (f, setVariableFromValue setIfBlank)) rows"

lemma field_preds_doc:
  assumes "doc q = doc p"
  shows "field_present q f = field_present p f" "field_shown q f = field_shown p f"
    "field_value q f = field_value p f" "field_written q r = field_written p r"
  using assms
  by (auto simp: field_present_def field_shown_def field_value_def field_written_def vis_shown_def get_el_def
      split: option.splits prod.splits)

lemma setVariableFromValue_step:
  assumes "field_present p f"
  shows "\<exists>q. doc q = doc p \<and> setVariableFromValue b f (p, u) =
    Inr (q, if field_written p (f, b) then uci_set_key (fld_key f) (Str (field_value p f)) False u else u)"
proof -
  have "\<exists>shown. vis_shown (fld_vis f) p = Inr shown"
    using assms by (cases "fld_vis f") (auto simp: vis_shown_def field_present_def)
  then obtain shown where "vis_shown (fld_vis f) p = Inr shown" by blast
  moreover obtain e where "doc p (fld_id f) = Some e" using assms by (auto simp: field_present_def)
  ultimately show ?thesis
    by (cases shown)
      (auto simp: setVariableFromValue_def field_written_def field_shown_def field_value_def
        field_set_def uci_set_def fld_key_def Let_def)
qed

lemma setVariables_put_all:
  assumes "\<forall>r \<in> set rows. field_present p (fst r)"
  shows "\<exists>q. doc q = doc p \<and> setVariables (save_rows rows) (p, u) =
    Inr (q, ucs.put_all (map (\<lambda>(f, b). (fld_key f, Str (field_value p f))) (filter (field_written p) rows)) u)"
  using assms
proof (induction rows arbitrary: p u)
  case Nil
  then show ?case by (auto simp: setVariables_def save_rows_def)
next
  case (Cons r rows)
  obtain f b where r: "r = (f, b)" by (cases r)
  with Cons.prems obtain q where q: "doc q = doc p" "setVariableFromValue b f (p, u) =
      Inr (q, if field_written p (f, b) then uci_set_key (fld_key f) (Str (field_value p f)) False u else u)"
    (is "_ = Inr (q, ?u)")
    using setVariableFromValue_step [of p f b u] by auto
  have present: "\<forall>r \<in> set rows. field_present q (fst r)"
    using Cons.prems by (simp add: field_preds_doc [OF q(1)])
  have same: "field_written q = field_written p" "field_value q = field_value p"
    using field_preds_doc [OF q(1)] by auto
  from Cons.IH [OF present, of ?u] obtain t where "doc t = doc q"
    "setVariables (save_rows rows) (q, ?u) =
      Inr (t, ucs.put_all (map (\<lambda>(f, b). (fld_key f, Str (field_value p f))) (filter (field_written p) rows)) ?u)"
    unfolding same by blast
  then show ?case using q r by (auto simp: setVariables_def save_rows_def)
qed

lemma setVariables_effect:
  assumes "\<forall>r \<in> set rows. field_present p (fst r) \<and> \<not> ulists u (fld_key (fst r))"
    and "distinct (map (\<lambda>r. fld_key (fst r)) rows)" and "uci_wf u"
  shows "\<exists>q u'. setVariables (save_rows rows) (p, u) = Inr (q, u') \<and> doc q = doc p \<and> uci_wf u'
    \<and> (\<forall>r \<in> set rows. field_written p r \<longrightarrow> uvals u' (fld_key (fst r)) = Some (Str (field_value p (fst r))))
    \<and> (\<forall>k. (\<forall>r \<in> set rows. field_written p r \<longrightarrow> k \<noteq> fld_key (fst r)) \<longrightarrow> uvals u' k = uvals u k)
    \<and> ((\<forall>r \<in> set rows. fld_key (fst r) \<in> set (ukeys u)) \<longrightarrow> ukeys u' = ukeys u)"
proof -
  let ?ws = "filter (field_written p) rows"
  let ?kvs = "map (\<lambda>(f, b). (fld_key f, Str (field_value p f))) ?ws"
  have keys: "fst ` set ?kvs = (\<lambda>r. fld_key (fst r)) ` set ?ws" by force
  have "map fst ?kvs = map (\<lambda>r. fld_key (fst r)) ?ws" by (auto simp: comp_def split_def)
  moreover have "distinct (map (\<lambda>r. fld_key (fst r)) ?ws)" using assms(2) by (simp add: distinct_map_filter)
  ultimately have dist: "distinct (map fst ?kvs)" by (simp only:)
  obtain q where q: "doc q = doc p" "setVariables (save_rows rows) (p, u) = Inr (q, ucs.put_all ?kvs u)"
    using setVariables_put_all [of rows p u] assms(1) by blast
  have "uvals (ucs.put_all ?kvs u) (fld_key (fst r)) = Some (Str (field_value p (fst r)))"
    if "r \<in> set rows" "field_written p r" for r
  proof -
    have mem: "(fld_key (fst r), Str (field_value p (fst r))) \<in> set ?kvs"
      using that by (auto simp: split_def intro!: image_eqI [of _ _ r])
    have "\<forall>k \<in> fst ` set ?kvs. \<not> ulists u k" unfolding keys using assms(1) by auto
    moreover have "fld_key (fst r) \<in> fst ` set ?kvs" unfolding keys using that by auto
    ultimately have "uvals (ucs.put_all ?kvs u) (fld_key (fst r)) = map_of (rev ?kvs) (fld_key (fst r))"
      by (rule ucs.put_all_last_wins)
    also have "\<dots> = Some (Str (field_value p (fst r)))"
      using mem dist by (simp add: rev_map [symmetric] del: set_map map_map)
    finally show ?thesis .
  qed
  moreover have "uvals (ucs.put_all ?kvs u) k = uvals u k"
    if "\<forall>r \<in> set rows. field_written p r \<longrightarrow> k \<noteq> fld_key (fst r)" for k
    using that keys by (intro ucs.put_all_frame) auto
  moreover have "uci_wf (ucs.put_all ?kvs u)" using assms(3) by (rule ucs.inv_put_all)
  moreover have "ukeys (ucs.put_all ?kvs u) = ukeys u" if "\<forall>r \<in> set rows. fld_key (fst r) \<in> set (ukeys u)"
  proof -
    have "\<forall>k \<in> fst ` set ?kvs. k \<in> set (ukeys u)" unfolding keys using that by auto
    then show ?thesis using ucs.order_put_all [OF assms(3), of ?kvs] by (auto simp: filter_empty_conv)
  qed
  ultimately show ?thesis using q by blast
qed

text \<open>
  C19. Saving a page whose fields exist returns and leaves the page's elements alone. Every field that
  is shown, and not blank or to be saved when blank, has its value under its key; every other key
  of the configuration keeps its value, and the container its invariant.
\<close>

theorem setVariables_writes:
  assumes "\<forall>r \<in> set rows. field_present p (fst r) \<and> \<not> ulists u (fld_key (fst r))"
    and "distinct (map (\<lambda>r. fld_key (fst r)) rows)" and "uci_wf u"
  shows "\<exists>q u'. setVariables (save_rows rows) (p, u) = Inr (q, u') \<and> doc q = doc p \<and> uci_wf u'
    \<and> (\<forall>r \<in> set rows. field_written p r \<longrightarrow> uvals u' (fld_key (fst r)) = Some (Str (field_value p (fst r))))
    \<and> (\<forall>k. (\<forall>r \<in> set rows. field_written p r \<longrightarrow> k \<noteq> fld_key (fst r)) \<longrightarrow> uvals u' k = uvals u k)"
  using setVariables_effect [OF assms] by blast

section \<open>Loading and saving again\<close>

text \<open>An element can show a value when it is no select list or one with that option.\<close>

definition can_show :: "string \<Rightarrow> element \<Rightarrow> bool" where
  "can_show v e \<longleftrightarrow> (is_select e \<longrightarrow> v \<in> snd ` set (el_options e))"

lemma get_put_value: "can_show v e \<Longrightarrow> get_value (put_value v e) = v"
proof (cases "is_select e")
  case True
  assume "can_show v e"
  with True have "option_index (\<lambda>opt. snd opt = v) (el_options e) \<noteq> None"
    by (auto simp: can_show_def option_index_None)
  then obtain k where k: "option_index (\<lambda>opt. snd opt = v) (el_options e) = Some k" by blast
  then have "k < length (el_options e)" "snd (el_options e ! k) = v" by (auto simp: option_index_Some)
  with k True show ?thesis by (simp add: get_value_def put_value_def is_select_def)
qed (simp add: get_value_def put_value_def is_select_def)

lemma put_value_display [simp]: "el_display (put_value v e) = el_display e"
  by (simp add: put_value_def)

text \<open>
  The text of an option, and what its field shows once it is loaded: that text, the default when there is
  none, and without a default what the element showed before.
\<close>

definition option_text :: "uci \<Rightarrow> field \<Rightarrow> string" where
  "option_text u f = val_string (field_get f u)"

definition loaded_text :: "page \<Rightarrow> uci \<Rightarrow> string option \<Rightarrow> field \<Rightarrow> string" where
  "loaded_text p u defaultValue f =
     (if option_text u f \<noteq> [] then option_text u f
      else (case defaultValue of None \<Rightarrow> field_value p f | Some d \<Rightarrow> d))"

definition loadable :: "page \<Rightarrow> uci \<Rightarrow> string option \<Rightarrow> field \<Rightarrow> bool" where
  "loadable p u defaultValue f \<longleftrightarrow>
     (\<exists>e. doc p (fld_id f) = Some e \<and> (option_text u f = [] \<and> defaultValue = None \<or> can_show (loaded_text p u defaultValue f) e))"

lemma load_one:
  assumes "loadable p u d f"
  shows "\<exists>q. loadValueFromVariable d f u p = Inr q \<and> field_value q f = loaded_text p u d f
    \<and> (\<forall>i. i \<noteq> fld_id f \<longrightarrow> doc q i = doc p i)
    \<and> (\<forall>i. map_option el_display (doc q i) = map_option el_display (doc p i))"
proof -
  obtain e where e: "doc p (fld_id f) = Some e" using assms by (auto simp: loadable_def)
  show ?thesis
  proof (cases "option_text u f = [] \<and> d = None")
    case True
    then show ?thesis by (simp add: loadValueFromVariable_def show_value_def option_text_def loaded_text_def)
  next
    case False
    then have "can_show (loaded_text p u d f) e" using assms e by (auto simp: loadable_def)
    then have shown: "get_value (put_value (loaded_text p u d f) e) = loaded_text p u d f" by (rule get_put_value)
    have "loadValueFromVariable d f u p = Inr (set_el (fld_id f) (put_value (loaded_text p u d f) e) p)"
      using False e by (auto simp: loadValueFromVariable_def show_value_def option_text_def loaded_text_def upd_el_def get_el_def)
    then show ?thesis using shown e by (simp add: field_value_def)
  qed
qed

lemma loadVariables_values:
  assumes "\<forall>f \<in> set fs. loadable p u (dflt f) f" "distinct (map fld_id fs)"
  shows "\<exists>q. loadVariables u (map (\<lambda>f. (f, loadValueFromVariable (dflt f))) fs) p = Inr q
    \<and> (\<forall>f \<in> set fs. field_value q f = loaded_text p u (dflt f) f)
    \<and> (\<forall>i. i \<notin> fld_id ` set fs \<longrightarrow> doc q i = doc p i)
    \<and> (\<forall>i. map_option el_display (doc q i) = map_option el_display (doc p i))"
  using assms
proof (induction fs arbitrary: p)
  case Nil
  then show ?case by (simp add: loadVariables_def)
next
  case (Cons f fs)
  obtain p1 where p1: "loadValueFromVariable (dflt f) f u p = Inr p1" "field_value p1 f = loaded_text p u (dflt f) f"
      "\<forall>i. i \<noteq> fld_id f \<longrightarrow> doc p1 i = doc p i" "\<forall>i. map_option el_display (doc p1 i) = map_option el_display (doc p i)"
    using load_one [of p u "dflt f" f] Cons.prems(1) by auto
  have other: "doc p1 (fld_id g) = doc p (fld_id g)" if "g \<in> set fs" for g
    using that p1(3) Cons.prems(2) by (auto simp: image_iff)
  then have val: "field_value p1 g = field_value p g" if "g \<in> set fs" for g using that by (simp add: field_value_def)
  then have same: "loaded_text p1 u (dflt g) g = loaded_text p u (dflt g) g" if "g \<in> set fs" for g
    using that by (simp add: loaded_text_def split: option.split)
  then have able: "loadable p1 u (dflt g) g" if "g \<in> set fs" for g
    using that other [OF that] Cons.prems(1) by (simp add: loadable_def)
  have dist: "distinct (map fld_id fs)" using Cons.prems(2) by simp
  have "\<forall>g \<in> set fs. loadable p1 u (dflt g) g" using able by blast
  from Cons.IH [OF this dist] obtain q where q: "loadVariables u (map (\<lambda>f. (f, loadValueFromVariable (dflt f))) fs) p1 = Inr q"
    "\<forall>g \<in> set fs. field_value q g = loaded_text p1 u (dflt g) g"
    "\<forall>i. i \<notin> fld_id ` set fs \<longrightarrow> doc q i = doc p1 i"
    "\<forall>i. map_option el_display (doc q i) = map_option el_display (doc p1 i)"
    by (elim exE conjE) (rule that)
  have "fld_id f \<notin> fld_id ` set fs" using Cons.prems(2) by simp
  then have "field_value q f = loaded_text p u (dflt f) f" using q(3) p1(2) by (simp add: field_value_def)
  then show ?case using q p1 same by (auto simp: loadVariables_def)
qed

lemma put_all_same:
  assumes "\<forall>kv \<in> set kvs. uvals u (fst kv) = Some (snd kv) \<and> \<not> ulists u (fst kv)"
  shows "ucs.put_all kvs u = u"
  using assms
proof (induction kvs)
  case (Cons kv kvs)
  then have "uci_set_key (fst kv) (snd kv) False u = u"
    by (auto simp: uci_set_key_def fun_upd_idem_iff intro!: uci.equality)
  with Cons show ?case by (cases kv) simp
qed simp

text \<open>
  Fields of a page that stand for different options, each unset or a plain text, shown by different
  elements that can show what is loaded.
\<close>

definition text_fields :: "page \<Rightarrow> uci \<Rightarrow> (field \<Rightarrow> string option) \<Rightarrow> field list \<Rightarrow> bool" where
  "text_fields p u dflt fs \<longleftrightarrow> distinct (map fld_id fs) \<and> distinct (map fld_key fs)
     \<and> (\<forall>f \<in> set fs. (\<forall>v. fld_vis f = Some v \<longrightarrow> doc p v \<noteq> None) \<and> loadable p u (dflt f) f
          \<and> \<not> ulists u (fld_key f) \<and> (\<forall>xs. uvals u (fld_key f) \<noteq> Some (Lst xs)))"

lemma option_text_val: "\<forall>xs. uvals u (fld_key f) \<noteq> Some (Lst xs) \<Longrightarrow> option_text u f \<noteq> [] \<Longrightarrow> uvals u (fld_key f) = Some (Str (option_text u f))"
  by (cases "the (uvals u (fld_key f))"; cases "uvals u (fld_key f)") (auto simp: option_text_def field_get_def uci_get_def fld_key_def)

text \<open>
  C20. Loading the fields of a page from a container and saving them back untouched, for fields with different
  elements, which can show what is loaded, and different options that are not lists. What is saved of a
  field that is shown is its option's text or, for an option that is unset or empty, the default (and
  without a default what the element showed before), unless that is blank and blank values are not saved;
  a field that is not shown and every option without a field keep their value. When every option has a
  text, the container is the same as before, with the order of its keys.
\<close>

theorem load_save_values:
  assumes "text_fields p u dflt fs" "uci_wf u"
  shows "\<exists>q r u'. loadVariables u (map (\<lambda>f. (f, loadValueFromVariable (dflt f))) fs) p = Inr q
    \<and> setVariables (save_rows (map (\<lambda>f. (f, blank f)) fs)) (q, u) = Inr (r, u')
    \<and> (\<forall>f \<in> set fs. uvals u' (fld_key f) =
         (if field_shown p f \<and> (loaded_text p u (dflt f) f \<noteq> [] \<or> blank f) then Some (Str (loaded_text p u (dflt f) f))
          else uvals u (fld_key f)))
    \<and> (\<forall>k. k \<notin> fld_key ` set fs \<longrightarrow> uvals u' k = uvals u k)
    \<and> ((\<forall>f \<in> set fs. option_text u f \<noteq> []) \<longrightarrow> u' = u)"
proof -
  have ids: "distinct (map fld_id fs)" and fields: "\<forall>f \<in> set fs. loadable p u (dflt f) f"
    using assms(1) by (auto simp: text_fields_def)
  then obtain q where q: "loadVariables u (map (\<lambda>f. (f, loadValueFromVariable (dflt f))) fs) p = Inr q"
      "\<forall>f \<in> set fs. field_value q f = loaded_text p u (dflt f) f"
      "\<forall>i. map_option el_display (doc q i) = map_option el_display (doc p i)"
    using loadVariables_values [of fs p u dflt] by blast
  have dom: "doc q i \<noteq> None \<longleftrightarrow> doc p i \<noteq> None" for i using q(3) by (metis map_option_is_None)
  have shown: "field_shown q f = field_shown p f" for f
  proof (cases "fld_vis f")
    case None
    then show ?thesis by (simp add: field_shown_def vis_shown_def)
  next
    case (Some v)
    have "map_option el_display (doc q v) = map_option el_display (doc p v)" using q(3) by blast
    then show ?thesis using Some by (cases "doc q v"; cases "doc p v") (auto simp: field_shown_def vis_shown_def get_el_def)
  qed
  let ?rows = "map (\<lambda>f. (f, blank f)) fs"
  have written: "field_written q (f, b) \<longleftrightarrow> field_shown p f \<and> (loaded_text p u (dflt f) f \<noteq> [] \<or> b)" if "f \<in> set fs" for f b
    using that q(2) by (simp add: field_written_def shown)
  have present: "\<forall>r \<in> set ?rows. field_present q (fst r) \<and> \<not> ulists u (fld_key (fst r))"
    using assms(1) dom by (fastforce simp: text_fields_def field_present_def loadable_def)
  have "distinct (map (\<lambda>r. fld_key (fst r)) ?rows)" using assms(1) by (simp add: text_fields_def comp_def)
  from setVariables_effect [OF present this assms(2)] obtain r u' where
      u': "setVariables (save_rows ?rows) (q, u) = Inr (r, u')"
      "\<forall>r \<in> set ?rows. field_written q r \<longrightarrow> uvals u' (fld_key (fst r)) = Some (Str (field_value q (fst r)))"
      "\<forall>k. (\<forall>r \<in> set ?rows. field_written q r \<longrightarrow> k \<noteq> fld_key (fst r)) \<longrightarrow> uvals u' k = uvals u k"
    by (elim exE conjE) (rule that)
  have "uvals u' (fld_key f) = (if field_shown p f \<and> (loaded_text p u (dflt f) f \<noteq> [] \<or> blank f)
      then Some (Str (loaded_text p u (dflt f) f)) else uvals u (fld_key f))" if f: "f \<in> set fs" for f
  proof (cases "field_written q (f, blank f)")
    case True
    then show ?thesis using u'(2) f q(2) written [OF f] by auto
  next
    case False
    have "g = f" if "g \<in> set fs" "fld_key g = fld_key f" for g
      using that f assms(1) by (auto simp: text_fields_def distinct_map inj_on_def)
    then have "\<forall>r \<in> set ?rows. field_written q r \<longrightarrow> fld_key f \<noteq> fld_key (fst r)" using False by auto
    then have "uvals u' (fld_key f) = uvals u (fld_key f)" using u'(3) by blast
    then show ?thesis using False written [OF f] by auto
  qed
  moreover have "u' = u" if full: "\<forall>f \<in> set fs. option_text u f \<noteq> []"
  proof -
    have "\<forall>kv \<in> set (map (\<lambda>(f, b). (fld_key f, Str (field_value q f))) (filter (field_written q) ?rows)).
        uvals u (fst kv) = Some (snd kv) \<and> \<not> ulists u (fst kv)"
      using assms(1) q(2) full option_text_val by (auto simp: text_fields_def loaded_text_def)
    from put_all_same [OF this] show ?thesis using setVariables_put_all [of ?rows q u] present u'(1) by auto
  qed
  ultimately show ?thesis using q(1) u'(1,3) by (intro exI [of _ q] exI [of _ r] exI [of _ u']) auto
qed

text \<open>
  Whether \<open>setVariableFromCombined\<close> saves does not depend on the elements it combines: it tests
  the global variable another field left behind. With blank values not to be saved, two blank
  elements are saved when the field before them was not blank, and a filled pair is dropped when it
  was.
\<close>

theorem setVariableFromCombined_stale:
  assumes "vis_shown (fld_vis f) p = Inr True" "read_values p ids = Inr vs"
  shows "setVariableFromCombined ids False comb f (p\<lparr>gvalue := Some v\<rparr>, u) =
    Inr (p\<lparr>gvalue := Some v\<rparr>, if v \<noteq> [] then field_set f (comb vs) u else u)"
proof -
  have "vis_shown w (p\<lparr>gvalue := x\<rparr>) = vis_shown w p" for w x
    by (simp add: vis_shown_def get_el_def split: option.split)
  moreover have "read_values (p\<lparr>gvalue := x\<rparr>) is = read_values p is" for x "is"
    by (induction "is") (auto simp: get_el_def)
  ultimately show ?thesis using assms by (simp add: setVariableFromCombined_def)
qed

section \<open>A small form\<close>

definition demo_port_field :: field where
  "demo_port_field = \<lparr>fld_id = ''port'', fld_vis = Some ''mode'', fld_pkg = ''dropbear'', fld_section = ''main'', fld_option = ''Port''\<rparr>"

definition demo_conf :: uci where
  "demo_conf = uci_set ''dropbear'' ''main'' ''Port'' (Str ''22'') False
     (uci_set ''dropbear'' ''main'' [] (Str ''dropbear'') False newUCIContainer)"

lemma demo_conf_facts:
  "uci_wf demo_conf" "\<not> ulists demo_conf k" "uvals demo_conf (fld_key demo_port_field) = Some (Str ''22'')"
proof -
  show "uci_wf demo_conf" unfolding demo_conf_def by (intro uci_wf_set uci_wf_new)
qed (simp_all add: demo_conf_def uci_set_def newUCIContainer_def uvals_set_key fld_key_def demo_port_field_def)

lemma demo_port_present [simp]: "field_present demo_page demo_port_field"
  by (simp add: field_present_def demo_port_field_def)

theorem setVariables_writes_witness:
  "\<exists>q u'. setVariables (save_rows [(demo_port_field, False)]) (demo_page, demo_conf) = Inr (q, u')
     \<and> uvals u' (fld_key demo_port_field) = Some (Str ''8080'')"
proof -
  have "field_value demo_page demo_port_field = ''8080''" "field_written demo_page (demo_port_field, False)"
    by (simp_all add: field_value_def field_written_def field_shown_def vis_shown_def demo_port_field_def
        demo_text_def demo_select_def get_value_def is_select_def)
  then show ?thesis
    using setVariables_writes [of "[(demo_port_field, False)]" demo_page demo_conf] demo_conf_facts by auto
qed

text \<open>An option that is unset, with a default.\<close>

definition demo_mode_field :: field where
  "demo_mode_field = \<lparr>fld_id = ''mode'', fld_vis = None, fld_pkg = ''dropbear'', fld_section = ''main'', fld_option = ''Mode''\<rparr>"

theorem load_save_values_witness:
  "\<exists>q r u'. loadVariables demo_conf (map (\<lambda>f. (f, loadValueFromVariable (Some ''0''))) [demo_port_field, demo_mode_field]) demo_page = Inr q
     \<and> setVariables (save_rows (map (\<lambda>f. (f, False)) [demo_port_field, demo_mode_field])) (q, demo_conf) = Inr (r, u')
     \<and> uvals u' (fld_key demo_port_field) = Some (Str ''22'') \<and> uvals demo_conf (fld_key demo_mode_field) = None
     \<and> uvals u' (fld_key demo_mode_field) = Some (Str ''0'')"
proof -
  have keys: "fld_key demo_port_field \<noteq> fld_key demo_mode_field" "fld_key demo_mode_field = ''dropbear.main.Mode''" by code_simp+
  have none: "uvals demo_conf (fld_key demo_mode_field) = None" by code_simp
  have opts: "option_text demo_conf demo_port_field = ''22''" "option_text demo_conf demo_mode_field = []" by code_simp+
  have load: "loaded_text demo_page demo_conf (Some ''0'') demo_port_field = ''22''" "loaded_text demo_page demo_conf (Some ''0'') demo_mode_field = ''0''"
    using opts by (simp_all add: loaded_text_def)
  have fields: "text_fields demo_page demo_conf (\<lambda>_. Some ''0'') [demo_port_field, demo_mode_field]"
    using keys(1) load none demo_conf_facts(2,3)
    by (auto simp: text_fields_def loadable_def can_show_def demo_port_field_def demo_mode_field_def demo_page_def
        demo_text_def demo_select_def is_select_def)
  have shown: "field_shown demo_page demo_port_field" "field_shown demo_page demo_mode_field"
    by (simp_all add: field_shown_def vis_shown_def demo_port_field_def demo_mode_field_def demo_select_def demo_text_def)
  show ?thesis using load_save_values [OF fields demo_conf_facts(1), of "\<lambda>_. False"] load shown none by auto
qed

theorem setVariableFromCombined_stale_witness:
  "setVariableFromCombined [''port'', ''mode''] False (join '':'') demo_port_field (demo_page\<lparr>gvalue := Some []\<rparr>, demo_conf) =
     Inr (demo_page\<lparr>gvalue := Some []\<rparr>, demo_conf)"
proof -
  have "vis_shown (fld_vis demo_port_field) demo_page = Inr True"
    by (simp add: vis_shown_def demo_port_field_def demo_select_def demo_text_def)
  moreover have "read_values demo_page [''port'', ''mode''] = Inr [get_value demo_text, get_value demo_select]" by simp
  ultimately show ?thesis
    using setVariableFromCombined_stale [of demo_port_field demo_page "[''port'', ''mode'']"
        "[get_value demo_text, get_value demo_select]" "join '':''" "[]" demo_conf] by simp
qed

end
