(* ===== verification/Quota_Store.thy ===== *)
theory Quota_Store
  imports Quota_Times Page_Fields
begin

text \<open>
  The quotas of \<open>quotas.js\<close> as sections of type \<open>quota\<close> in package \<open>firewall\<close>: the choice of an id, the
  addresses and times read from the form, the times read from and written to the configuration, the
  validation of a quota against the others, and its removal. The state is the page with its two address
  tables, the configuration and the ids whose counters are to be reset. Options of quota sections are
  plain values, read as strings. The theorems: an id is always found and is new; times are read back as
  they were written; a quota that passes validation with new addresses shares nobody or no second with another; removal
  leaves no section with the id.
\<close>

section \<open>State\<close>

record quota_state =
  q_page :: page
  q_ip4 :: "string list"
  q_ip6 :: "string list"
  q_uci :: uci
  q_changed :: "string \<Rightarrow> bool"

text \<open>The strings of the translation tables that the functions use.\<close>

record quota_strings =
  s_Err :: string
  s_nex :: string
  s_prfErr :: string
  s_InvAdd :: string
  s_IPError :: string
  s_AllUnlimitedError :: string
  s_DuplicateRange :: string
  s_OneTimeQuotaError :: string
  s_OneNetworkQuotaError :: string
  s_days :: "string list"

definition quota_pkg :: string where "quota_pkg = ''firewall''"

definition quota_str :: "uci \<Rightarrow> string \<Rightarrow> string \<Rightarrow> string" where
  "quota_str u section option = val_string (uci_get u quota_pkg section option)"

definition quota_sections :: "uci \<Rightarrow> string list" where
  "quota_sections u = getAllSectionsOfType u quota_pkg ''quota''"

section \<open>Identifiers\<close>

text \<open>\<open>ip.replace(/[\t, ]+.*$/, "")\<close>: a dot matches no line end, so only the last line is cut.\<close>

definition cut_at_separator :: "string \<Rightarrow> string" where
  "cut_at_separator s =
     (let line = rev (takeWhile (\<lambda>c. \<not> is_newline c) (rev s))
      in take (length s - length line) s @ takeWhile (\<lambda>c. \<not> addr_sep c) line)"

fun first_slash :: "string \<Rightarrow> string" where
  "first_slash [] = []"
| "first_slash (c # cs) = (if c = CHR ''/'' then CHR ''_'' # cs else c # first_slash cs)"

definition id_prefix :: "string \<Rightarrow> string" where
  "id_prefix ip = first_slash (if ip = [] then ''ALL'' else cut_at_separator ip)"

definition id_suffix :: "nat \<Rightarrow> string" where
  "id_suffix suffixCount =
     (if suffixCount < 26 then [CHR ''_'', ''ABCDEFGHIJKLMNOPQRSTUVWXYZ'' ! suffixCount]
      else ''_Z'' @ dec_str (suffixCount - 25))"

lemma id_suffix_inj: "inj id_suffix"
proof (rule injI)
  fix x y
  assume eq: "id_suffix x = id_suffix y"
  have len: "length (id_suffix n) = 2 \<longleftrightarrow> n < 26" for n by (simp add: id_suffix_def)
  have "distinct ''ABCDEFGHIJKLMNOPQRSTUVWXYZ''" "length ''ABCDEFGHIJKLMNOPQRSTUVWXYZ'' = 26" by code_simp+
  then have letters: "''ABCDEFGHIJKLMNOPQRSTUVWXYZ'' ! m = ''ABCDEFGHIJKLMNOPQRSTUVWXYZ'' ! n \<longleftrightarrow> m = n"
    if "m < 26" "n < 26" for m n using that by (simp only: nth_eq_iff_index_eq)
  show "x = y"
  proof (cases "x < 26")
    case True
    with eq len [of x] len [of y] have "y < 26" by simp
    with True eq letters show ?thesis unfolding id_suffix_def by simp
  next
    case False
    with eq len [of x] len [of y] have y: "\<not> y < 26" by simp
    with False eq have "dec_str (x - 25) = dec_str (y - 25)" by (simp add: id_suffix_def)
    then have "dec_val (dec_str (x - 25)) = dec_val (dec_str (y - 25))" by (rule arg_cong)
    then have "x - 25 = y - 25" by simp
    then show ?thesis using False y by simp
  qed
qed

text \<open>The loop tries the next suffix while a quota has the id. Suffixes differ, so it ends.\<close>

definition taken_from :: "string list \<Rightarrow> string \<Rightarrow> nat \<Rightarrow> nat set" where
  "taken_from ids pre n = {k. n \<le> k \<and> pre @ id_suffix k \<in> set ids}"

lemma finite_taken: "finite (taken_from ids pre n)"
proof (rule finite_subset)
  show "taken_from ids pre n \<subseteq> (\<lambda>k. pre @ id_suffix k) -` set ids" by (auto simp: taken_from_def)
  show "finite ((\<lambda>k. pre @ id_suffix k) -` set ids)"
    using id_suffix_inj by (intro finite_vimageI) (auto simp: inj_def)
qed

lemma taken_step:
  "card (taken_from ids pre n) = (if pre @ id_suffix n \<in> set ids then 1 else 0) + card (taken_from ids pre (Suc n))"
proof (cases "pre @ id_suffix n \<in> set ids")
  case True
  then have "taken_from ids pre n = insert n (taken_from ids pre (Suc n))"
    by (auto simp: taken_from_def le_less Suc_le_eq)
  moreover have "n \<notin> taken_from ids pre (Suc n)" by (simp add: taken_from_def)
  ultimately show ?thesis using True finite_taken by simp
next
  case False
  then have "taken_from ids pre n = taken_from ids pre (Suc n)"
    by (auto simp: taken_from_def Suc_le_eq le_less)
  then show ?thesis using False by simp
qed

function id_loop :: "string list \<Rightarrow> string \<Rightarrow> string \<Rightarrow> nat \<Rightarrow> string" where
  "id_loop ids idPrefix i suffixCount =
     (if i \<in> set ids then id_loop ids idPrefix (idPrefix @ id_suffix suffixCount) (Suc suffixCount) else i)"
  by pat_completeness auto
termination
proof (relation "measure (\<lambda>(ids, p, i, n). card (taken_from ids p n) + (if i \<in> set ids then 1 else 0))")
  fix ids p i n
  assume "i \<in> set (ids :: string list)"
  then show "((ids, p, p @ id_suffix n, Suc n), (ids, p, i, n))
      \<in> measure (\<lambda>(ids, p, i, n). card (taken_from ids p n) + (if i \<in> set ids then 1 else 0))"
    using taken_step [of ids p n] by simp
qed simp

declare id_loop.simps [simp del]

definition getIdFromIp :: "string \<Rightarrow> uci \<Rightarrow> string" where
  "getIdFromIp ip u =
     (let ids = map (\<lambda>s. quota_str u s ''id'') (quota_sections u)
      in id_loop ids (id_prefix ip) (id_prefix ip) 0)"

section \<open>Day names\<close>

text \<open>The seven tests run one after the other on each entry, the later ones on what the earlier ones wrote.\<close>

definition fw_days :: "string list" where
  "fw_days = [''sun'', ''mon'', ''tue'', ''wed'', ''thu'', ''fri'', ''sat'']"

definition dayToi18n :: "string list \<Rightarrow> string \<Rightarrow> string" where
  "dayToi18n ui daystrings =
     join '','' (map (fold (\<lambda>(d, local) s. if s = d then local else s) (zip fw_days ui)) (split_on CHR '','' daystrings))"

definition weekly_i18n :: "string list \<Rightarrow> string \<Rightarrow> bool \<Rightarrow> string" where
  "weekly_i18n ui weekly_schd from_uci =
     (if length weekly_schd < 6 then weekly_schd
      else (let fwdays = [''Sun'', ''Mon'', ''Tue'', ''Wed'', ''Thu'', ''Fri'', ''Sat''];
                (indays, outdays) = (if from_uci then (fwdays, ui) else (ui, fwdays))
            in join '' '' (map (\<lambda>w. case option_index (\<lambda>d. d = w) indays of Some pos \<Rightarrow> outdays ! pos | None \<Rightarrow> w)
                 (split_on CHR '' '' weekly_schd))))"

section \<open>Times\<close>

text \<open>Hours, days, weekly ranges, and \<open>always\<close>, \<open>only\<close> or \<open>except\<close>.\<close>

type_synonym quota_times = "string \<times> string \<times> string \<times> string"

definition getTimeParametersFromUci :: "string list \<Rightarrow> uci \<Rightarrow> string \<Rightarrow> bool \<Rightarrow> quota_times" where
  "getTimeParametersFromUci ui srcUci quotaSection i18ndays =
     (let hours = quota_str srcUci quotaSection ''offpeak_hours'';
          days = quota_str srcUci quotaSection ''offpeak_weekdays'';
          weekly = quota_str srcUci quotaSection ''offpeak_weekly_ranges'';
          active = (if hours \<noteq> [] \<or> days \<noteq> [] \<or> weekly \<noteq> [] then ''except'' else ''always'');
          (hours, days, weekly, active) =
            (if active = ''always''
             then (let hours = quota_str srcUci quotaSection ''onpeak_hours'';
                       days = quota_str srcUci quotaSection ''onpeak_weekdays'';
                       weekly = quota_str srcUci quotaSection ''onpeak_weekly_ranges''
                   in (hours, days, weekly, if hours \<noteq> [] \<or> days \<noteq> [] \<or> weekly \<noteq> [] then ''only'' else ''always''))
             else (hours, days, weekly, active))
      in (hours, if i18ndays then dayToi18n ui days else days, weekly_i18n ui weekly True, active))"

text \<open>The last part of \<open>setUciFromDocument\<close>: the times of the form under the prefix that is active.\<close>

definition updateFun :: "string \<Rightarrow> bool \<Rightarrow> string \<Rightarrow> string \<Rightarrow> uci \<Rightarrow> uci" where
  "updateFun quotaSection prefixActive option val u =
     (if prefixActive then uci_set quota_pkg quotaSection option (Str val) False u
      else fst (uci_remove quota_pkg quotaSection option u))"

definition set_quota_times :: "string \<Rightarrow> quota_times \<Rightarrow> uci \<Rightarrow> uci" where
  "set_quota_times quotaSection timeParameters u =
     (case timeParameters of (hours, days, weekly, active) \<Rightarrow>
        fold (\<lambda>pre u.
            let prefixActive = pre = ''offpeak'' \<and> active = ''except'' \<or> pre = ''onpeak'' \<and> active = ''only''
            in updateFun quotaSection prefixActive (pre @ ''_weekly_ranges'') weekly
                (updateFun quotaSection prefixActive (pre @ ''_weekdays'') days
                  (updateFun quotaSection prefixActive (pre @ ''_hours'') hours u)))
          [''offpeak'', ''onpeak''] u)"

text \<open>A text that is read when its container is shown; \<open>style.display\<close> of a missing element is a TypeError.\<close>

definition shown_value :: "string \<Rightarrow> string \<Rightarrow> page \<Rightarrow> string js_result" where
  "shown_value container input p =
     res_bind (get_el p container) (\<lambda>c.
       if el_display c \<noteq> ''none'' then res_bind (get_el p input) (\<lambda>e. Inr (get_value e)) else Inr [])"

definition checked_days :: "page \<Rightarrow> string list js_result" where
  "checked_days p =
     fold_res (\<lambda>d ds. res_bind (get_el p (''quota_'' @ d)) (\<lambda>e. Inr (if el_checked e then ds @ [d] else ds))) fw_days []"

definition getTimeParametersFromDocument :: "quota_strings \<Rightarrow> page \<Rightarrow> (page \<times> quota_times) js_result" where
  "getTimeParametersFromDocument ss p =
     res_bind (shown_value ''active_hours_container'' ''active_hours'' p) (\<lambda>hours.
     res_bind (shown_value ''active_weekly_container'' ''active_weekly'' p) (\<lambda>weekly.
     res_bind (get_el p ''active_days_container'') (\<lambda>dc.
     res_bind (if el_display dc \<noteq> ''none'' then checked_days p else Inr []) (\<lambda>dayList.
     res_bind (getSelectedValue (s_Err ss) (s_nex ss) ''quota_active'' p) (\<lambda>(p1, active).
       Inr (p1, hours, join '','' dayList, weekly_i18n (s_days ss) weekly False,
         case active of None \<Rightarrow> ''null'' | Some a \<Rightarrow> a))))))"

section \<open>Addresses of the form\<close>

definition addAddressesToTable ::
    "string \<Rightarrow> string \<Rightarrow> bool \<Rightarrow> nat \<Rightarrow> bool \<Rightarrow> page \<Rightarrow> string list \<Rightarrow> (page \<times> string list \<times> bool) js_result" where
  "addAddressesToTable invAdd textId macsValid ipValidType alertOnError p rows =
     res_bind (get_el p textId) (\<lambda>e.
     res_bind (addAddressStringToTable macsValid ipValidType (get_value e) rows) (\<lambda>(rows1, valid).
       if valid then res_bind (upd_el textId (put_value []) p) (\<lambda>p1. Inr (p1, rows1, True))
       else Inr (if alertOnError then alert (invAdd @ [CHR 0x0A]) p else p, rows1, False)))"

definition selected_is :: "quota_strings \<Rightarrow> string \<Rightarrow> string \<Rightarrow> page \<Rightarrow> (page \<times> bool) js_result" where
  "selected_is ss selectId v p =
     res_bind (getSelectedValue (s_Err ss) (s_nex ss) selectId p) (\<lambda>(p1, s). Inr (p1, s = Some v))"

definition getIpFromDocument :: "quota_strings \<Rightarrow> quota_state \<Rightarrow> (quota_state \<times> string) js_result" where
  "getIpFromDocument ss q =
     res_bind (selected_is ss ''applies_to_type'' ''all'' (q_page q)) (\<lambda>(p1, all).
     if all then Inr (q\<lparr>q_page := p1\<rparr>, ''ALL'') else
     res_bind (selected_is ss ''applies_to_type'' ''others_combined'' p1) (\<lambda>(p2, combined).
     if combined then Inr (q\<lparr>q_page := p2\<rparr>, ''ALL_OTHERS_COMBINED'') else
     res_bind (selected_is ss ''applies_to_type'' ''others_individual'' p2) (\<lambda>(p3, individual).
     if individual then Inr (q\<lparr>q_page := p3\<rparr>, ''ALL_OTHERS_INDIVIDUAL'') else
     res_bind (selected_is ss ''applies_to_type'' ''only'' p3) (\<lambda>(p4, only).
     Inr (q\<lparr>q_page := p4\<rparr>, if only then join '','' (q_ip4 q @ q_ip6 q) else ''ALL'')))))"

section \<open>Validation\<close>

definition quota_rows :: "quota_strings \<Rightarrow> proof_row list" where
  "quota_rows ss =
     [\<lparr>pr_input = ''max_up'', pr_label = ''max_up_label'', pr_function = validateDecimal, pr_valid = 0, pr_visibility = Some ''max_up_container''\<rparr>,
      \<lparr>pr_input = ''max_down'', pr_label = ''max_down_label'', pr_function = validateDecimal, pr_valid = 0, pr_visibility = Some ''max_down_container''\<rparr>,
      \<lparr>pr_input = ''max_combined'', pr_label = ''max_combined_label'', pr_function = validateDecimal, pr_valid = 0, pr_visibility = Some ''max_combined_container''\<rparr>,
      \<lparr>pr_input = ''active_hours'', pr_label = ''quota_active_label'', pr_function = validateHours, pr_valid = 0, pr_visibility = Some ''active_hours_container''\<rparr>,
      \<lparr>pr_input = ''active_weekly'', pr_label = ''quota_active_label'', pr_function = validateWeeklyRange (s_days ss), pr_valid = 0, pr_visibility = Some ''active_weekly_container''\<rparr>]"

definition active_except :: "quota_times \<Rightarrow> time_params" where
  "active_except = (\<lambda>(h, d, w, a). (h, d, w, a = ''except''))"

text \<open>One other quota: compared only until a conflict is found.\<close>

definition conflict_step ::
    "quota_strings \<Rightarrow> uci \<Rightarrow> string \<Rightarrow> string \<Rightarrow> string \<Rightarrow> page \<times> bool \<Rightarrow> (page \<times> bool) js_result" where
  "conflict_step ss u originalQuotaId ip section = (\<lambda>(p, overlapFound).
     if overlapFound then Inr (p, True)
     else if quota_str u section ''id'' = originalQuotaId then Inr (p, False)
     else res_bind (testAddrOverlap (quota_str u section ''ip'') ip False) (\<lambda>ipOverlap.
       if \<not> ipOverlap then Inr (p, False)
       else res_bind (getTimeParametersFromDocument ss p) (\<lambda>(p1, sectionTime).
            res_bind (rangesOverlap (s_days ss) (active_except sectionTime)
                (active_except (getTimeParametersFromUci (s_days ss) u section False))) (\<lambda>found.
              Inr (p1, found)))))"

text \<open>The stages of \<open>validateQuota\<close>: each runs only while there are no errors.\<close>

definition check_add_ip :: "quota_strings \<Rightarrow> quota_state \<Rightarrow> (quota_state \<times> string list) js_result" where
  "check_add_ip ss q =
     res_bind (selected_is ss ''applies_to_type'' ''only'' (q_page q)) (\<lambda>(p1, only).
     if \<not> only then Inr (q\<lparr>q_page := p1\<rparr>, []) else
     res_bind (get_el p1 ''add_ip'') (\<lambda>e.
     if get_value e = [] then Inr (q\<lparr>q_page := p1\<rparr>, []) else
     res_bind (addAddressesToTable (s_InvAdd ss) ''add_ip'' False 3 False p1 (q_ip4 q)) (\<lambda>(p2, rows, valid).
     if valid then Inr (q\<lparr>q_page := p2, q_ip4 := rows\<rparr>, [])
     else res_bind (get_el p2 ''add_ip'') (\<lambda>e2.
       Inr (q\<lparr>q_page := p2, q_ip4 := rows\<rparr>, [''\"'' @ get_value e2 @ ''\" is not a valid IP or IP range''])))))"

definition check_unlimited :: "quota_strings \<Rightarrow> page \<Rightarrow> (page \<times> string list) js_result" where
  "check_unlimited ss p =
     res_bind (selected_is ss ''max_up_type'' ''unlimited'' p) (\<lambda>(p1, up).
     if \<not> up then Inr (p1, []) else
     res_bind (selected_is ss ''max_down_type'' ''unlimited'' p1) (\<lambda>(p2, down).
     if \<not> down then Inr (p2, []) else
     res_bind (selected_is ss ''max_combined_type'' ''unlimited'' p2) (\<lambda>(p3, combined).
     Inr (p3, if combined then [s_AllUnlimitedError ss] else []))))"

definition check_conflict ::
    "quota_strings \<Rightarrow> string \<Rightarrow> string \<Rightarrow> string \<Rightarrow> uci \<Rightarrow> page \<Rightarrow> (page \<times> string list) js_result" where
  "check_conflict ss originalQuotaId originalQuotaIp ip u p =
     (if ip = originalQuotaIp then Inr (p, [])
      else res_bind (fold_res (conflict_step ss u originalQuotaId ip) (quota_sections u) (p, False)) (\<lambda>(p1, overlapFound).
        Inr (p1,
          if \<not> overlapFound then []
          else if \<not> sublist ''ALL'' ip then [s_DuplicateRange ss]
          else if sublist ''OTHER'' ip then [s_OneTimeQuotaError ss]
          else [s_OneNetworkQuotaError ss])))"

definition validateQuota :: "quota_strings \<Rightarrow> string \<Rightarrow> string \<Rightarrow> quota_state \<Rightarrow> (quota_state \<times> string list) js_result" where
  "validateQuota ss originalQuotaId originalQuotaIp q =
     res_bind (proofreadFields (s_prfErr ss) (quota_rows ss) (q_page q)) (\<lambda>(p1, errors1).
     if errors1 \<noteq> [] then Inr (q\<lparr>q_page := p1\<rparr>, errors1) else
     res_bind (check_add_ip ss (q\<lparr>q_page := p1\<rparr>)) (\<lambda>(q2, errors2).
     if errors2 \<noteq> [] then Inr (q2, errors2) else
     res_bind (getIpFromDocument ss q2) (\<lambda>(q3, ip).
     if ip = [] then Inr (q3, [s_IPError ss]) else
     res_bind (check_unlimited ss (q_page q3)) (\<lambda>(p4, errors4).
     if errors4 \<noteq> [] then Inr (q3\<lparr>q_page := p4\<rparr>, errors4) else
     res_bind (check_conflict ss originalQuotaId originalQuotaIp ip (q_uci q3) p4) (\<lambda>(p5, errors5).
     Inr (q3\<lparr>q_page := p5\<rparr>, errors5))))))"

section \<open>Removal\<close>

definition removeQuotaCallback :: "string \<Rightarrow> quota_state \<Rightarrow> quota_state" where
  "removeQuotaCallback rowId q =
     q\<lparr>q_uci := fold (\<lambda>section u. if quota_str u section ''id'' = rowId then removeSection quota_pkg section u else u)
          (quota_sections (q_uci q)) (q_uci q),
       q_changed := (q_changed q)(rowId := True)\<rparr>"

section \<open>Facts about quota sections\<close>

lemma id_loop_result:
  "id_loop ids pre i n \<notin> set ids \<and>
    (id_loop ids pre i n = i \<or>
     (i \<in> set ids \<and> (\<exists>k \<ge> n. id_loop ids pre i n = pre @ id_suffix k \<and> (\<forall>j. n \<le> j \<and> j < k \<longrightarrow> pre @ id_suffix j \<in> set ids))))"
proof (induction ids pre i n rule: id_loop.induct)
  case (1 ids pre i n)
  show ?case
  proof (cases "i \<in> set ids")
    case False
    then show ?thesis by (simp add: id_loop.simps [of ids pre i])
  next
    case True
    let ?r = "id_loop ids pre (pre @ id_suffix n) (Suc n)"
    have r: "id_loop ids pre i n = ?r" using True by (simp add: id_loop.simps [of ids pre i])
    have new: "?r \<notin> set ids" using 1 [OF True] by blast
    show ?thesis
    proof (cases "?r = pre @ id_suffix n")
      case True
      then show ?thesis using new \<open>i \<in> set ids\<close> unfolding r by auto
    next
      case False
      then obtain k where k: "Suc n \<le> k" "?r = pre @ id_suffix k" "\<forall>j. Suc n \<le> j \<and> j < k \<longrightarrow> pre @ id_suffix j \<in> set ids"
        using 1 [OF True] by blast
      have "pre @ id_suffix n \<in> set ids"
        using False by (auto simp: id_loop.simps [of ids pre "pre @ id_suffix n"] split: if_splits)
      then have "\<forall>j. n \<le> j \<and> j < k \<longrightarrow> pre @ id_suffix j \<in> set ids" using k(3) by (metis Suc_leI le_less)
      then show ?thesis using new k(1,2) \<open>i \<in> set ids\<close> unfolding r by (intro conjI disjI2 exI [of _ k]) auto
    qed
  qed
qed

lemma quota_str_set:
  assumes "name_ok s" "name_ok opt" "name_ok opt'" "\<not> ulists u (uci_key quota_pkg s opt)"
  shows "quota_str (uci_set quota_pkg s opt (Str v) False u) s opt' = (if opt' = opt then v else quota_str u s opt')"
proof -
  have "uci_key quota_pkg s opt' = uci_key quota_pkg s opt \<longleftrightarrow> opt' = opt"
    using assms(1-3) by (subst uci_key_eq_iff) (auto simp: name_ok_def quota_pkg_def)
  then show ?thesis using assms(4) by (simp add: quota_str_def uci_get_def uci_set_def uvals_set_key)
qed

lemma quota_str_remove:
  assumes "name_ok s" "name_ok opt" "name_ok opt'"
  shows "quota_str (fst (uci_remove quota_pkg s opt u)) s opt' = (if opt' = opt then [] else quota_str u s opt')"
proof -
  have "uci_key quota_pkg s opt' = uci_key quota_pkg s opt \<longleftrightarrow> opt' = opt"
    using assms(1-3) by (subst uci_key_eq_iff) (auto simp: name_ok_def quota_pkg_def)
  then show ?thesis by (simp add: quota_str_def uci_get_def)
qed

lemma quota_str_update:
  assumes "name_ok s" "name_ok opt" "name_ok opt'" "\<not> ulists u (uci_key quota_pkg s opt)"
  shows "quota_str (updateFun s b opt v u) s opt' = (if opt' = opt then if b then v else [] else quota_str u s opt')"
  using assms by (simp add: updateFun_def quota_str_set quota_str_remove)

lemma ulists_update: "\<not> ulists u k \<Longrightarrow> \<not> ulists (updateFun s b opt v u) k"
  by (auto simp: updateFun_def uci_set_def uci_remove_def remove_key_def Let_def split: option.splits)

text \<open>The six options that hold the times.\<close>

definition time_options :: "string list" where
  "time_options = [''offpeak_hours'', ''offpeak_weekdays'', ''offpeak_weekly_ranges'',
     ''onpeak_hours'', ''onpeak_weekdays'', ''onpeak_weekly_ranges'']"

lemma time_options_ok: "list_all name_ok time_options" "distinct time_options"
  by code_simp+

lemma set_quota_times_str:
  assumes "name_ok s" "\<forall>opt \<in> set time_options. \<not> ulists u (uci_key quota_pkg s opt)"
  shows "map (quota_str (set_quota_times s (h, d, w, a) u) s) time_options =
    (if a = ''except'' then [h, d, w] else [[], [], []]) @ (if a = ''only'' then [h, d, w] else [[], [], []])"
  using assms time_options_ok
  by (simp add: set_quota_times_def time_options_def quota_str_update ulists_update)

text \<open>What \<open>removeSection\<close> leaves of the container, and the fold over the listed sections.\<close>

lemma removeSection_keys_wf:
  assumes "uci_wf u" "keys_wf u" "name_ok pkg" "name_ok s"
  shows "uci_wf (removeSection pkg s u)" "keys_wf (removeSection pkg s u)"
  using assms removeSection_effect [OF assms] by (auto simp: keys_wf_def)

lemma quota_sections_ok: "s \<in> set (quota_sections u) \<Longrightarrow> name_ok s"
  by (auto simp: quota_sections_def in_sections_of_type match_section_key_Some)

lemma id_ok: "name_ok ''id''" "name_ok quota_pkg"
  by (simp_all add: name_ok_def quota_pkg_def)

lemma quota_str_removeSection:
  assumes "uci_wf u" "keys_wf u" "name_ok s" "name_ok s'"
  shows "quota_str (removeSection quota_pkg s u) s' ''id'' = (if s' = s then [] else quota_str u s' ''id'')"
  using removeSection_effect [OF assms(1,2) id_ok(2) assms(3), of "uci_key quota_pkg s' ''id''"] assms(3,4) id_ok
  by (simp add: quota_str_def uci_get_def in_section_uci_key)

lemma remove_fold:
  assumes "uci_wf u" "keys_wf u" "list_all name_ok ss"
  shows "uvals (fold (\<lambda>s u. if quota_str u s ''id'' = i then removeSection quota_pkg s u else u) ss u) k =
    (if \<exists>s \<in> set ss. quota_str u s ''id'' = i \<and> in_section quota_pkg s k then None else uvals u k)"
  using assms
proof (induction ss arbitrary: u)
  case (Cons s ss)
  let ?u = "if quota_str u s ''id'' = i then removeSection quota_pkg s u else u"
  have "uci_wf ?u" "keys_wf ?u" using Cons.prems removeSection_keys_wf id_ok by auto
  then have IH: "uvals (fold (\<lambda>s u. if quota_str u s ''id'' = i then removeSection quota_pkg s u else u) ss ?u) k =
      (if \<exists>t \<in> set ss. quota_str ?u t ''id'' = i \<and> in_section quota_pkg t k then None else uvals ?u k)"
    using Cons.IH Cons.prems(3) by simp
  have vals: "uvals ?u k = (if quota_str u s ''id'' = i \<and> in_section quota_pkg s k then None else uvals u k)"
    using removeSection_effect [OF Cons.prems(1,2) id_ok(2), of s k] Cons.prems(3) by simp
  have "quota_str ?u t ''id'' = (if t = s \<and> quota_str u s ''id'' = i then [] else quota_str u t ''id'')"
    if "t \<in> set ss" for t
    using that Cons.prems by (auto simp: quota_str_removeSection list_all_iff)
  then have "(\<exists>t \<in> set ss. quota_str ?u t ''id'' = i \<and> in_section quota_pkg t k) \<longleftrightarrow>
      (\<exists>t \<in> set ss. (t = s \<and> quota_str u s ''id'' = i \<and> i = [] \<or> \<not> (t = s \<and> quota_str u s ''id'' = i) \<and> quota_str u t ''id'' = i)
        \<and> in_section quota_pkg t k)"
    by (auto split: if_splits)
  then show ?case using IH vals by auto
qed simp

lemma quota_sections_mono:
  assumes "\<And>k. uvals u' k = None \<or> uvals u' k = uvals u k" "set (ukeys u') \<subseteq> set (ukeys u)"
  shows "set (quota_sections u') \<subseteq> set (quota_sections u)"
proof
  fix s assume "s \<in> set (quota_sections u')"
  then obtain key p where k: "key \<in> set (ukeys u')" "re_search (re_of_string quota_pkg) key"
      "match_section_key key = Some (p, s)" "map_option val_string (uvals u' key) = Some ''quota''"
    by (auto simp: quota_sections_def in_sections_of_type)
  moreover have "uvals u key = uvals u' key" using assms(1) [of key] k(4) by auto
  ultimately show "s \<in> set (quota_sections u)"
    using assms(2) unfolding quota_sections_def in_sections_of_type by (metis subsetD)
qed

lemma remove_fold_keys:
  assumes "uci_wf u" "keys_wf u" "list_all name_ok ss"
  shows "set (ukeys (fold (\<lambda>s u. if quota_str u s ''id'' = i then removeSection quota_pkg s u else u) ss u)) \<subseteq> set (ukeys u)"
  using assms
proof (induction ss arbitrary: u)
  case (Cons s ss)
  let ?u = "if quota_str u s ''id'' = i then removeSection quota_pkg s u else u"
  have "uci_wf ?u" "keys_wf ?u" using Cons.prems removeSection_keys_wf id_ok by auto
  moreover have "set (ukeys ?u) \<subseteq> set (ukeys u)"
    using removeSection_effect [OF Cons.prems(1,2) id_ok(2), of s] Cons.prems(3) by auto
  ultimately show ?case using Cons.IH [of ?u] Cons.prems(3) by simp
qed simp

text \<open>Reading a select list changes nothing but the alerts, and what is read depends on the document only.\<close>

definition sel_val :: "(string \<Rightarrow> element option) \<Rightarrow> string \<Rightarrow> string option js_result" where
  "sel_val d i =
     (case d i of
        None \<Rightarrow> Inr None
      | Some e \<Rightarrow>
          if 0 \<le> el_selected e
          then (case nth_opt (el_options e) (nat (el_selected e)) of None \<Rightarrow> Inl TypeError | Some opt \<Rightarrow> Inr (Some (snd opt)))
          else Inr (Some []))"

lemma getSelectedValue_val:
  "\<exists>p1. doc p1 = doc p \<and> getSelectedValue a b i p = res_bind (sel_val (doc p) i) (\<lambda>v. Inr (p1, v))"
proof (cases "doc p i")
  case None
  then show ?thesis
    by (intro exI [of _ "alert (a @ '': '' @ i @ '' '' @ b) p"]) (simp add: getSelectedValue_def sel_val_def)
next
  case (Some e)
  then show ?thesis by (intro exI [of _ p]) (simp add: getSelectedValue_def sel_val_def split: option.split)
qed

lemma selected_is_val:
  "\<exists>p1. doc p1 = doc p \<and> selected_is ss i v p = res_bind (sel_val (doc p) i) (\<lambda>s. Inr (p1, s = Some v))"
proof -
  obtain p1 where "doc p1 = doc p" "getSelectedValue (s_Err ss) (s_nex ss) i p = res_bind (sel_val (doc p) i) (\<lambda>v. Inr (p1, v))"
    using getSelectedValue_val by blast
  then show ?thesis by (intro exI [of _ p1]) (cases "sel_val (doc p) i", simp_all add: selected_is_def)
qed

lemma getSelectedValue_doc: "getSelectedValue a b i p = Inr (p1, v) \<Longrightarrow> doc p1 = doc p"
  using getSelectedValue_val [of p a b i] by (cases "sel_val (doc p) i") auto

lemma getSelectedValue_cong:
  assumes "doc p = doc p'" "getSelectedValue a b i p = Inr (p1, v)"
  shows "\<exists>p2. getSelectedValue a b i p' = Inr (p2, v)"
  using assms getSelectedValue_val [of p a b i] getSelectedValue_val [of p' a b i]
  by (cases "sel_val (doc p') i") auto

lemma times_doc: "getTimeParametersFromDocument ss p = Inr (p1, t) \<Longrightarrow> doc p1 = doc p"
  by (auto simp: getTimeParametersFromDocument_def res_bind_Inr_iff dest: getSelectedValue_doc)

lemma times_cong:
  assumes "doc p = doc p'" "getTimeParametersFromDocument ss p = Inr (p1, t)"
  shows "\<exists>p2. getTimeParametersFromDocument ss p' = Inr (p2, t)"
proof -
  have same: "get_el p = get_el p'" using assms(1) by (simp add: get_el_def fun_eq_iff)
  then have "shown_value c i p = shown_value c i p'" "checked_days p = checked_days p'" for c i
    by (simp_all only: shown_value_def checked_days_def)
  with same assms(2) getSelectedValue_cong [OF assms(1)] show ?thesis
    unfolding getTimeParametersFromDocument_def res_bind_Inr_iff by fastforce
qed

definition form_ip :: "string option \<Rightarrow> string list \<Rightarrow> string" where
  "form_ip s rows =
     (if s = Some ''all'' then ''ALL'' else if s = Some ''others_combined'' then ''ALL_OTHERS_COMBINED''
      else if s = Some ''others_individual'' then ''ALL_OTHERS_INDIVIDUAL''
      else if s = Some ''only'' then join '','' rows else ''ALL'')"

lemma getIp_val:
  "\<exists>p1. doc p1 = doc (q_page q) \<and> getIpFromDocument ss q =
     res_bind (sel_val (doc (q_page q)) ''applies_to_type'') (\<lambda>s. Inr (q\<lparr>q_page := p1\<rparr>, form_ip s (q_ip4 q @ q_ip6 q)))"
proof (cases "sel_val (doc (q_page q)) ''applies_to_type''")
  case (Inl e)
  then show ?thesis
    using selected_is_val [of "q_page q" ss "''applies_to_type''" "''all''"] by (auto simp: getIpFromDocument_def)
next
  case (Inr s)
  have step: "\<exists>p1. doc p1 = doc (q_page q) \<and> selected_is ss ''applies_to_type'' v p = Inr (p1, s = Some v)"
    if "doc p = doc (q_page q)" for p v
    using selected_is_val [of p ss "''applies_to_type''" v] that Inr by simp
  obtain p1 where 1: "doc p1 = doc (q_page q)" "selected_is ss ''applies_to_type'' ''all'' (q_page q) = Inr (p1, s = Some ''all'')"
    using step by blast
  obtain p2 where 2: "doc p2 = doc (q_page q)" "selected_is ss ''applies_to_type'' ''others_combined'' p1 = Inr (p2, s = Some ''others_combined'')"
    using step [OF 1(1)] by blast
  obtain p3 where 3: "doc p3 = doc (q_page q)" "selected_is ss ''applies_to_type'' ''others_individual'' p2 = Inr (p3, s = Some ''others_individual'')"
    using step [OF 2(1)] by blast
  obtain p4 where 4: "doc p4 = doc (q_page q)" "selected_is ss ''applies_to_type'' ''only'' p3 = Inr (p4, s = Some ''only'')"
    using step [OF 3(1)] by blast
  show ?thesis
    using 1 2 3 4 Inr
    by (intro exI [of _ "if s = Some ''all'' then p1 else if s = Some ''others_combined'' then p2
          else if s = Some ''others_individual'' then p3 else p4"])
      (simp add: getIpFromDocument_def form_ip_def)
qed

text \<open>What the loop over the other quotas has checked when it found no conflict.\<close>

definition quota_compatible :: "quota_strings \<Rightarrow> uci \<Rightarrow> string \<Rightarrow> string \<Rightarrow> page \<Rightarrow> string \<Rightarrow> bool" where
  "quota_compatible ss u oid ip p s \<longleftrightarrow>
     quota_str u s ''id'' = oid
     \<or> testAddrOverlap (quota_str u s ''ip'') ip False = Inr False
     \<or> (\<exists>p1 t. getTimeParametersFromDocument ss p = Inr (p1, t)
          \<and> rangesOverlap (s_days ss) (active_except t) (active_except (getTimeParametersFromUci (s_days ss) u s False)) = Inr False)"

lemma compatible_cong: "doc p = doc p' \<Longrightarrow> quota_compatible ss u oid ip p s \<Longrightarrow> quota_compatible ss u oid ip p' s"
  unfolding quota_compatible_def by (metis times_cong)

lemma conflict_found: "fold_res (conflict_step ss u oid ip) secs (p, True) = Inr (p, True)"
  by (induction secs) (simp_all add: conflict_step_def)

lemma conflict_loop:
  assumes "fold_res (conflict_step ss u oid ip) secs (p, False) = Inr (p1, False)"
  shows "doc p1 = doc p \<and> list_all (quota_compatible ss u oid ip p) secs"
  using assms
proof (induction secs arbitrary: p)
  case (Cons s secs)
  then obtain p2 f where step: "conflict_step ss u oid ip s (p, False) = Inr (p2, f)"
      and rest: "fold_res (conflict_step ss u oid ip) secs (p2, f) = Inr (p1, False)"
    by (auto simp: res_bind_Inr_iff)
  have "\<not> f" using rest conflict_found by (cases f) auto
  moreover have "doc p2 = doc p"
    using step by (auto simp: conflict_step_def res_bind_Inr_iff split: if_splits dest: times_doc)
  moreover have "quota_compatible ss u oid ip p s"
    using step \<open>\<not> f\<close> by (auto simp: conflict_step_def quota_compatible_def res_bind_Inr_iff split: if_splits)
  ultimately show ?case
    using Cons.IH [of p2] rest compatible_cong [of p2 p] by (auto simp: list_all_iff)
qed simp

lemma accepted_compatible:
  assumes "validateQuota ss oid oip q = Inr (q', [])"
  shows "\<exists>q'' ip. getIpFromDocument ss q' = Inr (q'', ip) \<and> ip \<noteq> [] \<and> q_uci q' = q_uci q
    \<and> (ip = oip \<or> list_all (quota_compatible ss (q_uci q) oid ip (q_page q')) (quota_sections (q_uci q)))"
proof -
  obtain p1 q2 q3 ip p4 p5 where
      2: "check_add_ip ss (q\<lparr>q_page := p1\<rparr>) = Inr (q2, [])" and 3: "getIpFromDocument ss q2 = Inr (q3, ip)" "ip \<noteq> []"
      and 4: "check_unlimited ss (q_page q3) = Inr (p4, [])"
      and 5: "check_conflict ss oid oip ip (q_uci q3) p4 = Inr (p5, [])" "q' = q3\<lparr>q_page := p5\<rparr>"
    using assms by (auto simp: validateQuota_def res_bind_Inr_iff split: if_splits)
  have u2: "q_uci q2 = q_uci q" using 2 by (auto simp: check_add_ip_def res_bind_Inr_iff split: if_splits)
  obtain s p3 where s: "sel_val (doc (q_page q2)) ''applies_to_type'' = Inr s" "ip = form_ip s (q_ip4 q2 @ q_ip6 q2)"
      "q3 = q2\<lparr>q_page := p3\<rparr>" "doc p3 = doc (q_page q2)"
    using getIp_val [of q2 ss] 3(1) by (cases "sel_val (doc (q_page q2)) ''applies_to_type''") auto
  have d4: "doc p4 = doc p3"
    using 4 s(3) selected_is_val [of p3 ss] by (auto simp: check_unlimited_def res_bind_Inr_iff split: if_splits dest!: getSelectedValue_doc simp: selected_is_def)
  have c: "doc p5 = doc p4 \<and> (ip = oip \<or> list_all (quota_compatible ss (q_uci q3) oid ip p4) (quota_sections (q_uci q3)))"
    using 5(1) conflict_loop [of ss "q_uci q3" oid ip "quota_sections (q_uci q3)" p4]
    by (auto simp: check_conflict_def res_bind_Inr_iff split: if_splits)
  have d5: "doc p4 = doc (q_page q')" "doc (q_page q') = doc (q_page q2)" using c d4 s(4) 5(2) by simp_all
  have "q_ip4 q' = q_ip4 q2" "q_ip6 q' = q_ip6 q2" "q_uci q' = q_uci q" "q_uci q3 = q_uci q" using 5(2) s(3) u2 by simp_all
  moreover have "list_all (quota_compatible ss v oid ip p4) secs \<Longrightarrow> list_all (quota_compatible ss v oid ip (q_page q')) secs" for v secs
    using compatible_cong [OF d5(1)] by (auto simp: list_all_iff)
  ultimately show ?thesis
    using getIp_val [of q' ss] s(1,2) d5(2) c 3(2) by auto
qed

section \<open>Who a quota applies to, and when\<close>

text \<open>
  The entries of a quota: the whole network, the hosts without a quota of their own, IPv4 addresses,
  subnets and ranges, and texts with a colon (IPv6 and hardware addresses), which stand for their spelling
  since the test compares nothing else of them.
\<close>

datatype target = Network | Others | Address "32 word" | Spelled string

definition targets_of :: "string \<Rightarrow> target set" where
  "targets_of s =
     (if s = ''ALL'' then {Network}
      else if s = ''ALL_OTHERS_COMBINED'' \<or> s = ''ALL_OTHERS_INDIVIDUAL'' then {Others}
      else if CHR '':'' \<in> set s then {Spelled (map upper_char s)}
      else Address ` covers s)"

definition quota_targets :: "string \<Rightarrow> target set" where
  "quota_targets ip = \<Union> (targets_of ` set (split_on CHR '','' ip))"

definition quota_entry :: "string \<Rightarrow> bool" where
  "quota_entry s \<longleftrightarrow> range4 s
     \<or> (s = ''ALL'' \<or> s = ''ALL_OTHERS_COMBINED'' \<or> s = ''ALL_OTHERS_INDIVIDUAL'' \<or> CHR '':'' \<in> set s)
       \<and> (\<forall>c \<in> set s. \<not> addr_sep c)"

definition quota_entries :: "string \<Rightarrow> bool" where
  "quota_entries ip \<longleftrightarrow> list_all quota_entry (split_on CHR '','' ip)"

text \<open>The seconds of the week, for times whose ranges are in order and not empty.\<close>

definition orderly_times :: "string list \<Rightarrow> time_params \<Rightarrow> bool" where
  "orderly_times ui = (\<lambda>(h, d, w, i). \<exists>ps. timeVariablesToWeeklyRanges ui h d w i = Inr (flat_pairs ps) \<and> range_list ps)"

definition active_secs :: "string list \<Rightarrow> time_params \<Rightarrow> nat set" where
  "active_secs ui = (\<lambda>(h, d, w, i). case timeVariablesToWeeklyRanges ui h d w i of Inl _ \<Rightarrow> {} | Inr r \<Rightarrow> flat_secs r)"

lemma orderly_overlap:
  assumes "orderly_times ui t1" "orderly_times ui t2"
  shows "rangesOverlap ui t1 t2 = Inr (active_secs ui t1 \<inter> active_secs ui t2 \<noteq> {})"
proof -
  obtain h1 d1 w1 i1 h2 d2 w2 i2 where t: "t1 = (h1, d1, w1, i1)" "t2 = (h2, d2, w2, i2)" by (metis prod_cases4)
  then obtain ps qs where
      "timeVariablesToWeeklyRanges ui h1 d1 w1 i1 = Inr (flat_pairs ps)" "range_list ps"
      "timeVariablesToWeeklyRanges ui h2 d2 w2 i2 = Inr (flat_pairs qs)" "range_list qs"
    using assms by (auto simp: orderly_times_def)
  then show ?thesis using scan_common by (simp add: t active_secs_def)
qed

lemma address_no_colon:
  assumes "address_text s" "\<forall>c \<in> set s. \<not> is_ws c"
  shows "CHR '':'' \<notin> set s"
proof -
  have host: "CHR '':'' \<notin> set a" if "host_text a" for a
    using that octets_chars [of a _ "CHR '':''"] by (auto simp: host_text_def is_digit_def)
  have msk: "CHR '':'' \<notin> set m" if "mask_text m \<or> number_in 1 31 m" for m
    using that octets_chars [of m _ "CHR '':''"]
    by (auto simp: mask_text_def number_in_def number_text_def list_all_iff is_digit_def)
  show ?thesis
  proof (cases "CHR ''-'' \<in> set s")
    case True
    then obtain a b where "split_on CHR ''-'' s = [a, b]" "host_text a" "host_text b"
      using assms by (auto simp: address_text_def host_range_text_def split_sep_ws_blank_free)
    then show ?thesis using host [of a] host [of b] by (auto simp: split_on_eq_iff)
  next
    case False
    then show ?thesis using assms(1) host msk by (auto simp: address_text_def subnet_text_def)
  qed
qed

lemma targets_range:
  assumes "range4 s"
  shows "targets_of s = Address ` covers s"
proof -
  have "CHR ''A'' \<notin> set s" using range4_chars [OF assms, of "CHR ''A''"] by (auto simp: is_digit_def)
  then have "s \<noteq> ''ALL''" "s \<noteq> ''ALL_OTHERS_COMBINED''" "s \<noteq> ''ALL_OTHERS_INDIVIDUAL''" by auto
  then show ?thesis using range4_plain(4) [OF assms] by (simp add: targets_of_def)
qed

text \<open>What the other entries are compared by.\<close>

definition entry_tag :: "string \<Rightarrow> target" where
  "entry_tag a = (if a = ''ALL'' then Network else if a = ''ALL_OTHERS_COMBINED'' then Others else Spelled a)"

lemma entry_tag_eq: "entry_tag a = entry_tag b \<longleftrightarrow> a = b" and entry_tag_Address: "entry_tag a \<noteq> Address w"
  by (auto simp: entry_tag_def)

lemma upper_char_low:
  assumes "(of_char x :: nat) < 65"
  shows "upper_char c = x \<longleftrightarrow> c = x"
proof (cases "97 \<le> (of_char c :: nat) \<and> (of_char c :: nat) \<le> 122")
  case True
  then have "(of_char c - 32) mod 256 = (of_char c :: nat) - 32" by (intro mod_less) linarith
  with True have "(of_char (upper_char c) :: nat) = of_char c - 32" by (simp add: upper_char_def Let_def)
  with True assms show ?thesis by auto
qed (auto simp: upper_char_def Let_def)

lemma addr_sep_upper: "addr_sep (upper_char c) \<longleftrightarrow> addr_sep c"
  by (simp add: addr_sep_def is_ws_def upper_char_low)

lemma colon_refused:
  assumes "CHR '':'' \<in> set s" "\<forall>c \<in> set s. \<not> addr_sep c"
  shows "validateMultipleIps s \<noteq> 0"
proof -
  have ws: "\<forall>c \<in> set s. \<not> is_ws c" and comma: "CHR '','' \<notin> set s" using assms(2) by (auto simp: addr_sep_def)
  then have "split_sep_ws CHR '','' (rtrim (ltrim s)) = [s]"
    by (simp add: ltrim_id rtrim_id split_sep_ws_blank_free)
  then show ?thesis using address_no_colon [OF _ ws] assms(1) by (auto simp: addresses.code_iff)
qed

lemma colon_no_name:
  assumes "CHR '':'' \<in> set x"
  shows "x \<noteq> ''ALL'' \<and> x \<noteq> ''ALL_OTHERS_COMBINED'' \<and> x \<noteq> ''ALL_OTHERS_INDIVIDUAL''"
proof -
  have "CHR '':'' \<notin> set ''ALL''" "CHR '':'' \<notin> set ''ALL_OTHERS_COMBINED''" "CHR '':'' \<notin> set ''ALL_OTHERS_INDIVIDUAL''"
    by simp_all
  with assms show ?thesis by metis
qed

lemma colon_upper: "CHR '':'' \<in> set s \<Longrightarrow> CHR '':'' \<in> set (map upper_char s)"
  using upper_char_low [of "CHR '':''" "CHR '':''"] by force

lemma adj_colon: "CHR '':'' \<in> set s \<Longrightarrow> overlap_adj s = map upper_char s"
  using colon_no_name [OF colon_upper, of s] by (auto simp: overlap_adj_def Let_def)

lemma targets_colon:
  assumes "CHR '':'' \<in> set s" "\<forall>c \<in> set s. \<not> addr_sep c"
  shows "targets_of s = {entry_tag (overlap_adj s)} \<and> validateMultipleIps (overlap_adj s) \<noteq> 0"
proof -
  note up = colon_upper [OF assms(1)] and adj = adj_colon [OF assms(1)]
  have "\<forall>c \<in> set (map upper_char s). \<not> addr_sep c" using assms(2) by (simp add: addr_sep_upper)
  then show ?thesis
    using adj colon_no_name [OF up] colon_no_name [OF assms(1)] colon_refused [OF up] assms(1)
    by (simp add: targets_of_def entry_tag_def)
qed

lemma targets_other:
  assumes "quota_entry s" "\<not> range4 s"
  shows "targets_of s = {entry_tag (overlap_adj s)} \<and> validateMultipleIps (overlap_adj s) \<noteq> 0"
proof -
  have a: "overlap_adj ''ALL'' = ''ALL''" "overlap_adj ''ALL_OTHERS_COMBINED'' = ''ALL_OTHERS_COMBINED''"
      "overlap_adj ''ALL_OTHERS_INDIVIDUAL'' = ''ALL_OTHERS_COMBINED''" by code_simp+
  have v: "validateMultipleIps ''ALL'' \<noteq> 0" "validateMultipleIps ''ALL_OTHERS_COMBINED'' \<noteq> 0" by code_simp+
  from assms consider "s = ''ALL''" | "s = ''ALL_OTHERS_COMBINED''" | "s = ''ALL_OTHERS_INDIVIDUAL''"
    | "CHR '':'' \<in> set s" "\<forall>c \<in> set s. \<not> addr_sep c"
    unfolding quota_entry_def by blast
  then show ?thesis
  proof cases
    case 4
    then show ?thesis by (rule targets_colon)
  qed (simp_all add: a v targets_of_def entry_tag_def)
qed

lemma entries_overlap:
  assumes "quota_entry s" "quota_entry t"
  shows "testSingleAddrOverlap s t False = Inr (targets_of s \<inter> targets_of t \<noteq> {})"
proof (cases "range4 s"; cases "range4 t")
  assume "range4 s" "range4 t"
  then show ?thesis by (auto simp: single_overlap_v4 targets_range)
next
  assume r: "range4 s" "\<not> range4 t"
  then have "overlap_adj s \<noteq> overlap_adj t" "validateMultipleIps (overlap_adj t) \<noteq> 0"
    using targets_other [OF assms(2)] range4_plain(5,6) [of s] by metis+
  then show ?thesis
    using r targets_other [OF assms(2)] entry_tag_Address by (auto simp: testSingleAddrOverlap_def targets_range)
next
  assume r: "\<not> range4 s" "range4 t"
  then have "overlap_adj s \<noteq> overlap_adj t" "validateMultipleIps (overlap_adj s) \<noteq> 0"
    using targets_other [OF assms(1)] range4_plain(5,6) [of t] by metis+
  then show ?thesis
    using r targets_other [OF assms(1)] entry_tag_Address by (auto simp: testSingleAddrOverlap_def targets_range)
next
  assume r: "\<not> range4 s" "\<not> range4 t"
  then show ?thesis
    using targets_other [OF assms(1)] targets_other [OF assms(2)]
    by (auto simp: testSingleAddrOverlap_def Let_def entry_tag_eq)
qed

lemma entry_pieces:
  assumes "quota_entries ip"
  shows "split_runs addr_sep (rtrim (ltrim ip)) = split_on CHR '','' ip"
proof -
  have sep: "w \<noteq> [] \<and> (\<forall>c \<in> set w. \<not> addr_sep c)" if "w \<in> set (split_on CHR '','' ip)" for w
  proof (cases "range4 w")
    case True
    then show ?thesis using range4_plain(1-3) [of w] by (auto simp: addr_sep_def)
  next
    case False
    moreover have "quota_entry w" using that assms by (simp add: quota_entries_def list_all_iff)
    ultimately have w: "w = ''ALL'' \<or> w = ''ALL_OTHERS_COMBINED'' \<or> w = ''ALL_OTHERS_INDIVIDUAL'' \<or> CHR '':'' \<in> set w"
        "\<forall>c \<in> set w. \<not> addr_sep c" unfolding quota_entry_def by blast+
    from w(1) have "w \<noteq> []" by (elim disjE) auto
    with w(2) show ?thesis by blast
  qed
  have "\<not> is_ws c" if "c \<in> set ip" for c
  proof (cases "c = CHR '',''")
    case False
    with that obtain w where "w \<in> set (split_on CHR '','' ip)" "c \<in> set w"
      using set_join [of "'',''" "split_on CHR '','' ip"] by auto
    then show ?thesis using sep [of w] by (auto simp: addr_sep_def)
  qed (simp add: is_ws_def)
  then have "rtrim (ltrim ip) = ip" by (simp add: ltrim_id rtrim_id)
  moreover have "split_runs addr_sep (join '','' (split_on CHR '','' ip)) = split_on CHR '','' ip"
    using sep by (intro split_runs_join) (auto simp: addr_sep_def)
  ultimately show ?thesis by simp
qed

lemma entry_lists_overlap:
  assumes "quota_entries a" "quota_entries b"
  shows "testAddrOverlap a b False = Inr (quota_targets a \<inter> quota_targets b \<noteq> {})"
proof -
  have "fold_res (overlap_step False) ps f = Inr (f \<or> (\<exists>(s, t) \<in> set ps. targets_of s \<inter> targets_of t \<noteq> {}))"
    if "\<forall>(s, t) \<in> set ps. quota_entry s \<and> quota_entry t" for ps f
    using that by (induction ps arbitrary: f) (auto simp: overlap_step_def entries_overlap)
  from this [of "List.product (split_on CHR '','' a) (split_on CHR '','' b)" False]
  have "testAddrOverlap a b False = Inr (\<exists>(s, t) \<in> set (List.product (split_on CHR '','' a) (split_on CHR '','' b)).
      targets_of s \<inter> targets_of t \<noteq> {})"
    using assms by (auto simp: testAddrOverlap_def Let_def entry_pieces quota_entries_def list_all_iff)
  then show ?thesis by (simp add: quota_targets_def) blast
qed

lemma compatible_disjoint:
  assumes "quota_compatible ss u oid ip p s" "quota_str u s ''id'' \<noteq> oid" "quota_entries ip" "quota_entries (quota_str u s ''ip'')"
  shows "quota_targets ip \<inter> quota_targets (quota_str u s ''ip'') = {} \<or>
    (\<exists>p1 t. getTimeParametersFromDocument ss p = Inr (p1, t) \<and>
      (orderly_times (s_days ss) (active_except t)
         \<and> orderly_times (s_days ss) (active_except (getTimeParametersFromUci (s_days ss) u s False)) \<longrightarrow>
       active_secs (s_days ss) (active_except t)
         \<inter> active_secs (s_days ss) (active_except (getTimeParametersFromUci (s_days ss) u s False)) = {}))"
proof (cases "quota_targets ip \<inter> quota_targets (quota_str u s ''ip'') = {}")
  case False
  then have "testAddrOverlap (quota_str u s ''ip'') ip False = Inr True"
    using entry_lists_overlap [OF assms(4,3)] by (auto simp: Int_commute)
  then obtain p1 t where t: "getTimeParametersFromDocument ss p = Inr (p1, t)"
      "rangesOverlap (s_days ss) (active_except t) (active_except (getTimeParametersFromUci (s_days ss) u s False)) = Inr False"
    using assms(1,2) unfolding quota_compatible_def by auto
  moreover have "active_secs (s_days ss) (active_except t)
      \<inter> active_secs (s_days ss) (active_except (getTimeParametersFromUci (s_days ss) u s False)) = {}"
    if "orderly_times (s_days ss) (active_except t)"
      "orderly_times (s_days ss) (active_except (getTimeParametersFromUci (s_days ss) u s False))"
    using orderly_overlap [OF that] t(2) by simp
  ultimately show ?thesis by blast
qed simp

section \<open>Properties\<close>

text \<open>
  C23. \<open>getIdFromIp\<close> always returns, and its result is the id of no quota: it is the address itself (up to
  the first separator, with its first slash replaced) when that is free, and otherwise the address with
  the first suffix of the sequence \<open>_A\<close> to \<open>_Z\<close>, \<open>_Z1\<close>, \<open>_Z2\<close> and so on that is free.
\<close>

theorem getIdFromIp_fresh:
  "getIdFromIp ip u \<notin> set (map (\<lambda>s. quota_str u s ''id'') (quota_sections u)) \<and>
   (if id_prefix ip \<notin> set (map (\<lambda>s. quota_str u s ''id'') (quota_sections u)) then getIdFromIp ip u = id_prefix ip
    else (\<exists>k. getIdFromIp ip u = id_prefix ip @ id_suffix k \<and>
      list_all (\<lambda>j. id_prefix ip @ id_suffix j \<in> set (map (\<lambda>s. quota_str u s ''id'') (quota_sections u))) [0 ..< k]))"
  using id_loop_result [of "map (\<lambda>s. quota_str u s ''id'') (quota_sections u)" "id_prefix ip" "id_prefix ip" 0]
  by (auto simp: getIdFromIp_def list_all_iff)

text \<open>
  C24. The times of a quota read back from the configuration are the ones written to it, with the weekly
  ranges in the interface language: a quota that is active only, or except, at some times comes back with
  them, and one without times comes back as always active, whatever was stored for it before.
\<close>

theorem quota_times_roundtrip:
  assumes "name_ok s" "\<forall>opt \<in> set time_options. \<not> ulists u (uci_key quota_pkg s opt)"
  shows "getTimeParametersFromUci ui (set_quota_times s (h, d, w, a) u) s False =
    (if (a = ''except'' \<or> a = ''only'') \<and> (h \<noteq> [] \<or> d \<noteq> [] \<or> w \<noteq> []) then (h, d, weekly_i18n ui w True, a)
     else ([], [], [], ''always''))"
proof -
  let ?u = "set_quota_times s (h, d, w, a) u"
  have off: "quota_str ?u s ''offpeak_hours'' = (if a = ''except'' then h else [])"
      "quota_str ?u s ''offpeak_weekdays'' = (if a = ''except'' then d else [])"
      "quota_str ?u s ''offpeak_weekly_ranges'' = (if a = ''except'' then w else [])"
    and on: "quota_str ?u s ''onpeak_hours'' = (if a = ''only'' then h else [])"
      "quota_str ?u s ''onpeak_weekdays'' = (if a = ''only'' then d else [])"
      "quota_str ?u s ''onpeak_weekly_ranges'' = (if a = ''only'' then w else [])"
    using set_quota_times_str [OF assms, of h d w a] by (simp_all add: time_options_def split: if_splits)
  have "weekly_i18n ui [] True = []" by (simp add: weekly_i18n_def)
  then show ?thesis
    unfolding getTimeParametersFromUci_def off on
    by (cases "a = ''except''"; cases "a = ''only''"; cases "h = [] \<and> d = [] \<and> w = []") auto
qed


text \<open>
  Quotas of IPv6 addresses are compared by spelling, since \<open>testAddrOverlap\<close> is called without asking for
  IPv6: two entries with a colon and without blanks or commas, different but for letter case, never count as overlapping,
  such as a subnet and an address in it.
\<close>

theorem ipv6_quotas_not_compared:
  assumes "CHR '':'' \<in> set a" "\<forall>c \<in> set a. \<not> addr_sep c" "CHR '':'' \<in> set b" "\<forall>c \<in> set b. \<not> addr_sep c"
    and "map upper_char a \<noteq> map upper_char b"
  shows "testAddrOverlap a b False = Inr False"
proof -
  have "quota_entry a" "quota_entry b" using assms by (simp_all add: quota_entry_def)
  moreover have "CHR '','' \<notin> set x" if "\<forall>c \<in> set x. \<not> addr_sep c" for x
    using that by (meson addr_sep_def)
  then have "split_on CHR '','' a = [a]" "split_on CHR '','' b = [b]" using assms(2,4) by simp_all
  ultimately show ?thesis
    using targets_colon [OF assms(1,2)] targets_colon [OF assms(3,4)]
    by (simp add: entry_lists_overlap quota_entries_def quota_targets_def entry_tag_eq adj_colon assms)
qed

text \<open>
  C25. \<open>removeQuotaCallback\<close> removes every section whose quota has the id of the removed row, with all its
  options, and nothing else; afterwards no quota has that id, and its counters are marked for reset.
\<close>

theorem removeQuotaCallback_exact:
  assumes "uci_wf (q_uci q)" "keys_wf (q_uci q)" "i \<noteq> []"
  shows "uvals (q_uci (removeQuotaCallback i q)) k =
      (if \<exists>s \<in> set (quota_sections (q_uci q)). quota_str (q_uci q) s ''id'' = i \<and> in_section quota_pkg s k
       then None else uvals (q_uci q) k)
    \<and> i \<notin> set (map (\<lambda>s. quota_str (q_uci (removeQuotaCallback i q)) s ''id'') (quota_sections (q_uci (removeQuotaCallback i q))))
    \<and> q_changed (removeQuotaCallback i q) i"
proof -
  let ?u = "q_uci q" and ?u' = "q_uci (removeQuotaCallback i q)"
  have names: "list_all name_ok (quota_sections ?u)" using quota_sections_ok by (auto simp: list_all_iff)
  have vals: "uvals ?u' k = (if \<exists>s \<in> set (quota_sections ?u). quota_str ?u s ''id'' = i \<and> in_section quota_pkg s k
       then None else uvals ?u k)" for k
    using remove_fold [OF assms(1,2) names] by (simp add: removeQuotaCallback_def)
  have keys: "set (ukeys ?u') \<subseteq> set (ukeys ?u)"
    using remove_fold_keys [OF assms(1,2) names] by (simp add: removeQuotaCallback_def)
  have "quota_str ?u' s ''id'' \<noteq> i" if "s \<in> set (quota_sections ?u')" for s
  proof -
    have "uvals ?u' k = None \<or> uvals ?u' k = uvals ?u k" for k by (simp add: vals)
    then have s: "s \<in> set (quota_sections ?u)" using that quota_sections_mono [OF _ keys] by blast
    have "in_section quota_pkg t (uci_key quota_pkg s ''id'') \<longleftrightarrow> t = s" if "t \<in> set (quota_sections ?u)" for t
      using that s id_ok quota_sections_ok by (subst in_section_uci_key) auto
    then have "uvals ?u' (uci_key quota_pkg s ''id'') = (if quota_str ?u s ''id'' = i then None else uvals ?u (uci_key quota_pkg s ''id''))"
      using vals [of "uci_key quota_pkg s ''id''"] s by auto
    then show ?thesis using assms(3) by (auto simp: quota_str_def uci_get_def)
  qed
  note new = this
  have "i \<notin> set (map (\<lambda>s. quota_str ?u' s ''id'') (quota_sections ?u'))"
  proof
    assume "i \<in> set (map (\<lambda>s. quota_str ?u' s ''id'') (quota_sections ?u'))"
    then obtain s where "i = quota_str ?u' s ''id''" "s \<in> set (quota_sections ?u')" unfolding set_map by (rule imageE)
    with new [of s] show False by simp
  qed
  moreover have "q_changed (removeQuotaCallback i q) i" by (simp add: removeQuotaCallback_def)
  ultimately show ?thesis using vals [of k] by blast
qed

section \<open>A small configuration and form\<close>

definition demo_quota_uci :: uci where
  "demo_quota_uci =
     uci_set ''firewall'' ''quota_1'' ''id'' (Str ''192.168.1.5'') False
      (uci_set ''firewall'' ''quota_1'' ''ip'' (Str ''192.168.1.5'') False
       (uci_set ''firewall'' ''quota_1'' [] (Str ''quota'') False newUCIContainer))"

definition demo_sel :: "string \<Rightarrow> element" where
  "demo_sel v = demo_text\<lparr>el_type := ''select-one'', el_options := [(v, v)], el_selected := 0\<rparr>"

definition demo_quota_doc :: "(string \<times> element) list" where
  "demo_quota_doc =
     map (\<lambda>i. (i, demo_text\<lparr>el_display := ''none''\<rparr>))
       [''max_up_container'', ''max_down_container'', ''max_combined_container'', ''active_hours_container'', ''active_weekly_container'']
     @ [(''applies_to_type'', demo_sel ''only''), (''add_ip'', demo_text\<lparr>el_value := ''192.168.1.6''\<rparr>),
        (''max_up_type'', demo_sel ''limited'')]"

definition demo_quota_state :: quota_state where
  "demo_quota_state = \<lparr>q_page = \<lparr>doc = map_of demo_quota_doc, alerts = [], gvalue = None\<rparr>,
     q_ip4 = [], q_ip6 = [], q_uci = demo_quota_uci, q_changed = (\<lambda>_. False)\<rparr>"

definition demo_strings :: quota_strings where
  "demo_strings = \<lparr>s_Err = ''Error'', s_nex = ''not there'', s_prfErr = ''Error in'', s_InvAdd = ''Invalid'', s_IPError = ''No address'',
     s_AllUnlimitedError = ''No limit'', s_DuplicateRange = ''Duplicate'', s_OneTimeQuotaError = ''One time'',
     s_OneNetworkQuotaError = ''One network'', s_days = english_days\<rparr>"

lemma demo_quota_wf: "uci_wf demo_quota_uci" "keys_wf demo_quota_uci"
proof -
  show "uci_wf demo_quota_uci" unfolding demo_quota_uci_def by (intro uci_wf_set uci_wf_new)
  have "ukeys demo_quota_uci = [''firewall.quota_1'', ''firewall.quota_1.ip'', ''firewall.quota_1.id'']" by code_simp
  then show "keys_wf demo_quota_uci" unfolding keys_wf_def by (simp only:) code_simp
qed

theorem quota_times_roundtrip_witness:
  "getTimeParametersFromUci english_days (set_quota_times ''quota_1'' (''08:00-17:00'', ''mon,tue'', [], ''only'') demo_quota_uci) ''quota_1'' False =
     (''08:00-17:00'', ''mon,tue'', [], ''only'')"
proof -
  have "name_ok ''quota_1''" by code_simp
  moreover have "\<forall>opt \<in> set time_options. \<not> ulists demo_quota_uci (uci_key quota_pkg ''quota_1'' opt)"
    by (simp add: demo_quota_uci_def uci_set_def newUCIContainer_def)
  moreover have "weekly_i18n english_days [] True = []" by code_simp
  ultimately show ?thesis
    using quota_times_roundtrip [of "''quota_1''" demo_quota_uci english_days "''08:00-17:00''" "''mon,tue''" "[]" "''only''"] by simp
qed

theorem removeQuotaCallback_exact_witness:
  "''192.168.1.5'' \<notin> set (map (\<lambda>s. quota_str (q_uci (removeQuotaCallback ''192.168.1.5'' demo_quota_state)) s ''id'')
      (quota_sections (q_uci (removeQuotaCallback ''192.168.1.5'' demo_quota_state))))
   \<and> quota_sections demo_quota_uci = [''quota_1'']"
proof
  show "quota_sections demo_quota_uci = [''quota_1'']" by code_simp
  have "q_uci demo_quota_state = demo_quota_uci" by (simp add: demo_quota_state_def)
  then show "''192.168.1.5'' \<notin> set (map (\<lambda>s. quota_str (q_uci (removeQuotaCallback ''192.168.1.5'' demo_quota_state)) s ''id'')
      (quota_sections (q_uci (removeQuotaCallback ''192.168.1.5'' demo_quota_state))))"
    using removeQuotaCallback_exact [of demo_quota_state "''192.168.1.5''"] demo_quota_wf by auto
qed

lemma demo_entries: "quota_entries ''192.168.1.5''" "quota_entries ''192.168.1.6''"
proof -
  have r: "range4 s" if "validateMultipleIps s = 0" "list_all (\<lambda>c. \<not> is_ws c \<and> c \<noteq> CHR '','' \<and> c \<noteq> CHR ''/'') s" for s
  proof -
    have ws: "\<forall>c \<in> set s. \<not> is_ws c" and no: "CHR '','' \<notin> set s" "CHR ''/'' \<notin> set s" using that(2) by (auto simp: list_all_iff)
    then have "split_sep_ws CHR '','' (rtrim (ltrim s)) = [s]" by (simp add: ltrim_id rtrim_id split_sep_ws_blank_free)
    then show ?thesis using that(1) ws no by (simp add: range4_def addresses.code_iff)
  qed
  have c: "split_on CHR '','' ''192.168.1.5'' = [''192.168.1.5'']" "split_on CHR '','' ''192.168.1.6'' = [''192.168.1.6'']" by code_simp+
  have "range4 ''192.168.1.5''" "range4 ''192.168.1.6''" by (rule r; code_simp)+
  then show "quota_entries ''192.168.1.5''" "quota_entries ''192.168.1.6''" unfolding quota_entries_def quota_entry_def c by simp_all
qed


end
