(* ===== verification/Wifi_Schedule.thy ===== *)
theory Wifi_Schedule
  imports Js_Number
begin

text \<open>
  The wireless schedule of \<open>wifi_schedule.js\<close>: tables of hours, the crontab lines written for them, the
  removal of lines that change nothing, and the reading of crontab lines back into tables. A cell is 60
  when the radio is on for the hour, 0 when it is off, \<open>n\<close> between 1 and 59 when it is switched off after
  \<open>n\<close> minutes and \<open>-n\<close> when it is switched on after \<open>n\<close> minutes. There are as many tables as \<open>timerMode\<close>
  says: one for every day alike, three for Sunday, weekdays and Saturday, or seven; the model keeps
  their cells one after the other, 24 for each. Colours and labels of the cells are not modelled.
\<close>

section \<open>Tables\<close>

record wifi =
  timerMode :: nat
  increment :: int
  cells :: "int list"
  new_cron_tabs :: "string list"
  stripped_cron_tabs :: "string list"
  found_wifi_cron_tabs :: "string list"

definition garCronWIFI :: string where "garCronWIFI = ''/usr/lib/gargoyle/scheduled_wifi.sh''"

definition ThisCell :: "int list \<Rightarrow> nat \<Rightarrow> nat \<Rightarrow> int" where
  "ThisCell t aday ahour = t ! (24 * aday + ahour)"

definition PreviousCell :: "nat \<Rightarrow> int list \<Rightarrow> nat \<Rightarrow> nat \<Rightarrow> int" where
  "PreviousCell mode t aday ahour =
     (if ahour = 0 then ThisCell t (if aday = 0 then mode - 1 else aday - 1) 23 else ThisCell t aday (ahour - 1))"

definition toggled :: "int \<Rightarrow> int \<Rightarrow> int \<Rightarrow> int" where
  "toggled inc previous_state c =
     (if previous_state = 60 \<or> (previous_state > -60 \<and> previous_state < 0)
      then (if c + inc > 60 then 0 else c + inc)
      else (let v = (if c = 60 then 0 else c - inc) in if v \<le> -60 then 60 else v))"

section \<open>Writing crontab lines\<close>

definition day_string :: "nat \<Rightarrow> nat \<Rightarrow> string option" where
  "day_string mode day =
     (if mode = 1 then Some ''*''
      else if mode = 3 then Some (if day = 0 then ''0'' else if day = 1 then ''1-5'' else if day = 2 then ''6'' else [])
      else if mode = 7 then Some (dec_str day)
      else None)"

definition cron_line :: "nat \<Rightarrow> nat \<Rightarrow> string \<Rightarrow> string \<Rightarrow> string \<Rightarrow> string" where
  "cron_line minute hour day cmd extra =
     dec_str minute @ '' '' @ dec_str hour @ '' * * '' @ day @ '' '' @ garCronWIFI @ '' '' @ cmd @ extra"

definition generateCronTabStr :: "nat \<Rightarrow> int \<Rightarrow> nat \<Rightarrow> nat \<Rightarrow> string \<Rightarrow> string list \<Rightarrow> string list" where
  "generateCronTabStr mode minute hour day extra tabs =
     (case day_string mode day of
        None \<Rightarrow> tabs
      | Some ds \<Rightarrow> tabs @
          [if minute = 0 then cron_line 0 hour ds ''down'' extra
           else if minute = 60 then cron_line 0 hour ds ''up'' extra
           else cron_line (nat \<bar>minute\<bar>) hour ds (if minute > 0 then ''down'' else ''up'') extra])"

text \<open>The lines of one cell.\<close>

definition scan_cell :: "nat \<Rightarrow> int list \<Rightarrow> nat \<Rightarrow> nat \<Rightarrow> string list \<Rightarrow> string list" where
  "scan_cell mode t i j tabs =
     (let acell = ThisCell t i j; pre_cell = PreviousCell mode t i j;
          tabs1 =
            (if pre_cell \<ge> 0 \<and> pre_cell < 60 \<and> acell > 0 \<and> acell < 60 then generateCronTabStr mode 60 j i '' keep1'' tabs
             else if pre_cell < 0 \<and> pre_cell > -60 \<and> acell < 0 \<and> acell > -60 then generateCronTabStr mode 0 j i '' keep2'' tabs
             else if mode = 3 \<and> i = 1 \<and> j = 0
             then (if ThisCell t 1 23 = 60 \<and> acell = 0
                   then (if pre_cell < 60 \<and> pre_cell > 0 then generateCronTabStr mode 0 j i '' keep3'' tabs
                         else if pre_cell = 0 then generateCronTabStr mode 0 j i '' keep4'' tabs else tabs)
                   else if ThisCell t 1 23 < 0 \<and> acell = 0 then generateCronTabStr mode 0 j i '' keep5'' tabs
                   else if pre_cell = 60 \<and> acell = 60 \<and> ThisCell t 1 23 = 0 then generateCronTabStr mode 60 j i '' keep6'' tabs
                   else tabs)
             else tabs)
      in generateCronTabStr mode acell j i '''' tabs1)"

text \<open>\<open>s.search(w)\<close>: the first position at which the text matches, \<open>None\<close> for -1.\<close>

fun search_re :: "re_tok list \<Rightarrow> string \<Rightarrow> nat option" where
  "search_re w [] = (if w = [] then Some 0 else None)"
| "search_re w (c # cs) = (if re_prefix w (c # cs) then Some 0 else map_option Suc (search_re w cs))"

definition search_word :: "string \<Rightarrow> string \<Rightarrow> nat option" where
  "search_word w s = search_re (re_of_string w) s"

definition has_keep :: "string \<Rightarrow> bool" where
  "has_keep s = (case search_word ''keep'' s of None \<Rightarrow> False | Some n \<Rightarrow> n > 0)"

definition before_keep :: "string \<Rightarrow> string" where
  "before_keep s = (case search_word ''keep'' s of None \<Rightarrow> s | Some n \<Rightarrow> take n s)"

text \<open>\<open>s.split(" ")[n]\<close>, read by a method call: \<open>undefined\<close> raises a \<open>TypeError\<close>.\<close>

definition cron_field :: "string \<Rightarrow> nat \<Rightarrow> string js_result" where
  "cron_field s n = (case nth_opt (split_on CHR '' '' s) n of None \<Rightarrow> Inl TypeError | Some c \<Rightarrow> Inr c)"

definition cull_step :: "string \<Rightarrow> string list \<times> string \<Rightarrow> (string list \<times> string) js_result" where
  "cull_step tab = (\<lambda>(culledTabs, previous_WiFi_state).
     res_bind (cron_field tab 6) (\<lambda>cmd.
       if search_word previous_WiFi_state cmd = None then Inr (culledTabs @ [tab], cmd)
       else if has_keep tab then Inr (culledTabs @ [before_keep tab], cmd)
       else Inr (culledTabs, previous_WiFi_state)))"

definition CronTabCull :: "string list \<Rightarrow> string list js_result" where
  "CronTabCull tabs =
     (if tabs = [] then Inl TypeError
      else res_bind (cron_field (last tabs) 6) (\<lambda>previous_WiFi_state.
           res_bind (fold_res cull_step tabs ([], previous_WiFi_state)) (\<lambda>(culledTabs, _).
             Inr (map (\<lambda>s. if has_keep s then before_keep s else s) culledTabs))))"

definition scan_tables :: "nat \<Rightarrow> int list \<Rightarrow> string list" where
  "scan_tables mode t = fold (\<lambda>n. scan_cell mode t (n div 24) (n mod 24)) [0 ..< 24 * mode] []"

definition scanSettings :: "wifi \<Rightarrow> wifi js_result" where
  "scanSettings w =
     res_bind (CronTabCull (scan_tables (timerMode w) (cells w))) (\<lambda>tabs. Inr (w\<lparr>new_cron_tabs := tabs\<rparr>))"

text \<open>The part of \<open>UpdateSummary\<close> that changes the state.\<close>

definition UpdateSummary :: "wifi \<Rightarrow> wifi js_result" where
  "UpdateSummary w = (if timerMode w > 0 then scanSettings w else Inr w)"

definition ToggleTime :: "nat \<Rightarrow> nat \<Rightarrow> wifi \<Rightarrow> wifi js_result" where
  "ToggleTime day_tab hour_cell w =
     (let v = toggled (increment w) (PreviousCell (timerMode w) (cells w) day_tab hour_cell) (ThisCell (cells w) day_tab hour_cell)
      in UpdateSummary (w\<lparr>cells := (cells w)[24 * day_tab + hour_cell := v]\<rparr>))"

definition SetTimerMode :: "nat \<Rightarrow> wifi \<Rightarrow> wifi js_result" where
  "SetTimerMode mode_option w =
     UpdateSummary (w\<lparr>timerMode := mode_option, new_cron_tabs := [], cells := replicate (24 * mode_option) 60\<rparr>)"

section \<open>Reading crontab lines\<close>

text \<open>
  \<open>eval\<close> of a number field: nothing is \<open>undefined\<close>; a numeral is its value, octal when it starts with 0
  and has no digit above 7; a dash subtracts; a comma keeps the last value. Anything else is taken as
  no expression, which is so for a star; steps (a slash) are not covered.
\<close>

definition eval_numeral :: "string \<Rightarrow> int js_result" where
  "eval_numeral s =
     (if s \<noteq> [] \<and> list_all is_digit s
      then Inr (int (if hd s = CHR ''0'' \<and> list_all (is_base_digit 8) s then base_val 8 s else dec_val s))
      else Inl SyntaxError)"

definition eval_difference :: "string \<Rightarrow> int js_result" where
  "eval_difference s =
     (case split_on CHR ''-'' s of
        [] \<Rightarrow> Inl SyntaxError
      | a # bs \<Rightarrow> res_bind (if a = [] \<and> bs \<noteq> [] then Inr 0 else eval_numeral a) (\<lambda>x.
          fold_res (\<lambda>b acc. res_bind (eval_numeral b) (\<lambda>y. Inr (acc - y))) bs x))"

definition eval_field :: "string \<Rightarrow> int option js_result" where
  "eval_field s =
     (if s = [] then Inr None
      else fold_res (\<lambda>b _. res_bind (eval_difference b) (\<lambda>y. Inr (Some y))) (split_on CHR '','' s) None)"

definition SeatCronData :: "nat \<Rightarrow> int option \<Rightarrow> string \<Rightarrow> string \<Rightarrow> string \<Rightarrow> int list \<Rightarrow> int list js_result" where
  "SeatCronData mode ecron_minute cron_hour cron_day cron_cmd t =
     res_bind (eval_field cron_hour) (\<lambda>hour.
     res_bind (eval_field cron_day) (\<lambda>day.
       case day of
         None \<Rightarrow> Inl TypeError
       | Some d \<Rightarrow>
           if \<not> (0 \<le> d \<and> d < int mode) then Inl TypeError
           else
             let put = (\<lambda>v. case hour of
                              None \<Rightarrow> Inl TypeError
                            | Some h \<Rightarrow> if 0 \<le> h \<and> h < 24 then Inr (t[24 * nat d + nat h := v]) else Inl TypeError)
             in (case ecron_minute of
                   Some m \<Rightarrow>
                     if 0 < m \<and> m < 60 then put (if search_word ''up'' cron_cmd \<noteq> None then - m else m)
                     else if search_word ''up'' cron_cmd \<noteq> None then put 1000
                     else if search_word ''down'' cron_cmd \<noteq> None then put (-1000) else Inr t
                 | None \<Rightarrow>
                     if search_word ''up'' cron_cmd \<noteq> None then put 1000
                     else if search_word ''down'' cron_cmd \<noteq> None then put (-1000) else Inr t)))"

definition out_of :: "int \<Rightarrow> int option \<Rightarrow> bool" where
  "out_of mx v = (case v of None \<Rightarrow> False | Some x \<Rightarrow> x > mx \<or> x < 0)"

text \<open>
  One line. An hour out of range becomes the number 0, which has no \<open>split\<close>: a \<open>TypeError\<close>.
\<close>

definition seat_line :: "nat \<Rightarrow> string \<Rightarrow> int list \<Rightarrow> int list js_result" where
  "seat_line mode tab t =
     res_bind (cron_field tab 0) (\<lambda>aCronMinute.
     res_bind (cron_field tab 1) (\<lambda>aCronHour.
     res_bind (cron_field tab 4) (\<lambda>day0.
       let aCronDay = (if mode = 1 then ''0''
                       else if mode = 3 then (if day0 = ''1-5'' then ''1'' else if day0 = ''6'' then ''2'' else day0)
                       else day0)
       in res_bind (eval_field aCronHour) (\<lambda>hour.
          res_bind (eval_field aCronMinute) (\<lambda>minute.
            if out_of 23 hour then Inl TypeError
            else res_bind (cron_field tab 6) (\<lambda>aCronWifiCmd.
              fold_res (\<lambda>(day, hr). SeatCronData mode (if out_of 59 minute then Some 0 else minute) hr day aCronWifiCmd)
                   (List.product (split_on CHR '','' aCronDay) (split_on CHR '','' aCronHour)) t))))))"

text \<open>
  \<open>FinalizeTables\<close>: the first pass keeps where the first entry is and the state so far; the second fills
  the cells before it with the state at the end of the period.
\<close>

definition final_step :: "nat \<Rightarrow> int list \<times> nat option \<times> int \<Rightarrow> int list \<times> nat option \<times> int" where
  "final_step n = (\<lambda>(t, initial_crontab, previous_wifi_state).
     let v = t ! n;
         (ini, prev) = (if v \<noteq> 60 \<and> initial_crontab = None then (Some n, if v > 0 then 1 else -1)
                        else (initial_crontab, previous_wifi_state))
     in if v = 1000 then (t[n := 60], ini, 1)
        else if v = -1000 then (t[n := 0], ini, -1)
        else if v = 60
        then (if prev \<noteq> 0 \<and> ini \<noteq> None
              then (if prev > 0 then (t[n := 60], ini, 1) else (t[n := 0], ini, -1))
              else (t, ini, prev))
        else if v > 0 then (t, ini, -1) else (t, ini, 1))"

definition fill_value :: "int \<Rightarrow> int" where
  "fill_value initial_state =
     (if initial_state = 60 then 60 else if initial_state = 0 then 0 else if initial_state > 0 then 0 else 60)"

definition FinalizeTables :: "nat \<Rightarrow> int list \<Rightarrow> int list" where
  "FinalizeTables mode t =
     (case fold final_step [0 ..< 24 * mode] (t, None, 0) of
        (t1, None, _) \<Rightarrow> t1
      | (t1, Some k, _) \<Rightarrow> fold (\<lambda>n u. u[n := fill_value (PreviousCell mode t1 0 0)]) [0 ..< k] t1)"

definition CronTabsToTables :: "nat \<Rightarrow> string list \<Rightarrow> int list js_result" where
  "CronTabsToTables mode found =
     res_bind (fold_res (seat_line mode) found (replicate (24 * mode) 60)) (\<lambda>t. Inr (FinalizeTables mode t))"

section \<open>Loading\<close>

text \<open>
  \<open>x.match(/[..]/g) >= 0\<close> compares what \<open>match\<close> returns with a number: \<open>null\<close> counts as 0, an array of
  one match as that digit, and a longer array, like the comma, is not a number.
\<close>

definition match_ge0 :: "string \<Rightarrow> string \<Rightarrow> bool" where
  "match_ge0 class field = (case filter (\<lambda>c. c \<in> set class) field of [] \<Rightarrow> True | [c] \<Rightarrow> is_digit c | _ \<Rightarrow> False)"

record sched_counts =
  foundDailySched :: nat
  found511Sched :: nat
  foundWeekday :: nat
  foundWeeklySched :: nat
  foundWeekend :: nat

definition count_line :: "string \<Rightarrow> sched_counts \<Rightarrow> sched_counts js_result" where
  "count_line tab c =
     res_bind (cron_field tab 4) (\<lambda>day.
       Inr (if day = ''*'' then c\<lparr>foundDailySched := Suc (foundDailySched c)\<rparr>
            else if day = ''1-5'' then c\<lparr>found511Sched := Suc (found511Sched c), foundWeekday := Suc (foundWeekday c)\<rparr>
            else if match_ge0 ''12345'' day then c\<lparr>foundWeeklySched := Suc (foundWeeklySched c)\<rparr>
            else if match_ge0 ''0,6'' day then c\<lparr>foundWeekend := Suc (foundWeekend c)\<rparr>
            else c))"

definition detect_mode :: "nat \<Rightarrow> sched_counts \<Rightarrow> nat" where
  "detect_mode mode c =
     (if foundDailySched c > 0 \<and> found511Sched c = 0 \<and> foundWeekend c = 0 \<and> foundWeeklySched c = 0 then 1
      else if foundWeekday c > 0 \<or> ((foundWeekend c > 0 \<or> found511Sched c > 0) \<and> foundWeeklySched c = 0) then 3
      else if foundWeeklySched c > 0 \<or> foundWeekend c > 0 then 7
      else mode)"

definition is_wifi_line :: "string \<Rightarrow> bool" where
  "is_wifi_line s = (case search_word garCronWIFI s of None \<Rightarrow> False | Some n \<Rightarrow> n > 0)"

definition LoadCrontabs :: "string list \<Rightarrow> wifi \<Rightarrow> wifi js_result" where
  "LoadCrontabs raw_cron_data w =
     (let w1 = w\<lparr>found_wifi_cron_tabs := found_wifi_cron_tabs w @ filter is_wifi_line raw_cron_data,
                 stripped_cron_tabs := filter (\<lambda>s. \<not> is_wifi_line s \<and> s \<noteq> []) raw_cron_data\<rparr>
      in res_bind (fold_res count_line (found_wifi_cron_tabs w1) \<lparr>foundDailySched = 0, found511Sched = 0, foundWeekday = 0,
                     foundWeeklySched = 0, foundWeekend = 0\<rparr>) (\<lambda>c.
         let mode = detect_mode (timerMode w1) c
         in res_bind (if mode > 0 then CronTabsToTables mode (found_wifi_cron_tabs w1) else Inr (cells w1)) (\<lambda>t.
            UpdateSummary (w1\<lparr>timerMode := mode, cells := t\<rparr>))))"

text \<open>The commands of \<open>saveChanges\<close>: the other lines first, then the new ones.\<close>

definition saveChanges_commands :: "wifi \<Rightarrow> string list" where
  "saveChanges_commands w =
     [''mkdir -p /etc/crontabs'', ''touch /etc/crontabs/root'',
      ''cat /etc/crontabs/root | grep -v -e '' @ [CHR 0x27] @ garCronWIFI @ [CHR 0x27] @ '' > /tmp/cron.backup'',
      ''cat /dev/null > /tmp/cron.tmp'']
     @ map (\<lambda>s. ''echo '' @ [CHR 0x27] @ s @ [CHR 0x27] @ '' >> /tmp/cron.tmp'') (stripped_cron_tabs w @ new_cron_tabs w)
     @ [''mv /tmp/cron.tmp /etc/crontabs/root'', ''/etc/init.d/cron restart'']"

section \<open>The lines of a schedule\<close>

text \<open>One line per slot of the period; a slot is an hour of a day.\<close>

definition slot_day :: "nat \<Rightarrow> nat \<Rightarrow> string" where
  "slot_day mode n = (if mode = 1 then ''*'' else dec_str (n div 24))"

definition slot_line :: "nat \<Rightarrow> nat \<Rightarrow> nat \<Rightarrow> bool \<Rightarrow> string \<Rightarrow> string" where
  "slot_line mode n minute up extra = cron_line minute (n mod 24) (slot_day mode n) (if up then ''up'' else ''down'') extra"

definition ends_up :: "int \<Rightarrow> bool" where
  "ends_up v \<longleftrightarrow> v = 60 \<or> v < 0"

definition cell_minute :: "int \<Rightarrow> nat" where
  "cell_minute v = (if v = 60 then 0 else nat \<bar>v\<bar>)"

definition prev_cell :: "int list \<Rightarrow> nat \<Rightarrow> int" where
  "prev_cell t n = t ! (if n = 0 then length t - 1 else n - 1)"

text \<open>A daily or weekly table with cells in range.\<close>

definition cells_ok :: "nat \<Rightarrow> int list \<Rightarrow> bool" where
  "cells_ok mode t \<longleftrightarrow> (mode = 1 \<or> mode = 7) \<and> length t = 24 * mode \<and> list_all (\<lambda>v. -60 < v \<and> v \<le> 60) t"

text \<open>
  No hour starts with the radio off after an hour with the radio on throughout: for that no line is
  written (the two hours cannot be told from a switch at the full hour).
\<close>

definition table_ok :: "nat \<Rightarrow> int list \<Rightarrow> bool" where
  "table_ok mode t \<longleftrightarrow> cells_ok mode t \<and> list_all (\<lambda>n. \<not> (prev_cell t n = 60 \<and> t ! n < 0)) [0 ..< length t]"

lemma table_ok_cells: "table_ok mode t \<Longrightarrow> cells_ok mode t"
  by (simp add: table_ok_def)

lemma cells_ok_cell:
  assumes "cells_ok mode t" "n < length t"
  shows "-60 < t ! n" "t ! n \<le> 60"
  using assms nth_mem [OF assms(2)] by (simp_all add: cells_ok_def list_all_iff)

lemma table_ok_cell:
  assumes "table_ok mode t" "n < length t"
  shows "-60 < t ! n" "t ! n \<le> 60" "\<not> (prev_cell t n = 60 \<and> t ! n < 0)" "-60 < prev_cell t n" "prev_cell t n \<le> 60"
proof -
  have v: "-60 < t ! k \<and> t ! k \<le> 60" if "k < length t" for k
    using cells_ok_cell [OF table_ok_cells [OF assms(1)] that] by blast
  show "-60 < t ! n" "t ! n \<le> 60" using v assms(2) by auto
  show "\<not> (prev_cell t n = 60 \<and> t ! n < 0)" using assms by (simp add: table_ok_def list_all_iff)
  show "-60 < prev_cell t n" "prev_cell t n \<le> 60" using v assms(2) by (auto simp: prev_cell_def)
qed

lemma slot_cells:
  assumes "cells_ok mode t" "n < length t"
  shows "ThisCell t (n div 24) (n mod 24) = t ! n" "PreviousCell mode t (n div 24) (n mod 24) = prev_cell t n"
proof -
  show "ThisCell t (n div 24) (n mod 24) = t ! n" by (simp add: ThisCell_def)
  have len: "length t = 24 * mode" using assms(1) by (simp add: cells_ok_def)
  show "PreviousCell mode t (n div 24) (n mod 24) = prev_cell t n"
  proof (cases "n mod 24 = 0")
    case False
    then have "24 * (n div 24) + (n mod 24 - 1) = n - 1" using mult_div_mod_eq [of 24 n] by linarith
    moreover have "n \<noteq> 0" using False by (metis mod_0)
    ultimately show ?thesis using False by (simp add: PreviousCell_def ThisCell_def prev_cell_def)
  next
    case True
    then have n: "n = 24 * (n div 24)" by auto
    show ?thesis
    proof (cases "n = 0")
      case True
      then have "24 * (mode - Suc 0) + 23 = length t - Suc 0" using len assms(2) by (cases mode) auto
      then show ?thesis using True by (simp add: PreviousCell_def ThisCell_def prev_cell_def)
    next
      case False
      then have "n div 24 \<noteq> 0" using n by (metis mult_0_right)
      then have "24 * (n div 24 - 1) + 23 = n - 1" using n by (cases "n div 24") auto
      then show ?thesis using False True \<open>n div 24 \<noteq> 0\<close> by (simp add: PreviousCell_def ThisCell_def prev_cell_def)
    qed
  qed
qed

text \<open>The lines before culling: one for the state at the end of the hour, before it one at the full hour
  when the hour does not start in the state in which the hour before ended.\<close>

definition keep_word :: "int \<Rightarrow> int \<Rightarrow> string option" where
  "keep_word p v =
     (if 0 \<le> p \<and> p < 60 \<and> 0 < v \<and> v < 60 then Some '' keep1''
      else if p < 0 \<and> -60 < p \<and> v < 0 \<and> -60 < v then Some '' keep2'' else None)"

definition scan_lines :: "nat \<Rightarrow> int list \<Rightarrow> nat \<Rightarrow> string list" where
  "scan_lines mode t n =
     (case keep_word (prev_cell t n) (t ! n) of
        None \<Rightarrow> []
      | Some k \<Rightarrow> [slot_line mode n 0 (0 < t ! n) k])
     @ [slot_line mode n (cell_minute (t ! n)) (ends_up (t ! n)) []]"

lemma generate_slot:
  assumes "mode = 1 \<or> mode = 7" "-60 < v" "v \<le> 60"
  shows "generateCronTabStr mode v (n mod 24) (n div 24) extra tabs = tabs @ [slot_line mode n (cell_minute v) (ends_up v) extra]"
  using assms
  by (auto simp: generateCronTabStr_def day_string_def slot_line_def slot_day_def cell_minute_def ends_up_def)

lemma scan_cell_lines:
  assumes "cells_ok mode t" "n < length t"
  shows "scan_cell mode t (n div 24) (n mod 24) tabs = tabs @ scan_lines mode t n"
proof -
  have m: "mode = 1 \<or> mode = 7" using assms(1) by (simp add: cells_ok_def)
  then have "mode \<noteq> 3" by auto
  note b = cells_ok_cell [OF assms]
  have keep: "generateCronTabStr mode (if up then 60 else 0) (n mod 24) (n div 24) x tabs = tabs @ [slot_line mode n 0 up x]" for x up
    using generate_slot [OF m, of 60 n] generate_slot [OF m, of 0 n] by (simp add: cell_minute_def ends_up_def)
  have "scan_cell mode t (n div 24) (n mod 24) tabs = generateCronTabStr mode (t ! n) (n mod 24) (n div 24) []
      (case keep_word (prev_cell t n) (t ! n) of None \<Rightarrow> tabs
       | Some k \<Rightarrow> generateCronTabStr mode (if 0 < t ! n then 60 else 0) (n mod 24) (n div 24) k tabs)"
    unfolding scan_cell_def Let_def slot_cells [OF assms] keep_word_def using \<open>mode \<noteq> 3\<close> by simp
  then show ?thesis
    unfolding generate_slot [OF m b(1,2)] keep by (simp add: scan_lines_def split: option.split)
qed

lemma scan_tables_lines:
  assumes "cells_ok mode t"
  shows "scan_tables mode t = concat (map (scan_lines mode t) [0 ..< length t])"
proof -
  have "fold (\<lambda>n. scan_cell mode t (n div 24) (n mod 24)) ns acc = acc @ concat (map (scan_lines mode t) ns)"
    if "set ns \<subseteq> {..< length t}" for ns acc
    using that by (induction ns arbitrary: acc) (auto simp: scan_cell_lines [OF assms])
  from this [of "[0 ..< length t]" "[]"] have "fold (\<lambda>n. scan_cell mode t (n div 24) (n mod 24)) [0 ..< length t] [] =
      concat (map (scan_lines mode t) [0 ..< length t])" by (simp add: atLeast0LessThan)
  moreover have "length t = 24 * mode" using assms by (simp add: cells_ok_def)
  ultimately show ?thesis by (simp add: scan_tables_def)
qed

text \<open>The fields of a line.\<close>

lemma dec_str_plain: "c \<in> set (dec_str n) \<Longrightarrow> is_digit c"
  using num_str_digits [of 10 c n] by (simp add: is_digit_iff)

lemma dec_str_no_sep: "CHR '' '' \<notin> set (dec_str n)" "CHR '','' \<notin> set (dec_str n)" "CHR ''-'' \<notin> set (dec_str n)"
  using dec_str_plain [of "CHR '' ''" n] dec_str_plain [of "CHR '',''" n] dec_str_plain [of "CHR ''-''" n]
  by (auto simp: is_digit_def)

lemma slot_day_no_sep: "CHR '' '' \<notin> set (slot_day mode n)"
  using dec_str_no_sep by (simp add: slot_day_def)

definition extra_fields :: "string \<Rightarrow> string list" where
  "extra_fields extra = (if extra = [] then [] else split_on CHR '' '' (tl extra))"

lemma slot_line_split:
  assumes "extra = [] \<or> hd extra = CHR '' ''"
  shows "split_on CHR '' '' (slot_line mode n m up extra) =
    [dec_str m, dec_str (n mod 24), ''*'', ''*'', slot_day mode n, garCronWIFI, if up then ''up'' else ''down''] @ extra_fields extra"
proof -
  let ?cmd = "if up then ''up'' else ''down''"
  have plain: "CHR '' '' \<notin> set w \<Longrightarrow> split_on CHR '' '' (w @ CHR '' '' # s) = w # split_on CHR '' '' s" for w s
    by (simp add: split_on_append_sep)
  have cmd: "split_on CHR '' '' (?cmd @ extra) = ?cmd # extra_fields extra"
  proof (cases extra)
    case (Cons c cs)
    then show ?thesis using assms by (simp add: extra_fields_def split_on_append_sep)
  qed (simp add: extra_fields_def)
  have "CHR '' '' \<notin> set garCronWIFI" by (simp add: garCronWIFI_def)
  then show ?thesis
    using dec_str_no_sep(1) [of m] dec_str_no_sep(1) [of "n mod 24"] slot_day_no_sep [of mode n] plain cmd
    by (simp add: slot_line_def cron_line_def)
qed

lemma slot_line_fields:
  assumes "extra = [] \<or> hd extra = CHR '' ''"
  shows "cron_field (slot_line mode n m up extra) 0 = Inr (dec_str m)"
    "cron_field (slot_line mode n m up extra) 1 = Inr (dec_str (n mod 24))"
    "cron_field (slot_line mode n m up extra) 4 = Inr (slot_day mode n)"
    "cron_field (slot_line mode n m up extra) 6 = Inr (if up then ''up'' else ''down'')"
  unfolding cron_field_def slot_line_split [OF assms] by (simp_all add: nth_opt_def)

text \<open>The word \<open>keep\<close> is found where it was added, and nowhere else.\<close>

lemma search_re_skip: "CHR ''k'' \<notin> set s \<Longrightarrow> search_word ''keep'' (s @ r) = map_option ((+) (length s)) (search_word ''keep'' r)"
proof (induction s)
  case Nil
  then show ?case by (cases "search_word ''keep'' r") auto
next
  case (Cons c s)
  have "re_of_string ''keep'' = Lit CHR ''k'' # map Lit ''eep''" by (simp add: re_of_string_def)
  with Cons show ?case by (cases "search_word ''keep'' r") (auto simp: search_word_def)
qed

lemma slot_line_no_k: "CHR ''k'' \<notin> set (slot_line mode n m up [])"
  using dec_str_plain [of "CHR ''k''" m] dec_str_plain [of "CHR ''k''" "n mod 24"] dec_str_plain [of "CHR ''k''" "n div 24"]
  by (auto simp: slot_line_def cron_line_def garCronWIFI_def slot_day_def is_digit_def)

lemma slot_line_append: "slot_line mode n m up extra = slot_line mode n m up [] @ extra"
  by (simp add: slot_line_def cron_line_def)

lemma keep_words:
  assumes "extra = '' keep1'' \<or> extra = '' keep2''"
  shows "has_keep (slot_line mode n m up extra)" "before_keep (slot_line mode n m up extra) = slot_line mode n m up '' ''"
proof -
  have "search_word ''keep'' extra = Some 1" "take 1 extra = '' ''" using assms by (auto simp: search_word_def re_of_string_def)
  then have s: "search_word ''keep'' (slot_line mode n m up extra) = Some (Suc (length (slot_line mode n m up [])))"
    using search_re_skip [OF slot_line_no_k] by (simp add: slot_line_append [of mode n m up extra])
  then show "has_keep (slot_line mode n m up extra)" by (simp add: has_keep_def)
  have "before_keep (slot_line mode n m up extra) = take (Suc (length (slot_line mode n m up []))) (slot_line mode n m up [] @ extra)"
    unfolding before_keep_def s using slot_line_append [of mode n m up extra] by simp
  also have "\<dots> = slot_line mode n m up [] @ take 1 extra" by simp
  finally show "before_keep (slot_line mode n m up extra) = slot_line mode n m up '' ''"
    using \<open>take 1 extra = '' ''\<close> slot_line_append [of mode n m up "'' ''"] by simp
qed

lemma no_keep:
  assumes "extra = [] \<or> extra = '' ''"
  shows "\<not> has_keep (slot_line mode n m up extra)"
proof -
  have "search_word ''keep'' extra = None" using assms by (auto simp: search_word_def re_of_string_def)
  then show ?thesis
    using search_re_skip [OF slot_line_no_k, of mode n m up extra] by (simp add: has_keep_def slot_line_append [of mode n m up extra])
qed

lemma search_states:
  "search_word ''up'' ''up'' = Some 0" "search_word ''down'' ''down'' = Some 0"
  "search_word ''up'' ''down'' = None" "search_word ''down'' ''up'' = None"
  by code_simp+

section \<open>Culling\<close>

definition state_word :: "bool \<Rightarrow> string" where
  "state_word up = (if up then ''up'' else ''down'')"

text \<open>The lines that remain: those of a change of state.\<close>

definition kept_with :: "(string \<Rightarrow> string) \<Rightarrow> nat \<Rightarrow> int list \<Rightarrow> nat \<Rightarrow> string list" where
  "kept_with f mode t n =
     (case keep_word (prev_cell t n) (t ! n) of
        Some k \<Rightarrow> [slot_line mode n 0 (0 < t ! n) (f k), slot_line mode n (cell_minute (t ! n)) (ends_up (t ! n)) []]
      | None \<Rightarrow> if ends_up (t ! n) \<noteq> ends_up (prev_cell t n) then [slot_line mode n (cell_minute (t ! n)) (ends_up (t ! n)) []] else [])"

abbreviation kept_lines :: "nat \<Rightarrow> int list \<Rightarrow> nat \<Rightarrow> string list" where
  "kept_lines \<equiv> kept_with (\<lambda>_. '' '')"

lemma keep_word_cases:
  assumes "keep_word p v = Some k"
  shows "k = '' keep1'' \<and> \<not> ends_up p \<and> 0 < v \<and> \<not> ends_up v \<or> k = '' keep2'' \<and> ends_up p \<and> v < 0 \<and> ends_up v"
  using assms by (auto simp: keep_word_def ends_up_def split: if_splits)

lemma cull_line:
  assumes "extra = [] \<or> extra = '' keep1'' \<or> extra = '' keep2''" "extra \<noteq> [] \<longrightarrow> up \<noteq> st"
  shows "cull_step (slot_line mode n m up extra) (acc, state_word st) =
    Inr (acc @ (if up \<noteq> st then [slot_line mode n m up extra] else []), state_word up)"
proof -
  have "extra = [] \<or> hd extra = CHR '' ''" using assms(1) by auto
  note f = slot_line_fields(4) [OF this, of mode n m up]
  have "search_word (state_word st) (if up then ''up'' else ''down'') = None \<longleftrightarrow> up \<noteq> st"
    by (simp add: state_word_def search_states)
  then show ?thesis using assms no_keep [of extra mode n m up] by (auto simp: cull_step_def f state_word_def)
qed

lemma cull_slot:
  "fold_res cull_step (scan_lines mode t n) (acc, state_word (ends_up (prev_cell t n))) =
    Inr (acc @ kept_with (\<lambda>k. k) mode t n, state_word (ends_up (t ! n)))"
proof (cases "keep_word (prev_cell t n) (t ! n)")
  case None
  then show ?thesis by (auto simp: scan_lines_def kept_with_def cull_line)
next
  case (Some k)
  note k = keep_word_cases [OF Some]
  then have "cull_step (slot_line mode n 0 (0 < t ! n) k) (acc, state_word (ends_up (prev_cell t n))) =
      Inr (acc @ [slot_line mode n 0 (0 < t ! n) k], state_word (0 < t ! n))"
    by (subst cull_line) auto
  moreover have "cull_step (slot_line mode n (cell_minute (t ! n)) (ends_up (t ! n)) []) (b, state_word (0 < t ! n)) =
      Inr (b @ [slot_line mode n (cell_minute (t ! n)) (ends_up (t ! n)) []], state_word (ends_up (t ! n)))" for b
    using k by (subst cull_line) auto
  ultimately show ?thesis using Some by (simp add: scan_lines_def kept_with_def)
qed

lemma cull_slots:
  assumes "n \<le> length t" "t \<noteq> []"
  shows "fold_res cull_step (concat (map (scan_lines mode t) [0 ..< n])) ([], state_word (ends_up (prev_cell t 0))) =
    Inr (concat (map (kept_with (\<lambda>k. k) mode t) [0 ..< n]), state_word (ends_up (if n = 0 then prev_cell t 0 else t ! (n - 1))))"
  using assms(1)
proof (induction n)
  case (Suc n)
  have "prev_cell t n = (if n = 0 then prev_cell t 0 else t ! (n - 1))" by (simp add: prev_cell_def)
  then show ?case
    using Suc cull_slot [of mode t n] by (simp add: fold_res_append)
qed simp

lemma strip_kept: "map (\<lambda>s. if has_keep s then before_keep s else s) (kept_with (\<lambda>k. k) mode t n) = kept_lines mode t n"
proof (cases "keep_word (prev_cell t n) (t ! n)")
  case None
  then show ?thesis by (simp add: kept_with_def no_keep)
next
  case (Some k)
  then have "k = '' keep1'' \<or> k = '' keep2''" using keep_word_cases by blast
  then show ?thesis using Some by (simp add: kept_with_def keep_words no_keep)
qed

lemma cull_result:
  assumes "cells_ok mode t"
  shows "CronTabCull (scan_tables mode t) = Inr (concat (map (kept_lines mode t) [0 ..< length t]))"
proof -
  have t: "t \<noteq> []" using assms by (auto simp: cells_ok_def)
  define n where "n = length t - 1"
  have n: "[0 ..< length t] = [0 ..< n] @ [n]" using t by (cases t) (auto simp: n_def)
  have "last (scan_tables mode t) = slot_line mode n (cell_minute (t ! n)) (ends_up (t ! n)) []"
      "scan_tables mode t \<noteq> []"
    unfolding scan_tables_lines [OF assms] n by (simp_all add: scan_lines_def)
  moreover have "prev_cell t 0 = t ! n" by (simp add: prev_cell_def n_def)
  ultimately have "CronTabCull (scan_tables mode t) =
      res_bind (fold_res cull_step (scan_tables mode t) ([], state_word (ends_up (prev_cell t 0)))) (\<lambda>(culledTabs, _).
        Inr (map (\<lambda>s. if has_keep s then before_keep s else s) culledTabs))"
    using slot_line_fields(4) [of "[]"] by (simp add: CronTabCull_def state_word_def)
  also have "\<dots> = Inr (map (\<lambda>s. if has_keep s then before_keep s else s) (concat (map (kept_with (\<lambda>k. k) mode t) [0 ..< length t])))"
    unfolding scan_tables_lines [OF assms] using cull_slots [OF order_refl t, of mode] by simp
  also have "\<dots> = Inr (concat (map (kept_lines mode t) [0 ..< length t]))"
    by (simp add: map_concat strip_kept comp_def)
  finally show ?thesis .
qed

text \<open>Tables that are on, or off, throughout have no change of state.\<close>

lemma constant_line:
  assumes "CHR '' '' \<notin> set day" "CHR ''k'' \<notin> set day"
  shows "cron_field (cron_line m h day (state_word up) []) 6 = Inr (state_word up)" "\<not> has_keep (cron_line m h day (state_word up) [])"
proof -
  have plain: "CHR '' '' \<notin> set w \<Longrightarrow> split_on CHR '' '' (w @ CHR '' '' # s) = w # split_on CHR '' '' s" for w s
    by (simp add: split_on_append_sep)
  have "CHR '' '' \<notin> set garCronWIFI" "CHR '' '' \<notin> set (state_word up)" by (simp_all add: garCronWIFI_def state_word_def)
  then have "split_on CHR '' '' (cron_line m h day (state_word up) []) =
      [dec_str m, dec_str h, ''*'', ''*'', day, garCronWIFI, state_word up]"
    using dec_str_no_sep(1) [of m] dec_str_no_sep(1) [of h] assms(1) plain by (simp add: cron_line_def)
  then show "cron_field (cron_line m h day (state_word up) []) 6 = Inr (state_word up)" by (simp add: cron_field_def nth_opt_def)
  have "CHR ''k'' \<notin> set (cron_line m h day (state_word up) [])"
    using dec_str_plain [of "CHR ''k''" m] dec_str_plain [of "CHR ''k''" h] assms(2)
    by (auto simp: cron_line_def garCronWIFI_def state_word_def is_digit_def)
  moreover have "search_word ''keep'' [] = None" by code_simp
  ultimately show "\<not> has_keep (cron_line m h day (state_word up) [])"
    using search_re_skip [of "cron_line m h day (state_word up) []" "[]"] by (simp add: has_keep_def)
qed

lemma cull_constant:
  assumes "tabs \<noteq> []" "\<forall>tab \<in> set tabs. cron_field tab 6 = Inr (state_word up) \<and> \<not> has_keep tab"
  shows "CronTabCull tabs = Inr []"
proof -
  have w: "search_word (state_word up) (state_word up) \<noteq> None" by (simp add: state_word_def search_states)
  have "fold_res cull_step ts ([], state_word up) = Inr ([], state_word up)"
    if "\<forall>tab \<in> set ts. cron_field tab 6 = Inr (state_word up) \<and> \<not> has_keep tab" for ts
    using that w by (induction ts) (auto simp: cull_step_def)
  then show ?thesis using assms by (simp add: CronTabCull_def)
qed

lemma scan_constant:
  assumes "i < mode" "j < 24" "v = 0 \<or> v = 60"
  shows "scan_cell mode (replicate (24 * mode) v) i j tabs = tabs @
    (case day_string mode i of None \<Rightarrow> [] | Some day \<Rightarrow> [cron_line 0 j day (state_word (v = 60)) []])"
proof -
  let ?t = "replicate (24 * mode) v"
  have this_cell: "ThisCell ?t d h = v" if "d < mode" "h < 24" for d h
  proof -
    have "24 * d + h < 24 * mode" using that by linarith
    then show ?thesis by (simp add: ThisCell_def)
  qed
  then have "PreviousCell mode ?t i j = v" using assms(1,2) by (simp add: PreviousCell_def)
  moreover have "ThisCell ?t 1 23 = v" if "i = 1" using this_cell [of 1 23] that assms(1) by simp
  ultimately have "scan_cell mode ?t i j tabs = generateCronTabStr mode v j i [] tabs"
    using this_cell [OF assms(1,2)] assms(3) unfolding scan_cell_def Let_def by auto
  then show ?thesis using assms(3) by (auto simp: generateCronTabStr_def state_word_def split: option.split)
qed

lemma constant_no_lines:
  assumes "mode = 1 \<or> mode = 3 \<or> mode = 7" "v = 0 \<or> v = 60"
  shows "CronTabCull (scan_tables mode (replicate (24 * mode) v)) = Inr []"
proof -
  let ?line = "\<lambda>n. case day_string mode (n div 24) of None \<Rightarrow> [] | Some day \<Rightarrow> [cron_line 0 (n mod 24) day (state_word (v = 60)) []]"
  have "fold (\<lambda>n. scan_cell mode (replicate (24 * mode) v) (n div 24) (n mod 24)) ns acc = acc @ concat (map ?line ns)"
    if "\<forall>n \<in> set ns. n < 24 * mode" for ns acc
    using that
  proof (induction ns arbitrary: acc)
    case (Cons n ns)
    then have "n div 24 < mode" by (simp add: less_mult_imp_div_less mult.commute)
    then show ?case using Cons scan_constant [OF _ _ assms(2), of "n div 24" mode "n mod 24"] by simp
  qed simp
  from this [of "[0 ..< 24 * mode]" "[]"] have scan: "scan_tables mode (replicate (24 * mode) v) = concat (map ?line [0 ..< 24 * mode])"
    by (simp add: scan_tables_def)
  have day: "\<exists>day. day_string mode d = Some day \<and> CHR '' '' \<notin> set day \<and> CHR ''k'' \<notin> set day" for d
    using assms(1) dec_str_no_sep(1) [of d] dec_str_plain [of "CHR ''k''" d] by (auto simp: day_string_def is_digit_def)
  have "0 \<in> set [0 ..< 24 * mode]" using assms(1) by auto
  with day [of "0 div 24"] have "concat (map ?line [0 ..< 24 * mode]) \<noteq> []" by force
  moreover have "\<forall>tab \<in> set (?line n). cron_field tab 6 = Inr (state_word (v = 60)) \<and> \<not> has_keep tab" for n
    using day [of "n div 24"] constant_line by auto
  then have "\<forall>tab \<in> set (concat (map ?line [0 ..< 24 * mode])). cron_field tab 6 = Inr (state_word (v = 60)) \<and> \<not> has_keep tab"
    by auto
  ultimately show ?thesis unfolding scan by (rule cull_constant)
qed

text \<open>An hour that starts off after one that is on throughout leaves no trace, nor does it in the next hour.\<close>

lemma kept_lost_hour:
  assumes "cells_ok mode t" "n < length t" "prev_cell t n = 60" "t ! n < 0" "0 \<le> t ! (Suc n mod length t)" "k < length t"
  shows "kept_with f mode (t[n := 60]) k = kept_with f mode t k"
proof -
  have len: "length t > 1" using assms(1) by (auto simp: cells_ok_def)
  have prev: "prev_cell (t[n := 60]) j = (if j = Suc n mod length t then 60 else prev_cell t j)" if "j < length t" for j
    using that assms(2) by (cases "Suc n = length t") (auto simp: prev_cell_def nth_list_update)
  consider "k = n" | "k = Suc n mod length t" "k \<noteq> n" | "k \<noteq> n" "k \<noteq> Suc n mod length t" by blast
  then show ?thesis
  proof cases
    case 1
    moreover have "n \<noteq> Suc n mod length t" using len assms(2) by (cases "Suc n = length t") auto
    ultimately show ?thesis using assms by (simp add: kept_with_def keep_word_def ends_up_def prev)
  next
    case 2
    moreover have "prev_cell t k = t ! n"
    proof (cases "Suc n = length t")
      case True
      then have "k = 0" "length t - 1 = n" using 2 by auto
      then show ?thesis by (simp add: prev_cell_def)
    qed (use 2 assms(2) in \<open>simp add: prev_cell_def\<close>)
    ultimately show ?thesis using assms by (auto simp: kept_with_def keep_word_def ends_up_def prev)
  next
    case 3
    then have "prev_cell (t[n := 60]) k = prev_cell t k" "t[n := 60] ! k = t ! k" using prev [OF assms(6)] by simp_all
    then show ?thesis by (simp only: kept_with_def)
  qed
qed

section \<open>Reading the lines back\<close>

lemma eval_small: "n < 60 \<Longrightarrow> eval_field (dec_str n) = Inr (Some (int n))"
proof -
  have "list_all (\<lambda>n. eval_field (dec_str n) = Inr (Some (int n))) [0 ..< 60]" by code_simp
  then show "n < 60 \<Longrightarrow> eval_field (dec_str n) = Inr (Some (int n))" by (simp only: list_all_iff set_upt) simp
qed

definition seat_value :: "nat \<Rightarrow> bool \<Rightarrow> int" where
  "seat_value m up = (if 0 < m then (if up then - int m else int m) else if up then 1000 else -1000)"

lemma seat_slot:
  assumes "mode = 1 \<or> mode = 7" "n < 24 * mode" "m < 60" "extra = [] \<or> extra = '' ''"
  shows "seat_line mode (slot_line mode n m up extra) t = Inr (t[n := seat_value m up])"
proof -
  have "extra = [] \<or> hd extra = CHR '' ''" using assms(4) by auto
  note f = slot_line_fields [OF this, of mode n m up]
  define day where "day = (if mode = 1 then ''0'' else dec_str (n div 24))"
  have d: "n div 24 < mode" "n div 24 < 7" "n mod 24 < 24" using assms(1,2) by auto
  have zero: "dec_str 0 = ''0''" by code_simp
  have day: "eval_field day = Inr (Some (int (n div 24)))" "CHR '','' \<notin> set day"
    using d eval_small [of "n div 24"] eval_small [of 0] dec_str_no_sep(2) assms(1) by (auto simp: day_def zero)
  have "SeatCronData mode (Some (int m)) (dec_str (n mod 24)) day (if up then ''up'' else ''down'') t = Inr (t[n := seat_value m up])"
    using d assms(3) eval_small [of "n mod 24"] day(1) search_states
    by (simp add: SeatCronData_def seat_value_def Let_def mult_div_mod_eq)
  note seat = this
  have dd: "(if mode = 1 then ''0'' else if mode = 3 then if slot_day mode n = ''1-5'' then ''1'' else if slot_day mode n = ''6'' then ''2''
      else slot_day mode n else slot_day mode n) = day"
    using assms(1) by (auto simp: day_def slot_day_def)
  have hour: "eval_field (dec_str (n mod 24)) = Inr (Some (int (n mod 24)))" using d by (intro eval_small) simp
  have "\<not> out_of 23 (Some (int (n mod 24)))" "\<not> out_of 59 (Some (int m))" using d assms(3) by (simp_all add: out_of_def)
  moreover have "List.product (split_on CHR '','' day) (split_on CHR '','' (dec_str (n mod 24))) = [(day, dec_str (n mod 24))]"
    using day(2) dec_str_no_sep(2) by simp
  ultimately show ?thesis
    unfolding seat_line_def f res_bind_simps Let_def dd hour eval_small [OF assms(3)]
    using seat by (simp only: if_False fold_res.simps prod.case res_bind_simps)
qed

definition seated :: "int \<Rightarrow> int \<Rightarrow> int" where
  "seated p v = (if v = 0 then (if ends_up p then -1000 else 60) else if v = 60 then (if ends_up p then 60 else 1000) else v)"

lemma seat_kept:
  assumes "table_ok mode t" "n < length t" "length u = length t" "u ! n = 60"
  shows "fold_res (seat_line mode) (kept_lines mode t n) u = Inr (u[n := seated (prev_cell t n) (t ! n)])"
proof -
  note b = table_ok_cell [OF assms(1,2)]
  have mode: "mode = 1 \<or> mode = 7" "n < 24 * mode" using assms(1,2) by (auto simp: table_ok_def cells_ok_def)
  have "cell_minute (t ! n) < 60" using b by (auto simp: cell_minute_def)
  note line = seat_slot [OF mode this]
  have val: "seat_value (cell_minute (t ! n)) (ends_up (t ! n)) = (if t ! n = 0 then -1000 else if t ! n = 60 then 1000 else t ! n)"
    using b by (auto simp: seat_value_def cell_minute_def ends_up_def)
  show ?thesis
  proof (cases "keep_word (prev_cell t n) (t ! n)")
    case None
    have same: "u[n := 60] = u" using assms(4) by (metis list_update_id)
    have "seated (prev_cell t n) (t ! n) = (if ends_up (t ! n) \<noteq> ends_up (prev_cell t n)
        then seat_value (cell_minute (t ! n)) (ends_up (t ! n)) else 60)"
      unfolding val using None b by (auto simp: seated_def ends_up_def keep_word_def split: if_splits)
    then show ?thesis
      using None line [of "[]" "ends_up (t ! n)" u] same
      by (cases "ends_up (t ! n) \<noteq> ends_up (prev_cell t n)") (simp_all only: kept_with_def option.case if_True if_False
          fold_res.simps res_bind_simps simp_thms not_True_eq_False)
  next
    case (Some k)
    then have "seated (prev_cell t n) (t ! n) = t ! n" "t ! n \<noteq> 0" "t ! n \<noteq> 60"
      by (auto simp: seated_def keep_word_def split: if_splits)
    then show ?thesis
      using Some line [of "[]" "ends_up (t ! n)"] seat_slot [OF mode, of 0 "'' ''"] val by (simp add: kept_with_def)
  qed
qed

lemma seat_all:
  assumes "table_ok mode t" "n \<le> length t"
  shows "fold_res (seat_line mode) (concat (map (kept_lines mode t) [0 ..< n])) (replicate (length t) 60) =
    Inr (map (\<lambda>k. if k < n then seated (prev_cell t k) (t ! k) else 60) [0 ..< length t])"
  using assms(2)
proof (induction n)
  case 0
  show ?case by (simp add: map_replicate_const)
next
  case (Suc n)
  let ?u = "map (\<lambda>k. if k < n then seated (prev_cell t k) (t ! k) else 60) [0 ..< length t]"
  have "fold_res (seat_line mode) (kept_lines mode t n) ?u = Inr (?u[n := seated (prev_cell t n) (t ! n)])"
    using Suc.prems by (intro seat_kept [OF assms(1)]) auto
  moreover have "?u[n := seated (prev_cell t n) (t ! n)] =
      map (\<lambda>k. if k < Suc n then seated (prev_cell t k) (t ! k) else 60) [0 ..< length t]"
    using Suc.prems by (intro nth_equalityI) (auto simp: nth_list_update less_Suc_eq)
  ultimately show ?case using Suc by (simp add: fold_res_append)
qed

section \<open>Filling the tables\<close>

text \<open>While no slot has an entry, every cell shows the state at the end of the period.\<close>

lemma quiet_slots:
  assumes "table_ok mode t" "m \<le> length t" "\<forall>k < m. seated (prev_cell t k) (t ! k) = 60" "k < m"
  shows "t ! k = (if ends_up (prev_cell t 0) then 60 else 0)"
  using assms(4)
proof (induction k)
  case 0
  then have "seated (prev_cell t 0) (t ! 0) = 60" using assms(3) by simp
  then show ?case by (auto simp: seated_def split: if_splits)
next
  case (Suc k)
  then have "seated (t ! k) (t ! Suc k) = 60" using assms(3) by (auto simp: prev_cell_def dest: spec [of _ "Suc k"])
  moreover have "ends_up (t ! k) \<longleftrightarrow> ends_up (prev_cell t 0)" using Suc by (auto simp: ends_up_def)
  ultimately show ?case by (auto simp: seated_def split: if_splits)
qed

definition final_inv :: "int list \<Rightarrow> nat \<Rightarrow> int list \<times> nat option \<times> int \<Rightarrow> bool" where
  "final_inv t n = (\<lambda>(u, ini, prev). length u = length t
     \<and> (\<forall>k. n \<le> k \<and> k < length t \<longrightarrow> u ! k = seated (prev_cell t k) (t ! k))
     \<and> (case ini of
          None \<Rightarrow> \<forall>k < n. seated (prev_cell t k) (t ! k) = 60
        | Some k0 \<Rightarrow> k0 < n \<and> (\<forall>k < k0. seated (prev_cell t k) (t ! k) = 60)
            \<and> (\<forall>k. k0 \<le> k \<and> k < n \<longrightarrow> u ! k = t ! k) \<and> prev = (if ends_up (t ! (n - 1)) then 1 else -1)))"

lemma final_step_inv:
  assumes "table_ok mode t" "n < length t" "final_inv t n s"
  shows "final_inv t (Suc n) (final_step n s)"
proof -
  obtain u ini prev where s: "s = (u, ini, prev)" by (cases s)
  note b = table_ok_cell [OF assms(1,2)]
  have len: "length u = length t" and at: "\<And>k. n \<le> k \<Longrightarrow> k < length t \<Longrightarrow> u ! k = seated (prev_cell t k) (t ! k)"
    using assms(3) by (auto simp: final_inv_def s)
  let ?x = "seated (prev_cell t n) (t ! n)"
  have un: "u ! n = ?x" using at [of n] assms(2) by simp
  have later: "u[n := v] ! k = seated (prev_cell t k) (t ! k)" if "Suc n \<le> k" "k < length t" for v k
    using at [of k] that by simp
  have self: "u[n := ?x] = u" using un by (metis list_update_id)
  show ?thesis
  proof (cases "?x = 60 \<and> ini = None")
    case True
    then have "final_step n s = (u, None, prev)" by (simp add: final_step_def s un Let_def)
    moreover have "\<forall>k < Suc n. seated (prev_cell t k) (t ! k) = 60"
      using assms(3) True by (auto simp: final_inv_def s less_Suc_eq)
    ultimately show ?thesis using len at by (simp add: final_inv_def)
  next
    case False
    define k0 where "k0 = (case ini of None \<Rightarrow> n | Some k \<Rightarrow> k)"
    have step: "final_step n s = (u[n := t ! n], Some k0, if ends_up (t ! n) then 1 else -1)"
    proof (cases ini)
      case None
      then have "?x \<noteq> 60" using False by simp
      then show ?thesis
        using None self b by (auto simp: final_step_def s un Let_def k0_def seated_def ends_up_def split: if_splits)
    next
      case (Some k)
      then have prev: "prev = (if ends_up (t ! (n - 1)) then 1 else -1)" "0 < n" using assms(3) by (auto simp: final_inv_def s)
      then have "prev_cell t n = t ! (n - 1)" by (simp add: prev_cell_def)
      then show ?thesis
        using Some prev self b by (auto simp: final_step_def s un Let_def k0_def seated_def ends_up_def split: if_splits)
    qed
    have "k0 < Suc n" "\<forall>k < k0. seated (prev_cell t k) (t ! k) = 60" "\<forall>k. k0 \<le> k \<and> k < Suc n \<longrightarrow> u[n := t ! n] ! k = t ! k"
      using assms(2,3) len by (auto simp: final_inv_def s k0_def less_Suc_eq split: option.splits)
    then show ?thesis unfolding step using len later by (auto simp: final_inv_def)
  qed
qed

lemma final_fold:
  assumes "table_ok mode t" "n \<le> length t"
  shows "final_inv t n (fold final_step [0 ..< n] (map (\<lambda>k. seated (prev_cell t k) (t ! k)) [0 ..< length t], None, 0))"
  using assms(2)
proof (induction n)
  case 0
  then show ?case by (simp add: final_inv_def)
next
  case (Suc n)
  then show ?case using final_step_inv [OF assms(1), of n] by simp
qed

lemma fold_fill: "k \<le> length u \<Longrightarrow> fold (\<lambda>n u. u[n := v]) [0 ..< k] u = replicate k v @ drop k u"
proof (induction k)
  case (Suc k)
  then have "fold (\<lambda>n u. u[n := v]) [0 ..< Suc k] u = (replicate k v @ drop k u)[k := v]" by simp
  also have "drop k u = u ! k # drop (Suc k) u" using Suc.prems by (simp add: Cons_nth_drop_Suc)
  also have "(replicate k v @ u ! k # drop (Suc k) u)[k := v] = replicate (Suc k) v @ drop (Suc k) u"
    by (simp add: list_update_append replicate_app_Cons_same)
  finally show ?case .
qed simp

lemma finalize_seated:
  assumes "table_ok mode t" "t \<noteq> replicate (length t) 0" "t \<noteq> replicate (length t) 60"
  shows "FinalizeTables mode (map (\<lambda>k. seated (prev_cell t k) (t ! k)) [0 ..< length t]) = t"
proof -
  have len: "length t = 24 * mode" and t: "t \<noteq> []" using assms(1) by (auto simp: table_ok_def cells_ok_def)
  obtain u ini prev where f: "fold final_step [0 ..< length t] (map (\<lambda>k. seated (prev_cell t k) (t ! k)) [0 ..< length t], None, 0) = (u, ini, prev)"
    by (cases "fold final_step [0 ..< length t] (map (\<lambda>k. seated (prev_cell t k) (t ! k)) [0 ..< length t], None, 0)")
  have inv: "final_inv t (length t) (u, ini, prev)" using final_fold [OF assms(1) order_refl] by (simp add: f)
  have ini: "ini \<noteq> None"
  proof
    assume "ini = None"
    then have "t ! k = (if ends_up (prev_cell t 0) then 60 else 0)" if "k < length t" for k
      using inv that by (intro quiet_slots [OF assms(1) order_refl]) (auto simp: final_inv_def)
    then have "t = replicate (length t) (if ends_up (prev_cell t 0) then 60 else 0)" by (intro nth_equalityI) auto
    then show False using assms(2,3) by (cases "ends_up (prev_cell t 0)") auto
  qed
  then obtain k0 where k0: "ini = Some k0" "k0 < length t" "\<forall>k < k0. seated (prev_cell t k) (t ! k) = 60"
      "\<And>k. k0 \<le> k \<Longrightarrow> k < length t \<Longrightarrow> u ! k = t ! k" "length u = length t"
    using inv by (auto simp: final_inv_def)
  have "PreviousCell mode u 0 0 = u ! (length t - 1)"
    using len t by (cases mode) (auto simp: PreviousCell_def ThisCell_def add.commute)
  also have "\<dots> = prev_cell t 0" using k0 t by (simp add: prev_cell_def)
  finally have fill: "fill_value (PreviousCell mode u 0 0) = (if ends_up (prev_cell t 0) then 60 else 0)"
    by (auto simp: fill_value_def ends_up_def)
  have "t ! k = (if ends_up (prev_cell t 0) then 60 else 0)" if "k < k0" for k
    using k0(2,3) that by (intro quiet_slots [OF assms(1), of k0]) auto
  then have "replicate k0 (if ends_up (prev_cell t 0) then 60 else 0) @ drop k0 u = t"
    using k0 by (intro nth_equalityI) (auto simp: nth_append)
  then show ?thesis
    using f len k0 fold_fill [of k0 u] by (simp add: FinalizeTables_def fill)
qed

text \<open>The lines of a schedule tell its mode.\<close>

lemma slot_line_wifi: "is_wifi_line (slot_line mode n m up extra)"
proof -
  define pre where "pre = dec_str m @ '' '' @ dec_str (n mod 24) @ '' * * '' @ slot_day mode n @ '' ''"
  have line: "slot_line mode n m up extra = pre @ garCronWIFI @ '' '' @ (if up then ''up'' else ''down'') @ extra"
    by (simp add: slot_line_def cron_line_def pre_def)
  have "CHR ''/'' \<notin> set pre"
    using dec_str_plain [of "CHR ''/''" m] dec_str_plain [of "CHR ''/''" "n mod 24"] dec_str_plain [of "CHR ''/''" "n div 24"]
    by (auto simp: pre_def slot_day_def is_digit_def)
  then have "search_word garCronWIFI (pre @ garCronWIFI @ s) = Some (length pre)" for s
  proof (induction pre)
    case Nil
    have "re_prefix (re_of_string garCronWIFI) (garCronWIFI @ s)"
      by (simp add: garCronWIFI_def re_of_string_def is_newline_def)
    then show ?case by (simp add: search_word_def garCronWIFI_def)
  next
    case (Cons c pre)
    then show ?case by (auto simp: search_word_def garCronWIFI_def re_of_string_def)
  qed
  moreover have "pre \<noteq> []" by (simp add: pre_def)
  ultimately show ?thesis unfolding is_wifi_line_def line by simp
qed

definition slot_lines :: "nat \<Rightarrow> string list \<Rightarrow> bool" where
  "slot_lines mode ls \<longleftrightarrow> list_all (\<lambda>s. \<exists>n m up extra. n < 24 * mode \<and> s = slot_line mode n m up extra
     \<and> (extra = [] \<or> extra = '' '')) ls"

lemma kept_slot_lines: "length t = 24 * mode \<Longrightarrow> slot_lines mode (concat (map (kept_lines mode t) [0 ..< length t]))"
  by (fastforce simp: slot_lines_def list_all_iff kept_with_def split: option.splits if_splits)

lemma detect_slot_lines:
  assumes "slot_lines mode ls" "ls \<noteq> []" "mode = 1 \<or> mode = 7"
  shows "\<exists>c. fold_res count_line ls \<lparr>foundDailySched = 0, found511Sched = 0, foundWeekday = 0, foundWeeklySched = 0, foundWeekend = 0\<rparr> = Inr c
    \<and> detect_mode m0 c = mode"
proof -
  have step: "count_line s c = Inr (if mode = 1 then c\<lparr>foundDailySched := Suc (foundDailySched c)\<rparr> else c\<lparr>foundWeeklySched := Suc (foundWeeklySched c)\<rparr>)"
    if s: "s \<in> set ls" for s c
  proof -
    obtain n m up extra where n: "n < 24 * mode" "s = slot_line mode n m up extra" "extra = [] \<or> extra = '' ''"
      using assms(1) s by (auto simp: slot_lines_def list_all_iff)
    then have "cron_field s 4 = Inr (slot_day mode n)" using slot_line_fields(3) [of extra] by auto
    moreover have "list_all (\<lambda>d. dec_str d \<noteq> ''*'' \<and> dec_str d \<noteq> ''1-5'' \<and> match_ge0 ''12345'' (dec_str d)) [0 ..< 7]" by code_simp
    then have "dec_str d \<noteq> ''*'' \<and> dec_str d \<noteq> ''1-5'' \<and> match_ge0 ''12345'' (dec_str d)" if "d < 7" for d
      using that by (simp only: list_all_iff set_upt) simp
    moreover have "mode = 7 \<Longrightarrow> n div 24 < 7" using n(1) by auto
    ultimately show ?thesis using assms(3) by (auto simp: count_line_def slot_day_def)
  qed
  have "fold_res count_line xs c =
      Inr (if mode = 1 then c\<lparr>foundDailySched := foundDailySched c + length xs\<rparr> else c\<lparr>foundWeeklySched := foundWeeklySched c + length xs\<rparr>)"
    if "set xs \<subseteq> set ls" for xs c
    using that by (induction xs arbitrary: c) (auto simp: step)
  from this [OF order_refl] show ?thesis using assms(2,3) by (auto simp: detect_mode_def)
qed

section \<open>Properties\<close>

text \<open>
  C17. A schedule that is saved is the schedule that is loaded: for a daily or weekly table, with cells in
  range, that is neither on nor off throughout and in which no hour starts off after an hour on throughout,
  \<open>scanSettings\<close> returns; a fresh page that loads the lines
  it produced, among other lines of the crontab, finds the same mode and rebuilds the same table, and
  keeps the other lines.
\<close>

theorem wifi_save_load:
  assumes "table_ok mode t" "t \<noteq> replicate (length t) 0" "t \<noteq> replicate (length t) 60"
    and "timerMode w = mode" "cells w = t"
    and "list_all (\<lambda>s. \<not> is_wifi_line s \<and> s \<noteq> []) others" "found_wifi_cron_tabs v = []"
  shows "\<exists>w' v'. scanSettings w = Inr w' \<and> LoadCrontabs (others @ new_cron_tabs w') v = Inr v'
    \<and> timerMode v' = mode \<and> cells v' = t \<and> stripped_cron_tabs v' = others \<and> new_cron_tabs v' = new_cron_tabs w'"
proof -
  define ls where "ls = concat (map (kept_lines mode t) [0 ..< length t])"
  have mode: "mode = 1 \<or> mode = 7" "length t = 24 * mode" using assms(1) by (auto simp: table_ok_def cells_ok_def)
  have lines: "slot_lines mode ls" unfolding ls_def by (rule kept_slot_lines [OF mode(2)])
  have "map (\<lambda>k. if k < length t then seated (prev_cell t k) (t ! k) else 60) [0 ..< length t] =
      map (\<lambda>k. seated (prev_cell t k) (t ! k)) [0 ..< length t]" by (intro map_cong) auto
  then have "fold_res (seat_line mode) ls (replicate (length t) 60) = Inr (map (\<lambda>k. seated (prev_cell t k) (t ! k)) [0 ..< length t])"
    unfolding ls_def using seat_all [OF assms(1) order_refl] by (simp only:)
  then have load: "CronTabsToTables mode ls = Inr t"
    using finalize_seated [OF assms(1-3)] unfolding CronTabsToTables_def mode(2) by (simp only: res_bind_simps)
  have "ls \<noteq> []"
  proof
    assume "ls = []"
    then have "FinalizeTables mode (replicate (length t) 60) = t" using load mode(2) by (simp add: CronTabsToTables_def)
    moreover have "fold final_step [0 ..< n] (replicate (length t) 60, None, 0) = (replicate (length t) 60, None, 0)" if "n \<le> length t" for n
      using that by (induction n) (auto simp: final_step_def)
    then have "FinalizeTables mode (replicate (length t) 60) = replicate (length t) 60" using mode(2) by (simp add: FinalizeTables_def)
    ultimately show False using assms(3) by simp
  qed
  from detect_slot_lines [OF lines this mode(1), of "timerMode v"] obtain c where
      c: "fold_res count_line ls \<lparr>foundDailySched = 0, found511Sched = 0, foundWeekday = 0, foundWeeklySched = 0, foundWeekend = 0\<rparr> = Inr c"
      "detect_mode (timerMode v) c = mode" by blast
  have "is_wifi_line s" if "s \<in> set ls" for s using lines that slot_line_wifi by (auto simp: slot_lines_def list_all_iff)
  then have wifi: "filter is_wifi_line others = []" "filter is_wifi_line ls = ls"
      "filter (\<lambda>s. \<not> is_wifi_line s \<and> s \<noteq> []) others = others" "filter (\<lambda>s. \<not> is_wifi_line s \<and> s \<noteq> []) ls = []"
    using assms(6) by (auto simp: list_all_iff filter_empty_conv intro!: filter_True)
  have scan: "CronTabCull (scan_tables mode t) = Inr ls" unfolding ls_def by (rule cull_result [OF table_ok_cells [OF assms(1)]])
  have "mode > 0" using mode(1) by auto
  then have "LoadCrontabs (others @ ls) v = Inr (v\<lparr>found_wifi_cron_tabs := ls, stripped_cron_tabs := others, timerMode := mode, cells := t, new_cron_tabs := ls\<rparr>)"
    by (simp add: LoadCrontabs_def wifi assms(7) c load UpdateSummary_def scanSettings_def scan Let_def)
  moreover have "scanSettings w = Inr (w\<lparr>new_cron_tabs := ls\<rparr>)" by (simp add: scanSettings_def assms(4,5) scan)
  ultimately show ?thesis by simp
qed

text \<open>
  A click on an hour keeps the cells in range: with an increment of at most an hour, \<open>ToggleTime\<close> turns
  a value above -60 and up to 60 into such a value, in that cell only.
\<close>

theorem ToggleTime_in_range:
  assumes "list_all (\<lambda>v. -60 < v \<and> v \<le> 60) (cells w)" "0 < increment w" "increment w \<le> 60"
    and "24 * d + h < length (cells w)" "ToggleTime d h w = Inr w'"
  shows "list_all (\<lambda>v. -60 < v \<and> v \<le> 60) (cells w') \<and> length (cells w') = length (cells w)
    \<and> (k \<noteq> 24 * d + h \<longrightarrow> cells w' ! k = cells w ! k)"
proof -
  let ?v = "toggled (increment w) (PreviousCell (timerMode w) (cells w) d h) (ThisCell (cells w) d h)"
  have "-60 < ThisCell (cells w) d h" "ThisCell (cells w) d h \<le> 60"
    using assms(1,4) by (auto simp: ThisCell_def list_all_iff)
  then have v: "-60 < ?v \<and> ?v \<le> 60" using assms(2,3) by (auto simp: toggled_def Let_def)
  have "cells w' = (cells w)[24 * d + h := ?v]"
    using assms(5) by (auto simp: ToggleTime_def UpdateSummary_def scanSettings_def Let_def res_bind_Inr_iff split: if_splits)
  then show ?thesis using assms(1) v by (auto simp: list_all_iff dest!: set_update_subset_insert [THEN subsetD])
qed

text \<open>
  C39. Schedules that are lost. In each of the three modes a table that is off throughout gives the same lines
  as one that is on throughout, namely none, so nothing switches the radio off. In a daily or weekly table,
  an hour that starts off after an hour on throughout, and is followed by an hour that does not start off, is lost
  as well: the lines are those of the table in which that hour is on throughout. And a crontab with
  a line whose hour is out of range, after lines that can be read, is not read with hour 0 in its place
  but raises a TypeError, whatever follows.
\<close>

theorem wifi_lost_schedules:
  "(mode = 1 \<or> mode = 3 \<or> mode = 7 \<longrightarrow>
     CronTabCull (scan_tables mode (replicate (24 * mode) 0)) = Inr []
     \<and> CronTabCull (scan_tables mode (replicate (24 * mode) 60)) = Inr [])
   \<and> (cells_ok mode t \<and> n < length t \<and> prev_cell t n = 60 \<and> t ! n < 0 \<and> 0 \<le> t ! (Suc n mod length t) \<longrightarrow>
     (\<exists>ls. CronTabCull (scan_tables mode t) = Inr ls \<and> CronTabCull (scan_tables mode (t[n := 60])) = Inr ls))
   \<and> (fold_res (seat_line mode) pre (replicate (24 * mode) 60) = Inr u
      \<and> cron_field tab 0 = Inr fm \<and> eval_field fm = Inr minute \<and> cron_field tab 1 = Inr fh \<and> eval_field fh = Inr (Some hour)
      \<and> (hour > 23 \<or> hour < 0) \<and> cron_field tab 4 = Inr day \<longrightarrow>
     CronTabsToTables mode (pre @ tab # post) = Inl TypeError)"
proof (intro conjI impI, goal_cases)
  case 1
  then show ?case using constant_no_lines [of mode 0] by simp
next
  case 2
  then show ?case using constant_no_lines [of mode 60] by simp
next
  case 3
  then have "cells_ok mode (t[n := 60])"
    by (auto simp: cells_ok_def list_all_iff dest!: set_update_subset_insert [THEN subsetD])
  moreover have "map (kept_lines mode (t[n := 60])) [0 ..< length t] = map (kept_lines mode t) [0 ..< length t]"
    using 3 by (intro map_cong refl kept_lost_hour [of mode]) auto
  ultimately show ?case
    using 3 cull_result [of mode t] cull_result [of mode "t[n := 60]"] unfolding length_list_update by (auto simp only:)
next
  case 4
  then have "seat_line mode tab u = Inl TypeError" by (auto simp: seat_line_def out_of_def)
  then show ?case using 4 by (simp add: CronTabsToTables_def fold_res_append)
qed

definition demo_wifi :: wifi where
  "demo_wifi = \<lparr>timerMode = 1, increment = 15, cells = replicate 6 0 @ [-30] @ replicate 10 60 @ [30, 0, 0, 15, 0, 0, 0],
     new_cron_tabs = [], stripped_cron_tabs = [], found_wifi_cron_tabs = []\<rparr>"

theorem wifi_save_load_witness:
  "\<exists>w' v'. scanSettings demo_wifi = Inr w' \<and> LoadCrontabs ([''0 3 * * * backup''] @ new_cron_tabs w') (demo_wifi\<lparr>timerMode := 0\<rparr>) = Inr v'
    \<and> timerMode v' = 1 \<and> cells v' = cells demo_wifi \<and> stripped_cron_tabs v' = [''0 3 * * * backup''] \<and> new_cron_tabs v' = new_cron_tabs w'"
proof (rule wifi_save_load)
  show "table_ok 1 (cells demo_wifi)" by code_simp
  show "cells demo_wifi \<noteq> replicate (length (cells demo_wifi)) 0" "cells demo_wifi \<noteq> replicate (length (cells demo_wifi)) 60"
    by code_simp+
  show "timerMode demo_wifi = 1" "cells demo_wifi = cells demo_wifi" "found_wifi_cron_tabs (demo_wifi\<lparr>timerMode := 0\<rparr>) = []"
    by (simp_all add: demo_wifi_def)
  show "list_all (\<lambda>s. \<not> is_wifi_line s \<and> s \<noteq> []) [''0 3 * * * backup'']" by code_simp
qed

theorem wifi_lost_schedules_witness:
  "CronTabCull (scan_tables 7 (replicate (24 * 7) 0)) = Inr []
   \<and> (\<exists>ls. CronTabCull (scan_tables 1 (replicate 5 60 @ [-30] @ replicate 17 60 @ [30])) = Inr ls
        \<and> CronTabCull (scan_tables 1 (replicate 23 60 @ [30])) = Inr ls)
   \<and> CronTabsToTables 1 [''0 8 * * * '' @ garCronWIFI @ '' up'', ''0 24 * * * '' @ garCronWIFI @ '' down''] = Inl TypeError"
proof (intro conjI)
  show "CronTabCull (scan_tables 7 (replicate (24 * 7) 0)) = Inr []" using wifi_lost_schedules [THEN conjunct1, of 7] by simp
  let ?t = "replicate 5 60 @ [-30] @ replicate 17 60 @ [30] :: int list"
  have "cells_ok 1 ?t" "5 < length ?t" "prev_cell ?t 5 = 60" "?t ! 5 < 0" "0 \<le> ?t ! (Suc 5 mod length ?t)"
      "?t[5 := 60] = replicate 23 60 @ [30]" by code_simp+
  then show "\<exists>ls. CronTabCull (scan_tables 1 ?t) = Inr ls \<and> CronTabCull (scan_tables 1 (replicate 23 60 @ [30])) = Inr ls"
    using wifi_lost_schedules [THEN conjunct2, THEN conjunct1, of 1 ?t 5] by simp
  let ?a = "''0 8 * * * '' @ garCronWIFI @ '' up''" and ?b = "''0 24 * * * '' @ garCronWIFI @ '' down''"
  have "(case fold_res (seat_line 1) [?a] (replicate (24 * 1) 60) of Inl e \<Rightarrow> False | Inr u \<Rightarrow> True)" by code_simp
  then obtain u where "fold_res (seat_line 1) [?a] (replicate (24 * 1) 60) = Inr u" by (auto split: sum.splits)
  moreover have "cron_field ?b 0 = Inr ''0''" "cron_field ?b 1 = Inr ''24''" "cron_field ?b 4 = Inr ''*''"
      "eval_field ''24'' = Inr (Some 24)" "eval_field ''0'' = Inr (Some 0)" by code_simp+
  ultimately show "CronTabsToTables 1 [?a, ?b] = Inl TypeError"
    using wifi_lost_schedules [THEN conjunct2, THEN conjunct2, of 1 "[?a]" u ?b "''0''" "Some 0" "''24''" 24 "''*''" "[]"] by simp
qed

theorem ToggleTime_in_range_witness:
  "\<exists>w'. ToggleTime 0 3 demo_wifi = Inr w' \<and> list_all (\<lambda>v. -60 < v \<and> v \<le> 60) (cells w') \<and> length (cells w') = 24"
proof -
  have "(case ToggleTime 0 3 demo_wifi of Inl e \<Rightarrow> False | Inr w' \<Rightarrow> True)" by code_simp
  then obtain w' where w': "ToggleTime 0 3 demo_wifi = Inr w'" by (auto split: sum.splits)
  have "list_all (\<lambda>v. -60 < v \<and> v \<le> 60) (cells demo_wifi)" "24 * 0 + 3 < length (cells demo_wifi)" "length (cells demo_wifi) = 24"
      "increment demo_wifi = 15" by code_simp+
  then show ?thesis using ToggleTime_in_range [of demo_wifi 0 3 w'] w' by auto
qed

end
