(* ===== verification/Vpn_Subnets.thy ===== *)
theory Vpn_Subnets
  imports Addr_Overlap Page_Fields
begin

text \<open>
  Addresses and subnets of the VPN plugins: the clients of a configuration, the next unused client
  address, masks and subnet addresses, the overlap and conflict tests, and the validation of a WireGuard
  client (\<open>wireguard.js\<close> and \<open>openvpn.js\<close>). The theorems: the next client address is found and is unused;
  the overlap test is right on valid subnets; a client subnet that is accepted overlaps none of the
  subnets the router controls; the conflict test of the OpenVPN page compares network addresses only.
\<close>

section \<open>Clients\<close>

definition getDefinedAcIds :: "string \<Rightarrow> uci \<Rightarrow> string list" where
  "getDefinedAcIds pkg u =
     filter (\<lambda>i. let enabled = val_string (uci_get u pkg i ''enabled'') in enabled \<noteq> ''0'' \<and> enabled \<noteq> ''false'')
       (getAllSectionsOfType u pkg ''allowed_client'')"

definition getDefinedAcIps :: "string \<Rightarrow> uci \<Rightarrow> string list" where
  "getDefinedAcIps pkg u = filter (\<lambda>ip. ip \<noteq> []) (map (\<lambda>i. val_string (uci_get u pkg i ''ip'')) (getDefinedAcIds pkg u))"

section \<open>The next unused address\<close>

text \<open>Numbers as \<open>parseInt\<close> returns them; \<open>NaN\<close> is \<open>None\<close>.\<close>

definition num_lt :: "int option \<Rightarrow> int \<Rightarrow> bool" where
  "num_lt x n = (case x of None \<Rightarrow> False | Some i \<Rightarrow> i < n)"

definition num_inc :: "int option \<Rightarrow> int option" where
  "num_inc x = map_option (\<lambda>i. i + 1) x"

definition candidate :: "string \<Rightarrow> int option \<Rightarrow> int option \<Rightarrow> int option \<Rightarrow> string" where
  "candidate first s t f = first @ ''.'' @ num_print s @ ''.'' @ num_print t @ ''.'' @ num_print f"

text \<open>One pass of the loop body on the second, third and fourth part and the candidate.\<close>

definition ac_ip_step ::
    "string \<Rightarrow> int option \<times> int option \<times> int option \<times> string \<Rightarrow> int option \<times> int option \<times> int option \<times> string" where
  "ac_ip_step first = (\<lambda>(s, t, f, cand).
     let f1 = num_inc f;
         (f2, t2) = (if f1 = Some 255 then (Some 1, num_inc t) else (f1, t));
         (t3, s3) = (if t2 = Some 255 then (Some 0, num_inc s) else (t2, s))
     in (s3, t3, f2, if s3 \<noteq> Some 255 then candidate first s3 t3 f2 else cand))"

definition ac_ip_more :: "string list \<Rightarrow> int option \<times> int option \<times> int option \<times> string \<Rightarrow> bool" where
  "ac_ip_more defined = (\<lambda>(s, t, f, cand). (num_lt f 255 \<or> num_lt t 255 \<or> num_lt s 255) \<and> cand \<in> set defined)"

text \<open>
  The loop may run forever, when the last part is no number and the candidate with \<open>NaN\<close> is defined: no
  result is \<open>None\<close>. While the second part is 255 the candidate is not renewed.
\<close>

partial_function (option) ac_ip_loop ::
    "string list \<Rightarrow> string \<Rightarrow> int option \<times> int option \<times> int option \<times> string \<Rightarrow> string option" where
  "ac_ip_loop defined first st =
     (if ac_ip_more defined st then ac_ip_loop defined first (ac_ip_step first st) else Some (snd (snd (snd st))))"

text \<open>\<open>parts.pop()\<close> from the end; of an empty array it is \<open>undefined\<close>, printed as such and no number.\<close>

definition part_from_end :: "string \<Rightarrow> nat \<Rightarrow> string option" where
  "part_from_end ip k = nth_opt (rev (split_on CHR ''.'' ip)) k"

definition part_num :: "string option \<Rightarrow> int option" where
  "part_num x = (case x of None \<Rightarrow> None | Some s \<Rightarrow> js_parseInt s)"

definition getUnusedAcIp :: "string \<Rightarrow> uci \<Rightarrow> string \<Rightarrow> string option" where
  "getUnusedAcIp pkg u serverInternalIp =
     (let f = num_inc (part_num (part_from_end serverInternalIp 0));
          t = part_num (part_from_end serverInternalIp 1);
          s = part_num (part_from_end serverInternalIp 2);
          first = (case part_from_end serverInternalIp 3 of None \<Rightarrow> ''undefined'' | Some w \<Rightarrow> w)
      in ac_ip_loop (serverInternalIp # getDefinedAcIps pkg u) first (s, t, f, candidate first s t f))"

text \<open>The same functions on the configuration of the OpenVPN page.\<close>

definition ovpn_getDefinedAcIds :: "uci \<Rightarrow> string list" where
  "ovpn_getDefinedAcIds u = getDefinedAcIds ''openvpn_gargoyle'' u"

definition ovpn_getDefinedAcIps :: "uci \<Rightarrow> string list" where
  "ovpn_getDefinedAcIps u = getDefinedAcIps ''openvpn_gargoyle'' u"

definition ovpn_getUnusedAcIp :: "uci \<Rightarrow> string \<Rightarrow> string option" where
  "ovpn_getUnusedAcIp u serverInternalIp = getUnusedAcIp ''openvpn_gargoyle'' u serverInternalIp"

section \<open>Masks\<close>

definition dotted_digits :: "string \<Rightarrow> bool" where
  "dotted_digits s = rx_match (dotted (RPlus rdigit)) s"

definition parseMask :: "string \<Rightarrow> int option" where
  "parseMask msk =
     (if dotted_digits msk then map_option int (parseIp msk)
      else Some (js_shl_var (Some (-1)) (map_option (\<lambda>k. 32 - k) (js_integer msk))))"

definition applyMask :: "string \<Rightarrow> string \<Rightarrow> string" where
  "applyMask ip msk = ipToStr (js_and (map_option int (parseIp ip)) (parseMask msk))"

definition wgSubnetsOverlap :: "string \<Rightarrow> string \<Rightarrow> string \<Rightarrow> string \<Rightarrow> bool" where
  "wgSubnetsOverlap ipA maskA ipB maskB =
     (let m = Some (js_and (parseMask maskA) (parseMask maskB))
      in js_and (map_option int (parseIp ipA)) m = js_and (map_option int (parseIp ipB)) m)"

text \<open>The address and the mask of the LAN, which may be stored as a list of addresses with prefix lengths.\<close>

definition lan_subnet :: "uci \<Rightarrow> string \<times> string" where
  "lan_subnet u =
     (let lanIp = (case uci_get u ''network'' ''lan'' ''ipaddr'' of Str s \<Rightarrow> s | Lst xs \<Rightarrow> (case xs of [] \<Rightarrow> [] | x # _ \<Rightarrow> x));
          lanMask = val_string (uci_get u ''network'' ''lan'' ''netmask'')
      in if CHR ''/'' \<in> set lanIp
         then (let parts = split_on CHR ''/'' lanIp in (parts ! 0, if lanMask = [] then parts ! 1 else lanMask))
         else (lanIp, lanMask))"

definition wgControlledSubnets :: "string \<Rightarrow> string \<Rightarrow> uci \<Rightarrow> string \<Rightarrow> string \<Rightarrow> (string \<times> string \<times> string) list" where
  "wgControlledSubnets ovlpLan ovlpWg uciOriginal serverIp serverMask =
     (let (lanIp, lanMask) = lan_subnet uciOriginal
      in (if lanIp \<noteq> [] \<and> lanMask \<noteq> [] then [(lanIp, lanMask, ovlpLan)] else [])
         @ (if serverIp \<noteq> [] \<and> serverMask \<noteq> [] then [(serverIp, serverMask, ovlpWg)] else []))"

section \<open>Validation of a client\<close>

record wg_strings =
  w_prfErr :: string
  w_ClntIntIP :: string
  w_OSubErr :: string
  w_ClntNotAllow :: string
  w_OvlpLan :: string
  w_OvlpWg :: string

definition validateHaveText :: "string \<Rightarrow> nat" where
  "validateHaveText txt = (if length txt > 0 then 0 else 1)"

definition ac_row :: "string \<Rightarrow> string \<Rightarrow> (string \<Rightarrow> nat) \<Rightarrow> proof_row" where
  "ac_row input label f =
     (let pre = ''wireguard_allowed_client_''
      in \<lparr>pr_input = pre @ input, pr_label = pre @ label, pr_function = f, pr_valid = 0, pr_visibility = Some (pre @ input @ ''_container'')\<rparr>)"

definition ac_rows :: "proof_row list" where
  "ac_rows =
     [ac_row ''name'' ''name_label'' validateHaveText, ac_row ''pubkey'' ''pubkey_label'' validateHaveText,
      ac_row ''privkey'' ''privkey'' validateHaveText, ac_row ''ip'' ''ip_label'' validateIP,
      ac_row ''remote_custom'' ''remote_label'' validateHaveText, ac_row ''subnet_ip'' ''have_subnet_label'' validateIP,
      ac_row ''subnet_mask'' ''have_subnet_label'' validateNetMask]"

text \<open>\<open>name.replace(/[\t\r\n ]+/g, "_").toLowerCase().replace(/[^a-z0-9_-]/g, "")\<close>.\<close>

definition name_space :: "char \<Rightarrow> bool" where
  "name_space c \<longleftrightarrow> c = CHR 0x09 \<or> c = CHR 0x0D \<or> c = CHR 0x0A \<or> c = CHR '' ''"

definition id_char :: "char \<Rightarrow> bool" where
  "id_char c \<longleftrightarrow> (let n = (of_char c :: nat) in 97 \<le> n \<and> n \<le> 122) \<or> is_digit c \<or> c = CHR ''_'' \<or> c = CHR ''-''"

definition client_id :: "string \<Rightarrow> string" where
  "client_id name = filter id_char (map lower_char (join ''_'' (split_runs name_space name)))"

definition check_internal_ip :: "wg_strings \<Rightarrow> string \<Rightarrow> string \<Rightarrow> page \<Rightarrow> string list js_result" where
  "check_internal_ip ws serverIp serverMask p =
     res_bind (get_el p ''wireguard_allowed_client_ip_container'') (\<lambda>c.
     if el_display c = ''none'' then Inr []
     else res_bind (get_el p ''wireguard_allowed_client_ip'') (\<lambda>e.
       let wgMask = parseMask serverMask
       in Inr (if js_and (map_option int (parseIp (get_value e))) wgMask \<noteq> js_and (map_option int (parseIp serverIp)) wgMask
               then [w_ClntIntIP ws @ '' '' @ get_value e @ '' '' @ w_OSubErr ws] else [])))"

definition check_client_name :: "wg_strings \<Rightarrow> page \<Rightarrow> string list js_result" where
  "check_client_name ws p =
     res_bind (get_el p ''wireguard_allowed_client_name'') (\<lambda>e.
       Inr (if client_id (get_value e) \<in> {''lan'', ''wan'', ''tun0'', ''wg0'', ''wgserver''} then [w_ClntNotAllow ws] else []))"

definition check_client_subnet :: "wg_strings \<Rightarrow> uci \<Rightarrow> string \<Rightarrow> string \<Rightarrow> page \<Rightarrow> (page \<times> string list) js_result" where
  "check_client_subnet ws uciOriginal serverIp serverMask p =
     res_bind (get_el p ''wireguard_allowed_client_subnet_ip_container'') (\<lambda>c.
     if el_display c = ''none'' then Inr (p, [])
     else res_bind (get_el p ''wireguard_allowed_client_subnet_ip'') (\<lambda>ipEl.
          res_bind (get_el p ''wireguard_allowed_client_subnet_mask'') (\<lambda>maskEl.
          res_bind (upd_el ''wireguard_allowed_client_subnet_ip'' (put_value (applyMask (get_value ipEl) (get_value maskEl))) p) (\<lambda>p1.
          res_bind (get_el p1 ''wireguard_allowed_client_subnet_ip'') (\<lambda>ipEl1.
            Inr (p1, map (\<lambda>(_, _, err). err)
              (filter (\<lambda>(cip, cmask, _). wgSubnetsOverlap (get_value ipEl1) (get_value maskEl) cip cmask)
                (wgControlledSubnets (w_OvlpLan ws) (w_OvlpWg ws) uciOriginal serverIp serverMask))))))))"

definition validateAc :: "wg_strings \<Rightarrow> uci \<Rightarrow> string \<Rightarrow> string \<Rightarrow> page \<Rightarrow> (page \<times> string list) js_result" where
  "validateAc ws uciOriginal internalServerIp internalServerMask p =
     res_bind (proofreadFields (w_prfErr ws) ac_rows p) (\<lambda>(p1, errors1).
     if errors1 \<noteq> [] then Inr (p1, errors1) else
     res_bind (check_internal_ip ws internalServerIp internalServerMask p1) (\<lambda>errors2.
     if errors2 \<noteq> [] then Inr (p1, errors2) else
     res_bind (check_client_name ws p1) (\<lambda>errors3.
     if errors3 \<noteq> [] then Inr (p1, errors3) else
     check_client_subnet ws uciOriginal internalServerIp internalServerMask p1)))"

text \<open>The warning shown while the fields are edited: whether it is shown.\<close>

definition checkWgClientSubnetOverlap :: "wg_strings \<Rightarrow> uci \<Rightarrow> page \<Rightarrow> page js_result" where
  "checkWgClientSubnetOverlap ws uciOriginal p =
     (case doc p ''wireguard_allowed_client_subnet_warn'' of
        None \<Rightarrow> Inr p
      | Some _ \<Rightarrow>
          res_bind (get_el p ''wireguard_allowed_client_subnet_ip'') (\<lambda>ipEl.
          res_bind (get_el p ''wireguard_allowed_client_subnet_mask'') (\<lambda>maskEl.
          let ip = get_value ipEl; msk = get_value maskEl
          in res_bind
               (if dotted_digits ip \<and> msk \<noteq> []
                then res_bind (get_el p ''wireguard_server_ip'') (\<lambda>srvIp.
                     res_bind (get_el p ''wireguard_server_mask'') (\<lambda>srvMask.
                       Inr (\<exists>(cip, cmask, _) \<in> set (wgControlledSubnets (w_OvlpLan ws) (w_OvlpWg ws) uciOriginal (get_value srvIp) (get_value srvMask)).
                              wgSubnetsOverlap ip msk cip cmask)))
                else Inr False)
               (\<lambda>hit. upd_el ''wireguard_allowed_client_subnet_warn'' (\<lambda>e. e\<lparr>el_display := (if hit then [] else ''none'')\<rparr>) p))))"

section \<open>Subnets of the OpenVPN page\<close>

text \<open>\<open>null\<close> for a text that is no address; in a bitwise operation it is 0.\<close>

definition getNumericIp :: "string \<Rightarrow> int option" where
  "getNumericIp ip =
     (if dotted_digits ip
      then (let i = map (\<lambda>w. Some (int (dec_val w))) (split_on CHR ''.'' ip)
            in Some (js_shl (i ! 0) 24 + js_shl (i ! 1) 16 + js_shl (i ! 2) 8 + the (i ! 3)))
      else None)"

definition getNumericMask :: "string \<Rightarrow> int option" where
  "getNumericMask msk =
     (if dotted_digits msk then getNumericIp msk
      else Some (js_shl_var (Some (-1)) (map_option (\<lambda>k. 32 - k) (js_integer msk))))"

definition numericIpToStr :: "int \<Rightarrow> string" where
  "numericIpToStr numIp =
     (let w = (word_of_int numIp :: 32 word)
      in dec_str (unat (drop_bit 24 w)) @ ''.''
         @ dec_str (unat (signed_drop_bit 16 w AND 255)) @ ''.''
         @ dec_str (unat (signed_drop_bit 8 w AND 255)) @ ''.''
         @ dec_str (unat (w AND 255)))"

definition adjustSubnetIp :: "string \<Rightarrow> string \<Rightarrow> string" where
  "adjustSubnetIp ip msk = numericIpToStr (js_and (getNumericIp ip) (getNumericMask msk))"

text \<open>The LAN, the server, the clients' subnets and the rows of the table of additional subnets.\<close>

definition known_subnets :: "string \<times> string \<Rightarrow> string \<times> string \<Rightarrow> uci \<Rightarrow> (string \<times> string) list \<Rightarrow> (string \<times> string) list" where
  "known_subnets lan server u extra =
     (if fst lan \<noteq> [] \<and> snd lan \<noteq> [] then [lan] else []) @ [server]
     @ filter (\<lambda>(ip, msk). ip \<noteq> [] \<and> msk \<noteq> [])
         (map (\<lambda>i. (val_string (uci_get u ''openvpn_gargoyle'' i ''subnet_ip''), val_string (uci_get u ''openvpn_gargoyle'' i ''subnet_mask'')))
           (getAllSectionsOfType u ''openvpn_gargoyle'' ''allowed_client''))
     @ extra"

definition checkSubnetConflict :: "string \<times> string \<Rightarrow> string \<times> string \<Rightarrow> uci \<Rightarrow> (string \<times> string) list \<Rightarrow> string \<Rightarrow> string \<Rightarrow> bool" where
  "checkSubnetConflict lan server u extra ip msk \<longleftrightarrow>
     adjustSubnetIp ip msk \<in> set (map (\<lambda>(i, k). adjustSubnetIp i k) (known_subnets lan server u extra))"

section \<open>The search for an address\<close>

text \<open>The search steps through numbered positions: 254 hosts, 255 third parts, 255 second parts.\<close>

definition pos_second :: "nat \<Rightarrow> nat" where "pos_second p = p div 64770"
definition pos_third :: "nat \<Rightarrow> nat" where "pos_third p = p div 254 mod 255"
definition pos_fourth :: "nat \<Rightarrow> nat" where "pos_fourth p = Suc (p mod 254)"

definition pos_ip :: "nat \<Rightarrow> nat \<Rightarrow> string" where
  "pos_ip a p = quad a (pos_second p) (pos_third p) (pos_fourth p)"

definition pos_state :: "nat \<Rightarrow> nat \<Rightarrow> int option \<times> int option \<times> int option \<times> string" where
  "pos_state a p = (Some (int (pos_second p)), Some (int (pos_third p)), Some (int (pos_fourth p)), pos_ip a p)"

lemma candidate_quad: "candidate (dec_str a) (Some (int s)) (Some (int t)) (Some (int f)) = quad a s t f"
  by (simp add: candidate_def quad_def)

lemma pos_recover: "pos_second p * 64770 + pos_third p * 254 + (pos_fourth p - 1) = p"
proof -
  have "p div 254 div 255 = p div 64770" by (simp add: div_mult2_eq [symmetric])
  then have "p div 254 = pos_second p * 255 + pos_third p"
    using div_mult_mod_eq [of "p div 254" 255] by (simp add: pos_second_def pos_third_def)
  then show ?thesis using div_mult_mod_eq [of p 254] by (simp add: pos_fourth_def)
qed

lemma pos_unique:
  assumes "s * 64770 + t * 254 + f = p" "t < 255" "f < 254"
  shows "pos_second p = s" "pos_third p = t" "pos_fourth p = Suc f"
proof -
  define k where "k = s * 255 + t"
  have "p = k * 254 + f" using assms(1) by (simp add: k_def)
  then have q: "p div 254 = s * 255 + t" "p mod 254 = f" using assms(3) by (simp_all add: k_def [symmetric])
  then show "pos_third p = t" "pos_fourth p = Suc f" using assms(2) by (simp_all add: pos_third_def pos_fourth_def)
  have "p div 64770 = p div 254 div 255" by (simp add: div_mult2_eq [symmetric])
  then show "pos_second p = s" using q assms(2) by (simp add: pos_second_def)
qed

lemma dec_str_inj: "dec_str m = dec_str n \<Longrightarrow> m = n"
proof -
  assume "dec_str m = dec_str n"
  then have "dec_val (dec_str m) = dec_val (dec_str n)" by (rule arg_cong)
  then show "m = n" by simp
qed

lemma pos_ip_inj: "inj (pos_ip a)"
proof (rule injI)
  fix p q assume "pos_ip a p = pos_ip a q"
  then have "split_on CHR ''.'' (pos_ip a p) = split_on CHR ''.'' (pos_ip a q)" by (rule arg_cong)
  then have "pos_second p = pos_second q" "pos_third p = pos_third q" "pos_fourth p = pos_fourth q"
    by (auto simp: pos_ip_def dest: dec_str_inj)
  then show "p = q" using pos_recover [of p] pos_recover [of q] by simp
qed

lemma pos_bounds: "pos_third p < 255" "1 \<le> pos_fourth p" "pos_fourth p \<le> 254" "p < 16516350 \<Longrightarrow> pos_second p < 255"
  by (simp_all add: pos_third_def pos_fourth_def pos_second_def less_mult_imp_div_less Suc_le_eq)

lemma ac_ip_step_pos:
  assumes "Suc p < 16516350"
  shows "ac_ip_step (dec_str a) (pos_state a p) = pos_state a (Suc p)"
proof -
  let ?s = "pos_second p" and ?t = "pos_third p" and ?f = "pos_fourth p"
  note b = pos_bounds [of p] and r = pos_recover [of p]
  have s: "pos_second (Suc p) < 255" using pos_bounds(4) [OF assms] .
  consider "?f < 254" | "?f = 254" "?t < 254" | "?f = 254" "?t = 254" using b by linarith
  then show ?thesis
  proof cases
    case 1
    have "pos_second (Suc p) = ?s" "pos_third (Suc p) = ?t" "pos_fourth (Suc p) = Suc ?f"
      using pos_unique [of ?s ?t ?f "Suc p"] r b 1 by simp_all
    then show ?thesis using 1 b s by (simp add: ac_ip_step_def pos_state_def num_inc_def pos_ip_def candidate_quad [symmetric] add.commute)
  next
    case 2
    have "pos_second (Suc p) = ?s" "pos_third (Suc p) = Suc ?t" "pos_fourth (Suc p) = 1"
      using pos_unique [of ?s "Suc ?t" 0 "Suc p"] r b 2 by simp_all
    then show ?thesis using 2 b s by (simp add: ac_ip_step_def pos_state_def num_inc_def pos_ip_def candidate_quad [symmetric] add.commute)
  next
    case 3
    have "pos_second (Suc p) = Suc ?s" "pos_third (Suc p) = 0" "pos_fourth (Suc p) = 1"
      using pos_unique [of "Suc ?s" 0 0 "Suc p"] r b 3 by simp_all
    then show ?thesis using 3 b s by (simp add: ac_ip_step_def pos_state_def num_inc_def pos_ip_def candidate_quad [symmetric] add.commute)
  qed
qed

lemma ac_ip_loop_finds:
  assumes "q < 16516350" "p \<le> q" "pos_ip a q \<notin> set defined" "\<forall>k. p \<le> k \<and> k < q \<longrightarrow> pos_ip a k \<in> set defined"
  shows "ac_ip_loop defined (dec_str a) (pos_state a p) = Some (pos_ip a q)"
  using assms(2,4)
proof (induction "q - p" arbitrary: p)
  case 0
  then show ?case using assms(3) by (subst ac_ip_loop.simps) (simp add: ac_ip_more_def pos_state_def)
next
  case (Suc n)
  then have "p < q" by simp
  then have "ac_ip_more defined (pos_state a p)"
    using Suc.prems pos_bounds [of p] by (simp add: ac_ip_more_def pos_state_def num_lt_def)
  moreover have "ac_ip_step (dec_str a) (pos_state a p) = pos_state a (Suc p)" using \<open>p < q\<close> assms(1) by (intro ac_ip_step_pos) simp
  moreover have "ac_ip_loop defined (dec_str a) (pos_state a (Suc p)) = Some (pos_ip a q)"
    using Suc.hyps(1) [of "Suc p"] Suc.hyps(2) Suc.prems \<open>p < q\<close> by simp
  ultimately show ?case by (subst ac_ip_loop.simps) simp
qed

lemma free_position:
  obtains q where "p \<le> q" "q \<le> p + length defined" "pos_ip a q \<notin> set defined"
    "\<forall>k. p \<le> k \<and> k < q \<longrightarrow> pos_ip a k \<in> set defined"
proof -
  have "\<not> pos_ip a ` {p .. p + length defined} \<subseteq> set defined"
  proof
    assume "pos_ip a ` {p .. p + length defined} \<subseteq> set defined"
    then have "card (pos_ip a ` {p .. p + length defined}) \<le> length defined"
      by (meson card_length card_mono finite_set order_trans)
    moreover have "card (pos_ip a ` {p .. p + length defined}) = Suc (length defined)"
      by (simp add: card_image inj_on_subset [OF pos_ip_inj])
    ultimately show False by simp
  qed
  then have ex: "\<exists>q. p \<le> q \<and> q \<le> p + length defined \<and> pos_ip a q \<notin> set defined" by auto
  define q where "q = (LEAST q. p \<le> q \<and> q \<le> p + length defined \<and> pos_ip a q \<notin> set defined)"
  have "p \<le> q \<and> q \<le> p + length defined \<and> pos_ip a q \<notin> set defined" unfolding q_def using LeastI_ex [OF ex] .
  moreover have "\<forall>k. p \<le> k \<and> k < q \<longrightarrow> pos_ip a k \<in> set defined"
    using not_less_Least [of _ "\<lambda>q. p \<le> q \<and> q \<le> p + length defined \<and> pos_ip a q \<notin> set defined"] calculation
    unfolding q_def [symmetric] by (meson le_trans less_imp_le)
  ultimately show thesis using that by blast
qed

section \<open>Subnets as sets of addresses\<close>

definition subnet_members :: "string \<Rightarrow> string \<Rightarrow> 32 word set" where
  "subnet_members ip msk = {w. w AND mask_word msk = host_word ip AND mask_word msk}"

text \<open>A netmask, or a prefix length from 1 to 32.\<close>

definition mask_or_length :: "string \<Rightarrow> bool" where
  "mask_or_length m \<longleftrightarrow> mask_text m \<or> number_in 1 32 m"

lemma parseIp_host: "octets s \<noteq> None \<Longrightarrow> toInt32 (map_option int (parseIp s)) = host_word s"
  by (auto simp: parseIp_octets host_word_def toInt32_def split: option.splits)

lemma dotted_digits_octets:
  assumes "octets s \<noteq> None"
  shows "dotted_digits s"
proof -
  obtain a b c d where "split_on CHR ''.'' s = [a, b, c, d]" "octet_text a" "octet_text b" "octet_text c" "octet_text d"
    using assms by (auto simp: octets_def split: list.splits if_splits)
  then show ?thesis
    unfolding dotted_digits_def by (subst dotted_iff) (auto simp: rx_simps octet_text_def dest: digits_no_dot)
qed

lemma parseMask_word:
  assumes "mask_or_length m"
  shows "\<exists>k \<le> 32. mask_word m = NOT (mask k) \<and> toInt32 (parseMask m) = mask_word m"
  using assms unfolding mask_or_length_def
proof
  assume "mask_text m"
  then obtain n where n: "n \<le> 32" "octets m = Some (mask_byte n, mask_byte (n - 8), mask_byte (n - 16), mask_byte (n - 24))"
      "host_word m = NOT (mask (32 - n))" "CHR ''.'' \<in> set m" using mask_dotted by blast
  then have "toInt32 (parseMask m) = host_word m"
    using dotted_digits_octets [of m] parseIp_host [of m] by (simp add: parseMask_def)
  then show ?thesis using n by (intro exI [of _ "32 - n"]) (simp add: mask_word_def)
next
  assume "number_in 1 32 m"
  then have m: "m \<noteq> []" "list_all is_digit m" "1 \<le> dec_val m" "dec_val m \<le> 32" by (auto simp: number_in_def number_text_def)
  have nd: "CHR ''.'' \<notin> set m" using m(2) by (rule digits_no_dot)
  then have "\<not> dotted_digits m" unfolding dotted_digits_def by (subst dotted_iff) (auto simp: rx_simps dest: digits_no_dot)
  moreover have "(32 - int (dec_val m)) mod 32 = 32 - int (dec_val m)" using m by (intro mod_pos_pos_trivial) auto
  then have "nat ((32 - int (dec_val m)) mod 32) = 32 - dec_val m" by simp
  ultimately have "toInt32 (parseMask m) = NOT (mask (32 - dec_val m))"
    using m by (simp add: parseMask_def js_integer_digits js_shl_var_def js_shl_def toInt32_def push_bit_minus_one_eq_not_mask)
  then show ?thesis using nd by (intro exI [of _ "32 - dec_val m"]) (simp add: mask_word_def)
qed

lemma not_mask_and: "(NOT (mask j) AND NOT (mask k) :: 32 word) = NOT (mask (max j k))"
  by (rule bit_eqI) (auto simp: bit_simps)

lemma prefix_overlap:
  fixes a b :: "32 word"
  shows "a AND NOT (mask (max j k)) = b AND NOT (mask (max j k)) \<longleftrightarrow>
    (\<exists>w. w AND NOT (mask j) = a AND NOT (mask j) \<and> w AND NOT (mask k) = b AND NOT (mask k))"
proof
  assume eq: "a AND NOT (mask (max j k)) = b AND NOT (mask (max j k))"
  show "\<exists>w. w AND NOT (mask j) = a AND NOT (mask j) \<and> w AND NOT (mask k) = b AND NOT (mask k)"
  proof (cases "j \<le> k")
    case True
    then show ?thesis using eq by (intro exI [of _ a]) (simp add: max_absorb2)
  next
    case False
    then show ?thesis using eq by (intro exI [of _ b]) (simp add: max_absorb1)
  qed
next
  assume "\<exists>w. w AND NOT (mask j) = a AND NOT (mask j) \<and> w AND NOT (mask k) = b AND NOT (mask k)"
  then obtain w where w: "w AND NOT (mask j) = a AND NOT (mask j)" "w AND NOT (mask k) = b AND NOT (mask k)" by blast
  have "a AND NOT (mask (max j k)) = (a AND NOT (mask j)) AND NOT (mask k)" by (simp only: not_mask_and [symmetric] and.assoc)
  also have "\<dots> = (w AND NOT (mask k)) AND NOT (mask j)" by (simp only: w(1) [symmetric] ac_simps)
  also have "\<dots> = b AND NOT (mask (max j k))" unfolding w(2) by (simp only: not_mask_and [symmetric] ac_simps)
  finally show "a AND NOT (mask (max j k)) = b AND NOT (mask (max j k))" .
qed

lemma toInt32_sint [simp]: "toInt32 (Some (sint (w :: 32 word))) = w"
  by (simp add: toInt32_def)

lemma sint_eq_iff: "sint (v :: 32 word) = sint w \<longleftrightarrow> v = w"
  by (metis signed_word_eqI)

lemma wg_overlap_members:
  assumes "octets a \<noteq> None" "octets b \<noteq> None" "mask_or_length m" "mask_or_length n"
  shows "wgSubnetsOverlap a m b n \<longleftrightarrow> subnet_members a m \<inter> subnet_members b n \<noteq> {}"
proof -
  obtain j k where jk: "mask_word m = NOT (mask j)" "toInt32 (parseMask m) = NOT (mask j)"
      "mask_word n = NOT (mask k)" "toInt32 (parseMask n) = NOT (mask k)"
    using parseMask_word [OF assms(3)] parseMask_word [OF assms(4)] by auto
  have "wgSubnetsOverlap a m b n \<longleftrightarrow>
      host_word a AND NOT (mask (max j k)) = host_word b AND NOT (mask (max j k))"
    by (simp add: wgSubnetsOverlap_def js_and_def jk parseIp_host assms(1,2) not_mask_and sint_eq_iff)
  also have "\<dots> \<longleftrightarrow> subnet_members a m \<inter> subnet_members b n \<noteq> {}"
    unfolding prefix_overlap by (auto simp: subnet_members_def jk)
  finally show ?thesis .
qed

section \<open>Theorems\<close>

text \<open>
  \<open>wgSubnetsOverlap\<close> on two addresses of four octets, each with a netmask or a prefix length from
  1 to 32, answers exactly whether some address lies in both subnets.
\<close>

theorem wgSubnetsOverlap_iff:
  assumes "octets a \<noteq> None" "octets b \<noteq> None" "mask_or_length m" "mask_or_length n"
  shows "wgSubnetsOverlap a m b n \<longleftrightarrow> subnet_members a m \<inter> subnet_members b n \<noteq> {}"
  using assms by (rule wg_overlap_members)

lemma wg_example:
  "octets ''10.0.0.7'' = Some (10, 0, 0, 7)" "octets ''10.0.2.1'' = Some (10, 0, 2, 1)"
  "number_in 1 32 ''22''" "number_in 1 32 ''24''"
  by code_simp+

theorem wgSubnetsOverlap_iff_witness:
  "wgSubnetsOverlap ''10.0.0.7'' ''22'' ''10.0.2.1'' ''24''
     \<longleftrightarrow> subnet_members ''10.0.0.7'' ''22'' \<inter> subnet_members ''10.0.2.1'' ''24'' \<noteq> {}"
  using wgSubnetsOverlap_iff [of "''10.0.0.7''" "''10.0.2.1''" "''22''" "''24''"] wg_example
  by (simp add: mask_or_length_def)

text \<open>
  C16. The search for the next client address always ends with an address that is neither the server's
  nor one of an enabled client, in the range of the server's first octet, as long as the addresses
  after the server's are not used up.
\<close>

theorem getUnusedAcIp_fresh:
  assumes "b < 255" "c < 255" "d \<le> 253"
    and "b * 64770 + c * 254 + d + length (getDefinedAcIps pkg u) < 16516349"
  shows "\<exists>s t f. getUnusedAcIp pkg u (quad a b c d) = Some (quad a s t f)
    \<and> quad a s t f \<notin> set (quad a b c d # getDefinedAcIps pkg u)
    \<and> b \<le> s \<and> s < 255 \<and> t < 255 \<and> 1 \<le> f \<and> f \<le> 254"
proof -
  let ?defined = "quad a b c d # getDefinedAcIps pkg u"
  define p where "p = b * 64770 + c * 254 + d"
  have p: "pos_second p = b" "pos_third p = c" "pos_fourth p = Suc d"
    using pos_unique [of b c d p] assms(2,3) by (simp_all add: p_def)
  obtain q where q: "p \<le> q" "q \<le> p + length ?defined" "pos_ip a q \<notin> set ?defined"
      "\<forall>k. p \<le> k \<and> k < q \<longrightarrow> pos_ip a k \<in> set ?defined"
    using free_position [of p ?defined a] by blast
  have small: "q < 16516350" using q(2) assms(4) by (simp add: p_def)
  have "candidate (dec_str a) (Some (int b)) (Some (int c)) (Some (int d + 1)) = quad a b c (Suc d)"
    using candidate_quad [of a b c "Suc d"] by (simp add: add.commute)
  then have "getUnusedAcIp pkg u (quad a b c d) = ac_ip_loop ?defined (dec_str a) (pos_state a p)"
    by (simp add: getUnusedAcIp_def part_from_end_def part_num_def nth_opt_def num_inc_def
        pos_state_def pos_ip_def p add.commute [of 1])
  also have "\<dots> = Some (pos_ip a q)" using small q by (intro ac_ip_loop_finds)
  finally have "getUnusedAcIp pkg u (quad a b c d) = Some (pos_ip a q)" .
  moreover have "b \<le> pos_second q" using q(1) p(1) by (metis pos_second_def div_le_mono)
  ultimately show ?thesis
    using q(3) pos_bounds [of q] small unfolding pos_ip_def by blast
qed

section \<open>Accepted client subnets\<close>

lemma octet_text_dec: "n < 1000 \<Longrightarrow> octet_text (dec_str n)"
proof -
  assume n: "n < 1000"
  have step: "length (dec_str m) \<le> Suc k" if "m < 10 \<or> length (dec_str (m div 10)) \<le> k" for m k
    using that by (subst num_str.simps) auto
  have "length (dec_str (n div 10 div 10)) \<le> 1" using n step [of "n div 10 div 10" 0] by simp
  then have "length (dec_str n) \<le> 3" using step [of "n div 10" 1] step [of n 2] by (simp add: numeral_2_eq_2 numeral_3_eq_3)
  then show ?thesis using dec_str_digits by (auto simp: octet_text_def list_all_iff is_digit_iff)
qed

lemma octets_quad: "a < 1000 \<Longrightarrow> b < 1000 \<Longrightarrow> c < 1000 \<Longrightarrow> d < 1000 \<Longrightarrow> octets (quad a b c d) = Some (a, b, c, d)"
  by (simp add: octets_def octet_text_dec)

lemma host_word_ipToStr: "octets (ipToStr (sint w)) \<noteq> None" "host_word (ipToStr (sint w)) = w"
proof -
  have "unat w < 4294967296" using unsigned_less [of w, where ?'a = nat] by simp
  then have "unat w div 2 ^ 24 < 1000" by (simp add: div_less_iff_less_mult)
  then have "octets (ipToStr (uint w)) =
      Some (unat w div 2 ^ 24, unat w div 2 ^ 16 mod 256, unat w div 2 ^ 8 mod 256, unat w mod 256)"
    unfolding ipToStr_word by (intro octets_quad) (auto intro: less_trans [OF mod_less_divisor])
  moreover have "ipToStr (sint w) = ipToStr (uint w)" by (simp add: ipToStr_def)
  ultimately show "octets (ipToStr (sint w)) \<noteq> None" "host_word (ipToStr (sint w)) = w"
    using quad_num_bytes [of "unat w"] by (simp_all add: host_word_def)
qed

lemma applyMask_word:
  assumes "octets ip \<noteq> None" "mask_or_length m"
  shows "octets (applyMask ip m) \<noteq> None" "host_word (applyMask ip m) = host_word ip AND mask_word m"
  using parseMask_word [OF assms(2)] parseIp_host [OF assms(1)]
  by (auto simp: applyMask_def js_and_def host_word_ipToStr)

lemma applyMask_members:
  assumes "octets ip \<noteq> None" "mask_or_length m"
  shows "subnet_members (applyMask ip m) m = subnet_members ip m"
  using applyMask_word [OF assms] by (simp add: subnet_members_def and.assoc)

lemma ac_rows_subnet:
  "ac_row ''subnet_ip'' ''have_subnet_label'' validateIP \<in> set ac_rows"
  "ac_row ''subnet_mask'' ''have_subnet_label'' validateNetMask \<in> set ac_rows"
  by (simp_all add: ac_rows_def)

lemma get_put_text: "\<not> is_select e \<Longrightarrow> get_value (put_value v e) = v"
  by (simp add: get_value_def put_value_def is_select_def)

lemma check_client_subnet_result:
  assumes "check_client_subnet ws u sip smask p = Inr (p', [])"
    and "doc p ''wireguard_allowed_client_subnet_ip_container'' = Some c" "el_display c \<noteq> ''none''"
    and "doc p ''wireguard_allowed_client_subnet_ip'' = Some e" "\<not> is_select e"
    and "doc p ''wireguard_allowed_client_subnet_mask'' = Some m"
  shows "doc p' ''wireguard_allowed_client_subnet_ip'' = Some (put_value (applyMask (get_value e) (get_value m)) e)
    \<and> doc p' ''wireguard_allowed_client_subnet_mask'' = Some m
    \<and> list_all (\<lambda>(cip, cmask, _). \<not> wgSubnetsOverlap (applyMask (get_value e) (get_value m)) (get_value m) cip cmask)
        (wgControlledSubnets (w_OvlpLan ws) (w_OvlpWg ws) u sip smask)"
  using assms get_put_text [OF assms(5)]
  by (auto simp: check_client_subnet_def get_el_def upd_el_def set_el_def list_all_iff filter_empty_conv)

text \<open>The page of the form: its fields exist and the subnet of the client is shown.\<close>

definition client_form :: "page \<Rightarrow> element \<Rightarrow> element \<Rightarrow> bool" where
  "client_form p e m \<longleftrightarrow> (\<forall>r \<in> set ac_rows. row_present p r)
     \<and> row_shown p (ac_row ''subnet_ip'' ''have_subnet_label'' validateIP)
     \<and> row_shown p (ac_row ''subnet_mask'' ''have_subnet_label'' validateNetMask)
     \<and> doc p ''wireguard_allowed_client_subnet_ip'' = Some e \<and> \<not> is_select e
     \<and> doc p ''wireguard_allowed_client_subnet_mask'' = Some m"

lemma validateAc_subnet:
  assumes "validateAc ws u sip smask p = Inr (p', [])" "client_form p e m"
  shows "host_text (get_value e)" "mask_text (get_value m)"
    "\<exists>e' m'. doc p' ''wireguard_allowed_client_subnet_ip'' = Some e' \<and> get_value e' = applyMask (get_value e) (get_value m)
      \<and> doc p' ''wireguard_allowed_client_subnet_mask'' = Some m' \<and> get_value m' = get_value m"
    "list_all (\<lambda>(cip, cmask, _). \<not> wgSubnetsOverlap (applyMask (get_value e) (get_value m)) (get_value m) cip cmask)
        (wgControlledSubnets (w_OvlpLan ws) (w_OvlpWg ws) u sip smask)"
proof -
  have present: "\<forall>r \<in> set ac_rows. row_present p r" using assms(2) by (simp add: client_form_def)
  obtain q errs where q: "proofreadFields (w_prfErr ws) ac_rows p = Inr (q, errs)" "same_fields p q"
      "errs = [] \<longleftrightarrow> (\<forall>r \<in> set ac_rows. row_shown p r \<longrightarrow> row_ok p r)"
    using proofread_rows_result [OF present, of "w_prfErr ws" "[]"] by (auto simp: proofreadFields_def)
  have sub: "errs = []" "check_client_subnet ws u sip smask q = Inr (p', [])"
    using assms(1) q(1) by (auto simp: validateAc_def res_bind_Inr_iff split: if_splits)
  have ok: "row_ok p (ac_row ''subnet_ip'' ''have_subnet_label'' validateIP)"
      "row_ok p (ac_row ''subnet_mask'' ''have_subnet_label'' validateNetMask)"
    using sub(1) q(3) assms(2) ac_rows_subnet unfolding client_form_def by blast+
  show "host_text (get_value e)" "mask_text (get_value m)"
    using ok assms(2) by (simp_all add: row_ok_def ac_row_def client_form_def ip.code_iff mask.code_iff)
  obtain c where c: "doc p ''wireguard_allowed_client_subnet_ip_container'' = Some c" "el_display c \<noteq> ''none''"
    using assms(2) by (auto simp: client_form_def row_shown_def row_visible_def ac_row_def res_bind_Inr_iff get_el_def split: option.splits)
  obtain x y z where d: "doc q ''wireguard_allowed_client_subnet_ip_container'' = Some (c\<lparr>el_color := x\<rparr>)"
      "doc q ''wireguard_allowed_client_subnet_ip'' = Some (e\<lparr>el_color := y\<rparr>)"
      "doc q ''wireguard_allowed_client_subnet_mask'' = Some (m\<lparr>el_color := z\<rparr>)"
    using same_fieldsD [OF q(2)] c(1) assms(2) unfolding client_form_def by meson
  have "\<not> is_select (e\<lparr>el_color := y\<rparr>)" "el_display (c\<lparr>el_color := x\<rparr>) \<noteq> ''none''"
    using assms(2) c by (simp_all add: client_form_def is_select_def)
  note r = check_client_subnet_result [OF sub(2) d(1) this(2) d(2) this(1) d(3)]
  then show "\<exists>e' m'. doc p' ''wireguard_allowed_client_subnet_ip'' = Some e' \<and> get_value e' = applyMask (get_value e) (get_value m)
      \<and> doc p' ''wireguard_allowed_client_subnet_mask'' = Some m' \<and> get_value m' = get_value m"
    using get_put_text [OF \<open>\<not> is_select (e\<lparr>el_color := y\<rparr>)\<close>] by simp
  show "list_all (\<lambda>(cip, cmask, _). \<not> wgSubnetsOverlap (applyMask (get_value e) (get_value m)) (get_value m) cip cmask)
        (wgControlledSubnets (w_OvlpLan ws) (w_OvlpWg ws) u sip smask)"
    using r by simp
qed

text \<open>
  C15. A client that \<open>validateAc\<close> accepts, with the form showing the subnet behind it, is given the network
  address of the entered subnet: four octets whose word is that of the entered address with the bits
  outside the mask cleared, the mask unchanged. It stands for the same addresses as what was entered, and
  none of these belongs to a subnet the router controls, if that is written with a valid address and mask.
\<close>

theorem validateAc_no_overlap:
  assumes "validateAc ws u sip smask p = Inr (p', [])" "client_form p e m"
    and "(cip, cmask, msg) \<in> set (wgControlledSubnets (w_OvlpLan ws) (w_OvlpWg ws) u sip smask)"
    and "octets cip \<noteq> None" "mask_or_length cmask"
  shows "\<exists>e' m'. doc p' ''wireguard_allowed_client_subnet_ip'' = Some e' \<and> doc p' ''wireguard_allowed_client_subnet_mask'' = Some m'
    \<and> get_value m' = get_value m \<and> octets (get_value e') \<noteq> None
    \<and> host_word (get_value e') = host_word (get_value e) AND mask_word (get_value m)
    \<and> subnet_members (get_value e') (get_value m') = subnet_members (get_value e) (get_value m)
    \<and> subnet_members (get_value e') (get_value m') \<inter> subnet_members cip cmask = {}"
proof -
  note v = validateAc_subnet [OF assms(1,2)]
  have e: "octets (get_value e) \<noteq> None" using v(1) by (auto simp: host_text_def)
  have m: "mask_or_length (get_value m)" using v(2) by (simp add: mask_or_length_def)
  have "\<not> wgSubnetsOverlap (applyMask (get_value e) (get_value m)) (get_value m) cip cmask"
    using v(4) assms(3) by (auto simp: list_all_iff)
  then have "subnet_members (applyMask (get_value e) (get_value m)) (get_value m) \<inter> subnet_members cip cmask = {}"
    using wg_overlap_members [OF applyMask_word(1) [OF e m] assms(4) m assms(5)] by simp
  with v(3) applyMask_members [OF e m] applyMask_word [OF e m] show ?thesis by auto
qed

section \<open>The conflict test of the OpenVPN page\<close>

lemma numericIpToStr_ip: "numericIpToStr n = ipToStr n"
  by (simp add: numericIpToStr_def ipToStr_def)

lemma word_of_js_shl: "word_of_int (js_shl (Some x) k) = (word_of_int x * 2 ^ k :: 32 word)"
  by (simp add: js_shl_def toInt32_def push_bit_eq_mult)

lemma getNumericIp_word:
  assumes "octets s \<noteq> None"
  shows "toInt32 (getNumericIp s) = host_word s"
proof -
  obtain a b c d where f: "split_on CHR ''.'' s = [a, b, c, d]"
      "octets s = Some (dec_val a, dec_val b, dec_val c, dec_val d)"
    using assms by (auto simp: octets_def split: list.splits if_splits)
  then have "toInt32 (getNumericIp s) =
      word_of_int (js_shl (Some (int (dec_val a))) 24 + js_shl (Some (int (dec_val b))) 16 + js_shl (Some (int (dec_val c))) 8 + int (dec_val d))"
    using dotted_digits_octets [OF assms] by (simp add: getNumericIp_def toInt32_def)
  also have "\<dots> = (of_nat (quad_num (dec_val a) (dec_val b) (dec_val c) (dec_val d)) :: 32 word)"
    by (simp add: word_of_js_shl quad_num_def algebra_simps)
  finally show ?thesis using f(2) by (simp add: host_word_def)
qed

lemma getNumericMask_word:
  assumes "mask_or_length m"
  shows "toInt32 (getNumericMask m) = mask_word m"
proof (cases "dotted_digits m")
  case True
  have "octets m \<noteq> None \<or> number_in 1 32 m" using assms mask_dotted [of m] by (auto simp: mask_or_length_def)
  moreover have "\<not> number_in 1 32 m"
    using True unfolding dotted_digits_def
    by (subst (asm) dotted_iff) (auto simp: rx_simps number_in_def number_text_def dest: digits_no_dot)
  moreover have "CHR ''.'' \<in> set m" using assms calculation(2) mask_dotted [of m] by (auto simp: mask_or_length_def)
  ultimately show ?thesis using True getNumericIp_word [of m] by (simp add: getNumericMask_def mask_word_def)
next
  case False
  then have "getNumericMask m = parseMask m" by (simp add: getNumericMask_def parseMask_def)
  then show ?thesis using parseMask_word [OF assms] by auto
qed

lemma adjustSubnetIp_word:
  assumes "octets ip \<noteq> None" "mask_or_length m"
  shows "adjustSubnetIp ip m = ipToStr (sint (host_word ip AND mask_word m))"
  by (simp add: adjustSubnetIp_def numericIpToStr_ip js_and_def getNumericIp_word getNumericMask_word assms)

lemma ipToStr_sint_inj: "ipToStr (sint (v :: 32 word)) = ipToStr (sint w) \<longleftrightarrow> v = w"
  by (metis host_word_ipToStr(2))

text \<open>
  C34. On valid addresses and masks \<open>checkSubnetConflict\<close> reports a conflict exactly when one of the
  subnets of the LAN, the server, the clients and the table has the same network address. A subnet it
  reports overlaps one of these.
\<close>

theorem checkSubnetConflict_same_network:
  assumes "octets ip \<noteq> None" "mask_or_length msk"
    and "\<forall>(i, k) \<in> set (known_subnets lan server u extra). octets i \<noteq> None \<and> mask_or_length k"
  shows "(checkSubnetConflict lan server u extra ip msk \<longleftrightarrow>
      (\<exists>(i, k) \<in> set (known_subnets lan server u extra). host_word ip AND mask_word msk = host_word i AND mask_word k))
    \<and> (checkSubnetConflict lan server u extra ip msk \<longrightarrow>
      (\<exists>(i, k) \<in> set (known_subnets lan server u extra). subnet_members ip msk \<inter> subnet_members i k \<noteq> {}))"
proof -
  let ?K = "set (known_subnets lan server u extra)"
  have "adjustSubnetIp ip msk = adjustSubnetIp i k \<longleftrightarrow> host_word ip AND mask_word msk = host_word i AND mask_word k"
    if "(i, k) \<in> ?K" for i k
    using assms that by (auto simp: adjustSubnetIp_word ipToStr_sint_inj)
  then have iff: "checkSubnetConflict lan server u extra ip msk \<longleftrightarrow>
      (\<exists>(i, k) \<in> ?K. host_word ip AND mask_word msk = host_word i AND mask_word k)"
    by (force simp: checkSubnetConflict_def)
  have "host_word ip AND mask_word msk \<in> subnet_members ip msk \<inter> subnet_members i k"
    if "host_word ip AND mask_word msk = host_word i AND mask_word k" for i k
  proof -
    have "(host_word i AND mask_word k) AND mask_word k = host_word i AND mask_word k" by (simp only: and.assoc and.idem)
    moreover have "(host_word ip AND mask_word msk) AND mask_word msk = host_word ip AND mask_word msk" by (simp only: and.assoc and.idem)
    ultimately show ?thesis using that by (simp only: subnet_members_def mem_Collect_eq Int_iff)
  qed
  then show ?thesis using iff by fast
qed

text \<open>
  Two subnets that overlap with different network addresses are not seen as a conflict: a client
  subnet 10.0.0.0/255.0.0.0 passes beside the server's 10.8.0.1/255.255.255.0, which lies inside it.
\<close>

theorem subnet_conflict_missed:
  "\<not> checkSubnetConflict ([], []) (''10.8.0.1'', ''255.255.255.0'') newUCIContainer [] ''10.0.0.0'' ''255.0.0.0''
    \<and> subnet_members ''10.0.0.0'' ''255.0.0.0'' \<inter> subnet_members ''10.8.0.1'' ''255.255.255.0'' \<noteq> {}"
proof
  show "\<not> checkSubnetConflict ([], []) (''10.8.0.1'', ''255.255.255.0'') newUCIContainer [] ''10.0.0.0'' ''255.0.0.0''"
    by code_simp
  have o: "octets ''10.0.0.0'' = Some (10, 0, 0, 0)" "octets ''10.8.0.1'' = Some (10, 8, 0, 1)"
      "octets ''255.0.0.0'' = Some (255, 0, 0, 0)" "octets ''255.255.255.0'' = Some (255, 255, 255, 0)" by code_simp+
  have "word_of_nat (quad_num 10 8 0 1) \<in> subnet_members ''10.0.0.0'' ''255.0.0.0'' \<inter> subnet_members ''10.8.0.1'' ''255.255.255.0''"
    by (simp add: subnet_members_def mask_word_def host_word_def o quad_num_def)
  then show "subnet_members ''10.0.0.0'' ''255.0.0.0'' \<inter> subnet_members ''10.8.0.1'' ''255.255.255.0'' \<noteq> {}" by blast
qed

text \<open>
  Outside these bounds the search returns texts that are no usable client addresses: after a server
  ending in 254 it proposes the address ending in 255, and past the last address of second part 255 it
  proposes a second part of 256.
\<close>

theorem getUnusedAcIp_out_of_range:
  "(quad a b c 255 \<notin> set (getDefinedAcIps pkg u) \<longrightarrow>
      getUnusedAcIp pkg u (quad a b c 254) = Some (quad a b c 255))
   \<and> (quad a 255 254 254 \<in> set (getDefinedAcIps pkg u) \<longrightarrow> quad a 256 0 1 \<notin> set (getDefinedAcIps pkg u) \<longrightarrow>
      getUnusedAcIp pkg u (quad a 255 254 253) = Some (quad a 256 0 1))"
proof -
  have c: "candidate (dec_str a) (Some (int s)) (Some (int t)) (Some (int f)) = quad a s t f" for s t f by (rule candidate_quad)
  have ne: "quad a b c d \<noteq> quad a s t f" if "d \<noteq> f \<or> b \<noteq> s" for b c d s t f
  proof
    assume "quad a b c d = quad a s t f"
    then have "split_on CHR ''.'' (quad a b c d) = split_on CHR ''.'' (quad a s t f)" by simp
    with that show False by (auto dest: dec_str_inj)
  qed
  have 1: "getUnusedAcIp pkg u (quad a b c 254) = Some (quad a b c 255)" if "quad a b c 255 \<notin> set (getDefinedAcIps pkg u)"
    using that c [of b c 255] ne [of 255 254 b b c c]
    by (simp add: getUnusedAcIp_def part_from_end_def part_num_def nth_opt_def num_inc_def ac_ip_loop.simps ac_ip_more_def)
  have 2: "getUnusedAcIp pkg u (quad a 255 254 253) = Some (quad a 256 0 1)"
    if "quad a 255 254 254 \<in> set (getDefinedAcIps pkg u)" "quad a 256 0 1 \<notin> set (getDefinedAcIps pkg u)"
    using that c [of 255 254 254] c [of 256 0 1] ne [of 1 253 256 255 0 254]
    by (simp add: getUnusedAcIp_def part_from_end_def part_num_def nth_opt_def num_inc_def num_lt_def
        ac_ip_loop.simps ac_ip_more_def ac_ip_step_def)
  show ?thesis using 1 2 by blast
qed

section \<open>A small configuration and form\<close>

definition demo_clients :: uci where
  "demo_clients =
     uci_set ''wireguard_gargoyle'' ''client1'' ''ip'' (Str ''10.255.254.254'') False
      (uci_set ''wireguard_gargoyle'' ''client1'' ''enabled'' (Str ''1'') False
       (uci_set ''wireguard_gargoyle'' ''client1'' [] (Str ''allowed_client'') False
        (uci_set ''network'' ''lan'' ''netmask'' (Str ''255.255.255.0'') False
         (uci_set ''network'' ''lan'' ''ipaddr'' (Str ''192.168.1.1'') False newUCIContainer))))"

definition demo_field :: "string \<Rightarrow> element" where
  "demo_field v = demo_text\<lparr>el_value := v\<rparr>"

definition demo_client_doc :: "(string \<times> element) list" where
  "demo_client_doc =
     map (\<lambda>i. (''wireguard_allowed_client_'' @ i @ ''_container'', demo_text))
       [''name'', ''pubkey'', ''privkey'', ''ip'', ''remote_custom'', ''subnet_ip'', ''subnet_mask'']
     @ map (\<lambda>(i, v). (''wireguard_allowed_client_'' @ i, demo_field v))
       [(''name'', ''Client 1''), (''pubkey'', ''k''), (''privkey'', ''k''), (''ip'', ''10.64.0.2''), (''remote_custom'', ''h''),
        (''subnet_ip'', ''192.168.2.1''), (''subnet_mask'', ''255.255.255.0'')]"

definition demo_client_page :: page where
  "demo_client_page = \<lparr>doc = map_of demo_client_doc, alerts = [], gvalue = None\<rparr>"

definition demo_wg :: wg_strings where
  "demo_wg = \<lparr>w_prfErr = ''Error in'', w_ClntIntIP = ''Client IP'', w_OSubErr = ''outside'', w_ClntNotAllow = ''not allowed'',
     w_OvlpLan = ''LAN'', w_OvlpWg = ''WG''\<rparr>"

lemma demo_clients_ips: "getDefinedAcIps ''wireguard_gargoyle'' demo_clients = [''10.255.254.254'']"
  by code_simp

theorem getUnusedAcIp_fresh_witness:
  "\<exists>s t f. getUnusedAcIp ''wireguard_gargoyle'' demo_clients (quad 10 64 0 1) = Some (quad 10 s t f) \<and> s < 255 \<and> f \<le> 254"
  using getUnusedAcIp_fresh [of 64 0 1 "''wireguard_gargoyle''" demo_clients 10] by (auto simp: demo_clients_ips)

theorem getUnusedAcIp_out_of_range_witness:
  "getUnusedAcIp ''wireguard_gargoyle'' demo_clients (quad 10 0 0 254) = Some (quad 10 0 0 255)
   \<and> getUnusedAcIp ''wireguard_gargoyle'' demo_clients (quad 10 255 254 253) = Some (quad 10 256 0 1)"
proof -
  have q: "quad 10 255 254 254 = ''10.255.254.254''" "quad 10 0 0 255 = ''10.0.0.255''" "quad 10 256 0 1 = ''10.256.0.1''"
    by code_simp+
  have "quad 10 0 0 255 \<notin> set (getDefinedAcIps ''wireguard_gargoyle'' demo_clients)"
      "quad 10 255 254 254 \<in> set (getDefinedAcIps ''wireguard_gargoyle'' demo_clients)"
      "quad 10 256 0 1 \<notin> set (getDefinedAcIps ''wireguard_gargoyle'' demo_clients)"
    unfolding demo_clients_ips q by simp_all
  then show ?thesis
    using getUnusedAcIp_out_of_range [of 10 0 0 "''wireguard_gargoyle''" demo_clients] by blast
qed

lemma demo_client_form: "client_form demo_client_page (demo_field ''192.168.2.1'') (demo_field ''255.255.255.0'')"
  unfolding client_form_def
proof (intro conjI)
  show "\<forall>r \<in> set ac_rows. row_present demo_client_page r"
    by (simp add: ac_rows_def ac_row_def row_present_def demo_client_page_def demo_client_doc_def)
qed (simp_all add: ac_row_def row_shown_def row_visible_def get_el_def demo_client_page_def demo_client_doc_def demo_text_def
      demo_field_def is_select_def)

lemma demo_octets:
  "octets ''192.168.1.1'' = Some (192, 168, 1, 1)" "octets ''192.168.2.1'' = Some (192, 168, 2, 1)"
  "octets ''10.64.0.1'' = Some (10, 64, 0, 1)" "octets ''10.64.0.2'' = Some (10, 64, 0, 2)"
  "octets ''255.255.255.0'' = Some (255, 255, 255, 0)"
  by code_simp+

lemma demo_mask: "mask_or_length ''255.255.255.0''"
proof -
  have "validateNetMask ''255.255.255.0'' = 0" by code_simp
  then show ?thesis by (simp add: mask_or_length_def mask.code_iff)
qed

lemma demo_words:
  "host_word ''192.168.1.1'' = 3232235777" "host_word ''192.168.2.1'' = 3232236033"
  "host_word ''10.64.0.1'' = 171966465" "host_word ''10.64.0.2'' = 171966466" "mask_word ''255.255.255.0'' = 4294967040"
  by (simp_all add: host_word_def mask_word_def demo_octets quad_num_def)

lemma demo_controlled:
  "wgControlledSubnets (w_OvlpLan demo_wg) (w_OvlpWg demo_wg) demo_clients ''10.64.0.1'' ''255.255.255.0'' =
     [(''192.168.1.1'', ''255.255.255.0'', ''LAN''), (''10.64.0.1'', ''255.255.255.0'', ''WG'')]"
  by code_simp

lemma toInt32_Some: "toInt32 (Some x) = word_of_int x"
  by (simp add: toInt32_def)

lemma demo_disjoint:
  "\<not> wgSubnetsOverlap (applyMask ''192.168.2.1'' ''255.255.255.0'') ''255.255.255.0'' ''192.168.1.1'' ''255.255.255.0''"
  "\<not> wgSubnetsOverlap (applyMask ''192.168.2.1'' ''255.255.255.0'') ''255.255.255.0'' ''10.64.0.1'' ''255.255.255.0''"
proof -
  have o: "octets ''192.168.2.1'' \<noteq> None" "octets ''192.168.1.1'' \<noteq> None" "octets ''10.64.0.1'' \<noteq> None" by (simp_all add: demo_octets)
  have m: "toInt32 (parseMask ''255.255.255.0'') = 4294967040" using parseMask_word [OF demo_mask] demo_words(5) by auto
  note a = applyMask_word [OF o(1) demo_mask]
  have "toInt32 (map_option int (parseIp (applyMask ''192.168.2.1'' ''255.255.255.0''))) = 3232236033 AND 4294967040"
    unfolding parseIp_host [OF a(1)] a(2) demo_words ..
  then show "\<not> wgSubnetsOverlap (applyMask ''192.168.2.1'' ''255.255.255.0'') ''255.255.255.0'' ''192.168.1.1'' ''255.255.255.0''"
      "\<not> wgSubnetsOverlap (applyMask ''192.168.2.1'' ''255.255.255.0'') ''255.255.255.0'' ''10.64.0.1'' ''255.255.255.0''"
    by (simp_all add: wgSubnetsOverlap_def js_and_def m sint_eq_iff parseIp_host o demo_words Let_def toInt32_Some)
qed

lemma demo_field_value: "get_value (demo_field v) = v" "\<not> is_select (demo_field v)"
  by (simp_all add: demo_field_def demo_text_def get_value_def is_select_def)

lemma demo_field_color: "\<not> is_select (demo_field v\<lparr>el_color := c\<rparr>)"
  by (simp add: demo_field_def demo_text_def is_select_def)

lemma demo_shown: "el_display demo_text \<noteq> ''none''"
  by (simp add: demo_text_def)

lemma demo_client_accepted:
  "\<exists>p'. validateAc demo_wg demo_clients ''10.64.0.1'' ''255.255.255.0'' demo_client_page = Inr (p', [])"
proof -
  have "(case proofreadFields (w_prfErr demo_wg) ac_rows demo_client_page of Inl e \<Rightarrow> False | Inr (q', errs) \<Rightarrow> errs = [])"
    by code_simp
  then obtain q where q: "proofreadFields (w_prfErr demo_wg) ac_rows demo_client_page = Inr (q, [])"
    by (auto split: sum.splits prod.splits)
  have "\<forall>r \<in> set ac_rows. row_present demo_client_page r" using demo_client_form by (simp add: client_form_def)
  then have same: "same_fields demo_client_page q"
    using proofread_rows_result [of ac_rows demo_client_page "w_prfErr demo_wg" "[]"] q by (auto simp: proofreadFields_def)
  have page: "get_el demo_client_page i = Inr e \<Longrightarrow> \<exists>c. get_el q i = Inr (e\<lparr>el_color := c\<rparr>)" for i e
    using same_fieldsD [OF same, of i e] by (auto simp: get_el_def split: option.splits)
  have fields: "get_el demo_client_page ''wireguard_allowed_client_ip_container'' = Inr demo_text"
      "get_el demo_client_page ''wireguard_allowed_client_ip'' = Inr (demo_field ''10.64.0.2'')"
      "get_el demo_client_page ''wireguard_allowed_client_name'' = Inr (demo_field ''Client 1'')"
      "get_el demo_client_page ''wireguard_allowed_client_subnet_ip_container'' = Inr demo_text"
      "get_el demo_client_page ''wireguard_allowed_client_subnet_ip'' = Inr (demo_field ''192.168.2.1'')"
      "get_el demo_client_page ''wireguard_allowed_client_subnet_mask'' = Inr (demo_field ''255.255.255.0'')"
    by (simp_all add: get_el_def demo_client_page_def demo_client_doc_def)
  note vals = demo_field_value demo_shown get_value_color
  have m: "toInt32 (parseMask ''255.255.255.0'') = 4294967040" using parseMask_word [OF demo_mask] demo_words(5) by auto
  have "check_internal_ip demo_wg ''10.64.0.1'' ''255.255.255.0'' q = Inr []"
    using page [OF fields(1)] page [OF fields(2)]
    by (auto simp: check_internal_ip_def vals js_and_def m sint_eq_iff parseIp_host demo_octets demo_words)
  moreover have "client_id ''Client 1'' = ''client_1''" by code_simp
  then have "check_client_name demo_wg q = Inr []"
    using page [OF fields(3)] by (auto simp: check_client_name_def vals)
  moreover have "\<exists>p'. check_client_subnet demo_wg demo_clients ''10.64.0.1'' ''255.255.255.0'' q = Inr (p', [])"
    using page [OF fields(4)] page [OF fields(5)] page [OF fields(6)] demo_disjoint
    by (auto simp: check_client_subnet_def vals upd_el_def demo_controlled get_put_text demo_field_color)
  ultimately show ?thesis using q by (auto simp: validateAc_def)
qed

theorem validateAc_no_overlap_witness:
  "\<exists>p' e' m'. validateAc demo_wg demo_clients ''10.64.0.1'' ''255.255.255.0'' demo_client_page = Inr (p', [])
    \<and> doc p' ''wireguard_allowed_client_subnet_ip'' = Some e' \<and> doc p' ''wireguard_allowed_client_subnet_mask'' = Some m'
    \<and> host_word (get_value e') = 3232236032
    \<and> subnet_members (get_value e') (get_value m') \<inter> subnet_members ''192.168.1.1'' ''255.255.255.0'' = {}"
proof -
  obtain p' where p': "validateAc demo_wg demo_clients ''10.64.0.1'' ''255.255.255.0'' demo_client_page = Inr (p', [])"
    using demo_client_accepted by blast
  have "(''192.168.1.1'', ''255.255.255.0'', ''LAN'') \<in>
      set (wgControlledSubnets (w_OvlpLan demo_wg) (w_OvlpWg demo_wg) demo_clients ''10.64.0.1'' ''255.255.255.0'')"
    unfolding demo_controlled by simp
  moreover have "octets ''192.168.1.1'' \<noteq> None" by (simp add: demo_octets)
  ultimately obtain e' m' where em: "doc p' ''wireguard_allowed_client_subnet_ip'' = Some e'" "doc p' ''wireguard_allowed_client_subnet_mask'' = Some m'"
      "host_word (get_value e') = host_word (get_value (demo_field ''192.168.2.1'')) AND mask_word (get_value (demo_field ''255.255.255.0''))"
      "subnet_members (get_value e') (get_value m') \<inter> subnet_members ''192.168.1.1'' ''255.255.255.0'' = {}"
    using validateAc_no_overlap [OF p' demo_client_form _ _ demo_mask] by blast
  have "host_word (get_value e') = 3232236032" unfolding em(3) demo_field_value demo_words by simp
  then show ?thesis using p' em by blast
qed

theorem checkSubnetConflict_same_network_witness:
  "checkSubnetConflict ([], []) (''10.8.0.1'', ''24'') newUCIContainer [] ''10.8.0.9'' ''24''
    \<and> (\<exists>(i, k) \<in> set (known_subnets ([], []) (''10.8.0.1'', ''24'') newUCIContainer []).
         subnet_members ''10.8.0.9'' ''24'' \<inter> subnet_members i k \<noteq> {})"
proof -
  have k: "known_subnets ([], []) (''10.8.0.1'', ''24'') newUCIContainer [] = [(''10.8.0.1'', ''24'')]" by code_simp
  have "octets ''10.8.0.1'' = Some (10, 8, 0, 1)" "octets ''10.8.0.9'' = Some (10, 8, 0, 9)" "number_in 1 32 ''24''" by code_simp+
  moreover have "checkSubnetConflict ([], []) (''10.8.0.1'', ''24'') newUCIContainer [] ''10.8.0.9'' ''24''" by code_simp
  ultimately show ?thesis
    using checkSubnetConflict_same_network [of "''10.8.0.9''" "''24''" "([], [])" "(''10.8.0.1'', ''24'')" newUCIContainer "[]"]
    by (simp add: k mask_or_length_def)
qed

end
