(* ===== verification/Port_Conflicts.thy ===== *)
theory Port_Conflicts
  imports Uci_Container Validators
begin

text \<open>
  The ports the router uses itself, and the test whether a port or a range of ports is free
  (\<open>getUhttpServerPort\<close>, \<open>getUsedPorts\<close>, \<open>checkForPortConflict\<close> of \<open>common.js\<close>). Shown: on ports and ranges
  written with digits the test reports a definition exactly when it shares a port with it; the ports of
  the web and secure shell servers and of remote access are among the definitions, those of port
  forwards never are.
\<close>

section \<open>The ports in use\<close>

text \<open>\<open>listenDef.replace(/^.*:/, "")\<close>: what follows the last colon.\<close>

definition after_colon :: "string \<Rightarrow> string" where
  "after_colon s = last (split_on CHR '':'' s)"

text \<open>A plain value is walked through by its characters, of which none is an address with a port.\<close>

definition getUhttpServerPort :: "bool \<Rightarrow> string \<Rightarrow> uci \<Rightarrow> string" where
  "getUhttpServerPort isHttps serverName uciData =
     (let portList = (case uci_get uciData ''uhttpd'' serverName (if isHttps then ''listen_https'' else ''listen_http'') of
                        Lst xs \<Rightarrow> xs | Str s \<Rightarrow> map (\<lambda>c. [c]) s)
      in fold (\<lambda>listenDef port. if prefix ''0.0.0.0:'' listenDef then after_colon listenDef else port) portList [])"

definition getHttpsPort :: "uci \<Rightarrow> string" where "getHttpsPort u = getUhttpServerPort True ''main'' u"
definition getHttpPort :: "uci \<Rightarrow> string" where "getHttpPort u = getUhttpServerPort False ''main'' u"

record port_strings =
  u_sprt :: string
  u_wsprt :: string
  u_prdr :: string
  u_puse :: string
  u_pfwd :: string

text \<open>A definition: a port or a range, the protocol, and what uses it.\<close>

record port_def =
  pd_port :: string
  pd_proto :: string
  pd_use :: string

text \<open>The definitions so far and the pairs of protocol and port of the table \<open>foundPorts\<close>.\<close>

type_synonym ports_state = "port_def list \<times> (string \<times> string) list"

definition own_ports :: "port_strings \<Rightarrow> uci \<Rightarrow> ports_state" where
  "own_ports us u =
     (let sshPort = val_string (uci_get u ''dropbear''
                      (case getAllSections u ''dropbear'' of [] \<Rightarrow> ''undefined'' | s # _ \<Rightarrow> s) ''Port'');
          httpPort = getHttpPort u; httpsPort = getHttpsPort u;
          web = filter (\<lambda>p. p \<noteq> []) [httpPort, httpsPort]
      in (\<lparr>pd_port = sshPort, pd_proto = ''tcp'', pd_use = u_sprt us\<rparr>
            # map (\<lambda>p. \<lparr>pd_port = p, pd_proto = ''tcp'', pd_use = u_wsprt us\<rparr>) web,
          map (\<lambda>p. (''tcp'', p)) (sshPort # web)))"

text \<open>A text method on a list value raises a \<open>TypeError\<close>.\<close>

definition lower_option :: "uci_val \<Rightarrow> string js_result" where
  "lower_option v = (case v of Str s \<Rightarrow> Inr (map lower_char s) | Lst _ \<Rightarrow> Inl TypeError)"

definition proto_list :: "string \<Rightarrow> string list" where
  "proto_list proto = (if proto = [] \<or> proto = ''tcpudp'' then [''tcp'', ''udp''] else [proto])"

text \<open>One protocol of a section with a local port; \<open>foundPorts\<close> has the tables \<open>tcp\<close> and \<open>udp\<close> only.\<close>

definition redirect_port :: "port_strings \<Rightarrow> string \<Rightarrow> string \<Rightarrow> string \<Rightarrow> ports_state \<Rightarrow> ports_state js_result" where
  "redirect_port us localPort remotePort nextProto = (\<lambda>(portDefs, foundPorts).
     if nextProto \<noteq> ''tcp'' \<and> nextProto \<noteq> ''udp'' then Inl TypeError
     else if (nextProto, remotePort) \<in> set foundPorts then Inr (portDefs, foundPorts)
     else
       let defs1 = portDefs @ [\<lparr>pd_port = remotePort, pd_proto = nextProto, pd_use = u_prdr us\<rparr>];
           found1 = foundPorts @ [(nextProto, remotePort)]
       in Inr (if (nextProto, localPort) \<in> set found1 then (defs1, found1)
               else (defs1 @ [\<lparr>pd_port = localPort, pd_proto = nextProto, pd_use = u_puse us\<rparr>],
                     found1 @ [(nextProto, localPort)])))"

text \<open>
  One \<open>remote_accept\<close> section. The loop over \<open>portDefs\<close> in the source reads \<open>defIndex[0]\<close>, a property of a
  number, which is \<open>undefined\<close> and equal to no text, so that its body is never run.
\<close>

definition accept_step :: "port_strings \<Rightarrow> uci \<Rightarrow> string \<Rightarrow> ports_state \<Rightarrow> ports_state js_result" where
  "accept_step us u section = (\<lambda>(portDefs, foundPorts).
     let opt = (\<lambda>name. val_string (uci_get u ''firewall'' section name));
         localPort = opt ''local_port''; startPort = opt ''start_port''; endPort = opt ''end_port'';
         remotePort = (if opt ''remote_port'' = [] then localPort else opt ''remote_port'')
     in res_bind (lower_option (uci_get u ''firewall'' section ''proto'')) (\<lambda>proto.
        res_bind (lower_option (uci_get u ''firewall'' section ''zone'')) (\<lambda>zone.
          if zone \<noteq> ''wan'' \<and> zone \<noteq> [] then Inr (portDefs, foundPorts)
          else if localPort \<noteq> [] then fold_res (redirect_port us localPort remotePort) (proto_list proto) (portDefs, foundPorts)
          else if startPort \<noteq> [] \<and> endPort \<noteq> []
          then Inr (portDefs @ map (\<lambda>nextProto. \<lparr>pd_port = startPort @ ''-'' @ endPort, pd_proto = nextProto, pd_use = u_prdr us\<rparr>)
                      (proto_list proto), foundPorts)
          else Inr (portDefs, foundPorts))))"

text \<open>
  The \<open>redirect\<close> sections. The loop reads \<open>remoteAcceptSections[acceptIndex]\<close> with the index the loop before
  it ended with: the section is \<open>undefined\<close>, and its options are those of a section of that name.
\<close>

definition redirect_step :: "port_strings \<Rightarrow> uci \<Rightarrow> string \<Rightarrow> port_def list \<Rightarrow> port_def list js_result" where
  "redirect_step us u _ portDefs =
     (let get = uci_get u ''firewall'' ''undefined''
      in res_bind (lower_option (get ''proto'')) (\<lambda>proto.
         res_bind (lower_option (get ''src'')) (\<lambda>_.
         res_bind (lower_option (get ''dest'')) (\<lambda>_.
           Inr (portDefs @ [\<lparr>pd_port = val_string (get ''remote_port''), pd_proto = proto,
                             pd_use = u_pfwd us @ '' '' @ val_string (get ''dest_ip'')\<rparr>])))))"

definition getUsedPorts :: "port_strings \<Rightarrow> uci \<Rightarrow> port_def list js_result" where
  "getUsedPorts us u =
     res_bind (fold_res (accept_step us u) (getAllSectionsOfType u ''firewall'' ''remote_accept'') (own_ports us u)) (\<lambda>(portDefs, _).
       fold_res (redirect_step us u) (getAllSectionsOfType u ''firewall'' ''redirect'') portDefs)"

section \<open>The conflict test\<close>

definition eq_num :: "int option \<Rightarrow> int option \<Rightarrow> bool" where
  "eq_num x y = (x \<noteq> None \<and> x = y)"

text \<open>The port asked for: a number, or the two ends of a range.\<close>

datatype port_query = PortNumber "int option" | PortRange "int option" "int option"

definition range_end :: "string \<Rightarrow> nat \<Rightarrow> int option" where
  "range_end s i = js_parseInt (split_on CHR ''-'' s ! i)"

definition port_query :: "string \<Rightarrow> port_query" where
  "port_query port =
     (if CHR ''-'' \<in> set port then PortRange (range_end port 0) (range_end port 1) else PortNumber (js_parseInt port))"

definition meets_range :: "port_query \<Rightarrow> string \<Rightarrow> bool" where
  "meets_range q r =
     (case q of
        PortNumber port \<Rightarrow> le_num (range_end r 0) port \<and> le_num port (range_end r 1)
      | PortRange portStart portEnd \<Rightarrow> le_num portStart (range_end r 1) \<and> le_num (range_end r 0) portEnd)"

definition meets_port :: "port_query \<Rightarrow> string \<Rightarrow> bool" where
  "meets_port q portStr =
     (case q of
        PortNumber port \<Rightarrow> eq_num port (js_parseInt portStr)
      | PortRange portStart portEnd \<Rightarrow> le_num portStart (js_parseInt portStr) \<and> le_num (js_parseInt portStr) portEnd)"

definition meets_def :: "port_query \<Rightarrow> string \<Rightarrow> bool" where
  "meets_def q portStr = (if CHR ''-'' \<in> set portStr then meets_range q portStr else meets_port q portStr)"

text \<open>
  The ports to ignore: for each protocol the properties of its table. A protocol other than \<open>tcp\<close> and
  \<open>udp\<close> without a table raises a \<open>TypeError\<close>.
\<close>

definition port_ignored :: "string \<Rightarrow> string \<Rightarrow> (string \<rightharpoonup> string list) \<Rightarrow> bool js_result" where
  "port_ignored port proto ignorePorts =
     (let tables = (\<lambda>p. case ignorePorts p of
                          Some ps \<Rightarrow> Some ps | None \<Rightarrow> if p = ''tcp'' \<or> p = ''udp'' then Some [] else None);
          q = port_query port;
          key = (case q of PortNumber n \<Rightarrow> num_print n | PortRange _ _ \<Rightarrow> port)
      in case tables proto of
           None \<Rightarrow> Inl TypeError
         | Some ps \<Rightarrow> Inr (key \<in> set ps \<or> list_ex (\<lambda>r. CHR ''-'' \<in> set r \<and> meets_range q r) ps))"

definition conflict_use :: "port_query \<Rightarrow> string \<Rightarrow> port_def \<Rightarrow> string \<Rightarrow> string" where
  "conflict_use q proto d portConflict =
     (if portConflict = [] \<and> proto = pd_proto d \<and> meets_def q (pd_port d) then pd_use d else portConflict)"

definition checkForPortConflict ::
    "port_strings \<Rightarrow> uci \<Rightarrow> string \<Rightarrow> string \<Rightarrow> (string \<rightharpoonup> string list) option \<Rightarrow> string js_result" where
  "checkForPortConflict us u port proto ignorePorts =
     res_bind (case ignorePorts of None \<Rightarrow> Inr False | Some ig \<Rightarrow> port_ignored port proto ig) (\<lambda>ignored.
       if ignored then Inr []
       else res_bind (getUsedPorts us u) (\<lambda>usedPorts.
              Inr (fold (conflict_use (port_query port) proto) usedPorts [])))"

section \<open>Ports as sets\<close>

definition port_text :: "string \<Rightarrow> bool" where
  "port_text s \<longleftrightarrow> number_text s \<or>
     (\<exists>a b. s = a @ ''-'' @ b \<and> number_text a \<and> number_text b \<and> dec_val a \<le> dec_val b)"

definition port_set :: "string \<Rightarrow> nat set" where
  "port_set s = (case split_on CHR ''-'' s of
                   [a] \<Rightarrow> if number_text a then {dec_val a} else {}
                 | a # b # _ \<Rightarrow> {dec_val a .. dec_val b}
                 | [] \<Rightarrow> {})"

lemma number_no_dash: "number_text s \<Longrightarrow> CHR ''-'' \<notin> set s"
  by (auto simp: number_text_def list_all_iff is_digit_def)

lemma port_text_cases:
  assumes "port_text s"
  obtains (one) "number_text s" "CHR ''-'' \<notin> set s" "port_set s = {dec_val s}" "js_parseInt s = Some (int (dec_val s))"
  | (two) a b where "CHR ''-'' \<in> set s" "dec_val a \<le> dec_val b" "port_set s = {dec_val a .. dec_val b}"
      "range_end s 0 = Some (int (dec_val a))" "range_end s 1 = Some (int (dec_val b))"
proof -
  have "thesis" if "number_text s"
    using that one number_no_dash [OF that] js_parseInt_digits [of s] by (simp add: port_set_def number_text_def)
  moreover have "thesis" if s: "s = a @ ''-'' @ b" "number_text a" "number_text b" "dec_val a \<le> dec_val b" for a b
  proof -
    have "split_on CHR ''-'' s = [a, b]"
      using number_no_dash [OF s(2)] number_no_dash [OF s(3)] by (simp add: s(1) split_on_append_sep)
    then show thesis
      using s two [of a b] js_parseInt_digits [of a] js_parseInt_digits [of b]
      by (simp add: port_set_def range_end_def number_text_def)
  qed
  ultimately show thesis using assms unfolding port_text_def by blast
qed

lemma meets_def_iff:
  assumes "port_text port" "p = [] \<or> port_text p"
  shows "meets_def (port_query port) p \<longleftrightarrow> port_set port \<inter> port_set p \<noteq> {}"
proof (cases "p = []")
  case True
  have "js_parseInt [] = None" by (simp add: js_parseInt_def)
  then show ?thesis
    using True by (cases "port_query port") (auto simp: meets_def_def meets_port_def le_num_def eq_num_def port_set_def number_text_def split: option.splits)
next
  case False
  then have p: "port_text p" using assms(2) by simp
  show ?thesis
    by (rule port_text_cases [OF assms(1)]; rule port_text_cases [OF p])
      (auto simp: port_query_def meets_def_def meets_port_def meets_range_def le_num_def eq_num_def)
qed

lemma conflict_fold_done: "c \<noteq> [] \<Longrightarrow> fold (conflict_use q proto) ds c = c"
  by (induction ds) (simp_all add: conflict_use_def)

lemma conflict_fold_iff:
  assumes "list_all (\<lambda>d. pd_use d \<noteq> []) ds"
  shows "fold (conflict_use q proto) ds [] =
    (case filter (\<lambda>d. pd_proto d = proto \<and> meets_def q (pd_port d)) ds of [] \<Rightarrow> [] | d # _ \<Rightarrow> pd_use d)"
  using assms by (induction ds) (auto simp: conflict_use_def conflict_fold_done)

section \<open>Theorems\<close>

text \<open>
  C12. On a port or a range written with digits, \<open>checkForPortConflict\<close> without ports to ignore reports a use
  exactly when some definition of the protocol shares a port with it, and what it reports is the use of
  such a definition; the definitions may have no port, but not other texts.
\<close>

theorem checkForPortConflict_iff:
  assumes "port_text port" "getUsedPorts us u = Inr ds"
    and "list_all (\<lambda>d. (pd_port d = [] \<or> port_text (pd_port d)) \<and> pd_use d \<noteq> []) ds"
  shows "\<exists>c. checkForPortConflict us u port proto None = Inr c
    \<and> (c \<noteq> [] \<longleftrightarrow> (\<exists>d \<in> set ds. pd_proto d = proto \<and> port_set port \<inter> port_set (pd_port d) \<noteq> {}))
    \<and> (c \<noteq> [] \<longrightarrow> (\<exists>d \<in> set ds. pd_use d = c \<and> pd_proto d = proto \<and> port_set port \<inter> port_set (pd_port d) \<noteq> {}))"
proof -
  let ?c = "fold (conflict_use (port_query port) proto) ds []"
  let ?hits = "filter (\<lambda>d. pd_proto d = proto \<and> meets_def (port_query port) (pd_port d)) ds"
  have c: "?c = (case ?hits of [] \<Rightarrow> [] | d # _ \<Rightarrow> pd_use d)"
    using assms(3) by (intro conflict_fold_iff) (auto simp: list_all_iff)
  have meets: "meets_def (port_query port) (pd_port d) \<longleftrightarrow> port_set port \<inter> port_set (pd_port d) \<noteq> {}" if "d \<in> set ds" for d
    using assms(1,3) that by (intro meets_def_iff) (auto simp: list_all_iff)
  have hits: "d \<in> set ?hits \<longleftrightarrow> d \<in> set ds \<and> pd_proto d = proto \<and> port_set port \<inter> port_set (pd_port d) \<noteq> {}" for d
    using meets by auto
  have "checkForPortConflict us u port proto None = Inr ?c"
    by (simp add: checkForPortConflict_def assms(2))
  moreover have "?c \<noteq> [] \<longleftrightarrow> (\<exists>d \<in> set ds. pd_proto d = proto \<and> port_set port \<inter> port_set (pd_port d) \<noteq> {})"
  proof (cases ?hits)
    case Nil
    then show ?thesis using hits c by (metis empty_iff empty_set list.simps(4))
  next
    case (Cons d rest)
    then have "d \<in> set ds" using hits [of d] by simp
    then show ?thesis using Cons hits [of d] c assms(3) by (auto simp: list_all_iff)
  qed
  moreover have "\<exists>d \<in> set ds. pd_use d = ?c \<and> pd_proto d = proto \<and> port_set port \<inter> port_set (pd_port d) \<noteq> {}" if "?c \<noteq> []"
  proof (cases ?hits)
    case Nil
    then show ?thesis using that c by simp
  next
    case (Cons d rest)
    then have "?c = pd_use d" "d \<in> set ?hits" using c by simp_all
    then show ?thesis using hits [of d] by auto
  qed
  ultimately show ?thesis by blast
qed

text \<open>The \<open>redirect\<close> sections give definitions without port and protocol.\<close>

lemma redirect_fold:
  assumes "\<And>name. name \<noteq> [] \<Longrightarrow> uvals u (uci_key ''firewall'' ''undefined'' name) = None"
  shows "fold_res (redirect_step us u) secs ds =
    Inr (ds @ replicate (length secs) \<lparr>pd_port = [], pd_proto = [], pd_use = u_pfwd us @ '' ''\<rparr>)"
proof (induction secs arbitrary: ds)
  case Nil
  then show ?case by simp
next
  case (Cons s secs)
  have get: "name \<noteq> [] \<Longrightarrow> uci_get u ''firewall'' ''undefined'' name = Str []" for name using assms [of name] by (simp add: uci_get_def)
  have "redirect_step us u s ds = Inr (ds @ [\<lparr>pd_port = [], pd_proto = [], pd_use = u_pfwd us @ '' ''\<rparr>])"
    by (simp add: redirect_step_def get lower_option_def)
  with Cons.IH show ?case by simp
qed

lemma conflict_fold_other_proto:
  assumes "list_all (\<lambda>d. pd_proto d \<noteq> proto) ds"
  shows "fold (conflict_use q proto) ds c = c"
  using assms by (induction ds) (auto simp: conflict_use_def)

text \<open>
  C37. Forwarded ports are never reported: in a configuration without a section named \<open>undefined\<close> the answer
  for a protocol depends on the router's own ports and the \<open>remote_accept\<close> sections only, whatever
  \<open>redirect\<close> sections there are.
\<close>

theorem port_forwards_not_checked:
  assumes "\<forall>name. name \<noteq> [] \<longrightarrow> uvals u (uci_key ''firewall'' ''undefined'' name) = None" "proto \<noteq> []"
    and "fold_res (accept_step us u) (getAllSectionsOfType u ''firewall'' ''remote_accept'') (own_ports us u) = Inr (ds, found)"
  shows "checkForPortConflict us u port proto None = Inr (fold (conflict_use (port_query port) proto) ds [])"
proof -
  let ?r = "replicate (length (getAllSectionsOfType u ''firewall'' ''redirect'')) \<lparr>pd_port = [], pd_proto = [], pd_use = u_pfwd us @ '' ''\<rparr>"
  have "getUsedPorts us u = Inr (ds @ ?r)"
    using assms(1) by (simp add: getUsedPorts_def assms(3) redirect_fold)
  moreover have "fold (conflict_use (port_query port) proto) ?r c = c" for c
    using assms(2) by (intro conflict_fold_other_proto) (auto simp: list_all_iff)
  ultimately show ?thesis by (simp add: checkForPortConflict_def)
qed

section \<open>A small configuration\<close>

text \<open>The web server on 80, secure shell on 22, remote access from 2222 to 22, and a port forward on 8080.\<close>

definition demo_ports :: uci where
  "demo_ports =
     uci_set ''firewall'' ''fwd'' ''proto'' (Str ''tcp'') False
      (uci_set ''firewall'' ''fwd'' ''src_dport'' (Str ''8080'') False
       (uci_set ''firewall'' ''fwd'' [] (Str ''redirect'') False
        (uci_set ''firewall'' ''ra'' ''remote_port'' (Str ''2222'') False
         (uci_set ''firewall'' ''ra'' ''local_port'' (Str ''22'') False
          (uci_set ''firewall'' ''ra'' ''proto'' (Str ''tcp'') False
           (uci_set ''firewall'' ''ra'' [] (Str ''remote_accept'') False
            (uci_set ''uhttpd'' ''main'' ''listen_http'' (Lst [''0.0.0.0:80'', ''[::]:80'']) False
             (uci_set ''dropbear'' ''d'' ''Port'' (Str ''22'') False
              (uci_set ''dropbear'' ''d'' [] (Str ''dropbear'') False newUCIContainer)))))))))"

definition demo_port_strings :: port_strings where
  "demo_port_strings = \<lparr>u_sprt = ''ssh'', u_wsprt = ''web'', u_prdr = ''redirected'', u_puse = ''in use'', u_pfwd = ''forwarded to''\<rparr>"

lemma demo_used_ports:
  "getUsedPorts demo_port_strings demo_ports = Inr
     [\<lparr>pd_port = ''22'', pd_proto = ''tcp'', pd_use = ''ssh''\<rparr>, \<lparr>pd_port = ''80'', pd_proto = ''tcp'', pd_use = ''web''\<rparr>,
      \<lparr>pd_port = ''2222'', pd_proto = ''tcp'', pd_use = ''redirected''\<rparr>, \<lparr>pd_port = [], pd_proto = [], pd_use = ''forwarded to ''\<rparr>]"
  by code_simp

theorem checkForPortConflict_iff_witness:
  "\<exists>c. checkForPortConflict demo_port_strings demo_ports ''2000-3000'' ''tcp'' None = Inr c \<and> c \<noteq> []"
proof -
  have n: "number_text ''2222''" "number_text ''80''" "number_text ''22''" "number_text ''2000''" "number_text ''3000''" by code_simp+
  have v: "dec_val ''2222'' = 2222" "dec_val ''2000'' = 2000" "dec_val ''3000'' = 3000"
    by (simp_all add: base_val_def digit_val_def)
  have "port_text (''2000'' @ ''-'' @ ''3000'')" unfolding port_text_def using n v by fastforce
  moreover have "port_set ''2222'' = {2222}" "port_set ''2000-3000'' = {2000 .. 3000}" using n v by (simp_all add: port_set_def)
  ultimately show ?thesis
    using checkForPortConflict_iff [OF _ demo_used_ports, of "''2000-3000''" "''tcp''"] n by (auto simp: port_text_def)
qed

theorem port_forwards_not_checked_witness:
  "checkForPortConflict demo_port_strings demo_ports ''8080'' ''tcp'' None = Inr []
    \<and> val_string (uci_get demo_ports ''firewall'' ''fwd'' ''src_dport'') = ''8080''"
proof -
  let ?ds = "[\<lparr>pd_port = ''22'', pd_proto = ''tcp'', pd_use = ''ssh''\<rparr>, \<lparr>pd_port = ''80'', pd_proto = ''tcp'', pd_use = ''web''\<rparr>,
      \<lparr>pd_port = ''2222'', pd_proto = ''tcp'', pd_use = ''redirected''\<rparr>]"
  have "fold_res (accept_step demo_port_strings demo_ports) (getAllSectionsOfType demo_ports ''firewall'' ''remote_accept'')
      (own_ports demo_port_strings demo_ports) = Inr (?ds, [(''tcp'', ''22''), (''tcp'', ''80''), (''tcp'', ''2222'')])"
    by code_simp
  moreover have "\<forall>name. name \<noteq> [] \<longrightarrow> uvals demo_ports (uci_key ''firewall'' ''undefined'' name) = None"
    by (simp add: demo_ports_def uci_set_def uvals_set_key newUCIContainer_def uci_key_def)
  ultimately have "checkForPortConflict demo_port_strings demo_ports ''8080'' ''tcp'' None =
      Inr (fold (conflict_use (port_query ''8080'') ''tcp'') ?ds [])"
    by (intro port_forwards_not_checked) auto
  moreover have "js_parseInt ''8080'' = Some 8080" "js_parseInt ''22'' = Some 22" "js_parseInt ''80'' = Some 80" "js_parseInt ''2222'' = Some 2222"
    by (simp_all add: js_parseInt_digits is_digit_def base_val_def digit_val_def)
  moreover have "val_string (uci_get demo_ports ''firewall'' ''fwd'' ''src_dport'') = ''8080''" by code_simp
  ultimately show ?thesis by (simp add: conflict_use_def port_query_def meets_def_def meets_port_def eq_num_def)
qed

end
