(* ===== verification/Page_Tables.thy ===== *)
theory Page_Tables
  imports Page_Dom Uci_Container
begin

text \<open>
  What the pages with an editable table share: cells and rows, the checks of a form for a new or edited
  row, and the interface \<open>conflict_table\<close> of a table no two rows of which clash. An edited row is named by
  its position.
\<close>

section \<open>Cells and forms\<close>

definition LF :: char where "LF = CHR 0x0A"

text \<open>A cell made from a text shows its first line as its first node.\<close>

definition cell_text :: "string \<Rightarrow> string" where
  "cell_text s = hd (split_on LF s)"

text \<open>
  An option where only a text will do: an array has no method of a text, and is not a node that a table
  cell could hold.
\<close>

definition text_value :: "uci_val \<Rightarrow> string js_result" where
  "text_value v = (case v of Str s \<Rightarrow> Inr s | Lst _ \<Rightarrow> Inl TypeError)"

definition own_row :: "string \<Rightarrow> string \<Rightarrow> (string \<Rightarrow> nat) \<Rightarrow> proof_row" where
  "own_row input label f = \<lparr>pr_input = input, pr_label = label, pr_function = f, pr_valid = 0, pr_visibility = Some input\<rparr>"

text \<open>The rows of a table but the one that is edited.\<close>

definition other_rows :: "nat option \<Rightarrow> 'r list \<Rightarrow> 'r list" where
  "other_rows excludeRow rows = map snd (filter (\<lambda>(i, _). Some i \<noteq> excludeRow) (enumerate 0 rows))"

text \<open>The value of a field, a dash when it is blank; a text field is cleared.\<close>

definition dash :: "string \<Rightarrow> string" where
  "dash v = (if v = [] then ''-'' else v)"

definition take_value :: "string \<Rightarrow> page \<times> string list \<Rightarrow> (page \<times> string list) js_result" where
  "take_value i = (\<lambda>(p, values).
     res_bind (get_el p i) (\<lambda>e.
       Inr (if el_type e = ''text'' then set_el i (put_value [] e) p else p, values @ [dash (get_value e)])))"

definition report :: "string list \<Rightarrow> string \<Rightarrow> page \<Rightarrow> page" where
  "report errors msg p = alert (join [LF] errors @ msg) p"

definition field_text :: "page \<Rightarrow> string \<Rightarrow> string js_result" where
  "field_text p i = res_bind (get_el p i) (\<lambda>e. Inr (get_value e))"

section \<open>Tables without clashes\<close>

text \<open>
  What a table of rules promises: with a symmetric relation of clashing, no two of its rows clash. A row
  may be added, replaced, or merged with a new one, under the conditions the checks establish.
\<close>

locale conflict_table =
  fixes clash :: "'r \<Rightarrow> 'r \<Rightarrow> bool"
  assumes clash_sym: "clash r s \<Longrightarrow> clash s r"
begin

definition clear_of :: "'r \<Rightarrow> 'r list \<Rightarrow> bool" where
  "clear_of r rs \<longleftrightarrow> (\<forall>s \<in> set rs. \<not> clash r s)"

definition conflict_free :: "'r list \<Rightarrow> bool" where
  "conflict_free rs \<longleftrightarrow> sorted_wrt (\<lambda>r s. \<not> clash r s) rs"

lemma conflict_free_simps [simp]:
  "conflict_free []"
  "conflict_free (r # rs) \<longleftrightarrow> clear_of r rs \<and> conflict_free rs"
  by (auto simp: conflict_free_def clear_of_def)

lemma conflict_free_append:
  "conflict_free (rs @ ss) \<longleftrightarrow> conflict_free rs \<and> conflict_free ss \<and> (\<forall>r \<in> set rs. clear_of r ss)"
  by (auto simp: conflict_free_def clear_of_def sorted_wrt_append)

lemma conflict_free_insert: "conflict_free (rs @ ss) \<Longrightarrow> clear_of r (rs @ ss) \<Longrightarrow> conflict_free (rs @ r # ss)"
  using clash_sym by (fastforce simp: conflict_free_append clear_of_def)

lemma conflict_free_update:
  assumes "conflict_free rs" "i < length rs" "clear_of r (take i rs @ drop (Suc i) rs)"
  shows "conflict_free (rs[i := r])"
proof -
  have "conflict_free (take i rs @ rs ! i # drop (Suc i) rs)" using assms(1,2) by (simp add: Cons_nth_drop_Suc)
  then have "conflict_free (take i rs @ drop (Suc i) rs)" by (simp add: conflict_free_append clear_of_def)
  then show ?thesis using assms(2,3) conflict_free_insert by (simp add: upd_conv_take_nth_drop)
qed

lemma conflict_free_remove: "conflict_free rs \<Longrightarrow> conflict_free (take i rs @ drop (Suc i) rs)"
  by (cases "i < length rs")
    (use conflict_free_append [of "take i rs" "rs ! i # drop (Suc i) rs"] id_take_nth_drop [of i rs] in
      \<open>auto simp: conflict_free_append clear_of_def simp del: append_take_drop_id\<close>)

lemma conflict_free_merge:
  assumes "conflict_free (map h xs)" "clear_of r (map h xs)"
    and grow: "\<And>x y. x \<in> set xs \<Longrightarrow> y \<in> set xs \<Longrightarrow> P x \<Longrightarrow> clash (h (f x)) (h y) \<Longrightarrow> clash (h x) (h y) \<or> clash r (h y)"
    and once: "\<And>x y. x \<in> set xs \<Longrightarrow> y \<in> set xs \<Longrightarrow> P x \<Longrightarrow> P y \<Longrightarrow> clash (h x) (h y)"
  shows "conflict_free (map h (map (\<lambda>x. if P x then f x else x) xs))"
  using assms
proof (induction xs)
  case Nil
  then show ?case by simp
next
  case (Cons x xs)
  let ?g = "\<lambda>x. if P x then f x else x"
  have "\<not> clash (h (?g x)) (h (?g y))" if y: "y \<in> set xs" for y
  proof -
    have n: "\<not> clash (h x) (h y)" "\<not> clash r (h y)" "\<not> clash r (h x)" using Cons.prems(1,2) y by (auto simp: clear_of_def)
    then have "\<not> clash (h y) (h x)" using clash_sym by blast
    then have "P x \<Longrightarrow> \<not> clash (h (f x)) (h y)" "P y \<Longrightarrow> \<not> clash (h (f y)) (h x)" "\<not> (P x \<and> P y)"
      using Cons.prems(3) [of x y] Cons.prems(3) [of y x] Cons.prems(4) [of x y] y n by auto
    then show ?thesis using n(1) clash_sym [of "h x" "h (f y)"] by (cases "P x"; cases "P y") auto
  qed
  then have "clear_of (h (?g x)) (map h (map ?g xs))" unfolding clear_of_def set_map by blast
  moreover have "conflict_free (map h (map ?g xs))"
  proof (rule Cons.IH)
    show "conflict_free (map h xs)" "clear_of r (map h xs)" using Cons.prems(1,2) by (simp_all add: clear_of_def)
    show "clash (h (f a)) (h b) \<Longrightarrow> clash (h a) (h b) \<or> clash r (h b)" if "a \<in> set xs" "b \<in> set xs" "P a" for a b
      using Cons.prems(3) [of a b] that by simp
    show "clash (h a) (h b)" if "a \<in> set xs" "b \<in> set xs" "P a" "P b" for a b
      using Cons.prems(4) [of a b] that by simp
  qed
  ultimately show ?case by simp
qed

end

section \<open>Forms that are checked\<close>

abbreviation val_at :: "page \<Rightarrow> string \<Rightarrow> string" where
  "val_at p i \<equiv> get_value (the (doc p i))"

definition ready :: "page \<Rightarrow> string \<Rightarrow> bool" where
  "ready p i \<longleftrightarrow> (\<exists>e. doc p i = Some e \<and> el_display e \<noteq> ''none'' \<and> \<not> el_disabled e)"

lemma own_row_facts:
  "ready p i \<Longrightarrow> row_shown p (own_row i l f)"
  "doc p i \<noteq> None \<Longrightarrow> row_present p (own_row i l f)"
  "doc p i \<noteq> None \<Longrightarrow> row_ok p (own_row i l f) \<longleftrightarrow> f (val_at p i) = 0"
  by (auto simp: ready_def row_shown_def row_visible_def own_row_def row_present_def row_ok_def get_el_def)

lemma same_fields_val: "same_fields p q \<Longrightarrow> doc p i \<noteq> None \<Longrightarrow> doc q i \<noteq> None \<and> val_at q i = val_at p i"
  by (auto dest!: same_fieldsD)

lemma get_el_val: "get_el p i = Inr e \<Longrightarrow> doc p i \<noteq> None \<and> get_value e = val_at p i"
  by (auto simp: get_el_def split: option.splits)

lemma proofread_checked:
  assumes "proofreadFields err rows p = Inr (p1, [])" "\<forall>r \<in> set rows. row_present p r"
  shows "same_fields p p1" "r \<in> set rows \<Longrightarrow> row_shown p r \<Longrightarrow> row_ok p r"
  using proofread_rows_result [OF assms(2), of err "[]"] assms(1) by (auto simp: proofreadFields_def)

lemma take_value_apply:
  "take_value i (p, vs) = res_bind (get_el p i) (\<lambda>e.
     Inr (if el_type e = ''text'' then set_el i (put_value [] e) p else p, vs @ [dash (get_value e)]))"
  by (simp add: take_value_def)

lemma take_values:
  assumes "fold_res take_value ids (p, vs) = Inr (p2, vs')" "distinct ids"
  shows "vs' = vs @ map (\<lambda>i. dash (val_at p i)) ids"
  using assms
proof (induction ids arbitrary: p vs)
  case Nil
  then show ?case by simp
next
  case (Cons i ids)
  then obtain e where e: "get_el p i = Inr e"
      "fold_res take_value ids (if el_type e = ''text'' then set_el i (put_value [] e) p else p, vs @ [dash (get_value e)]) = Inr (p2, vs')"
    by (auto simp: take_value_apply res_bind_Inr_iff)
  have "val_at (if el_type e = ''text'' then set_el i (put_value [] e) p else p) j = val_at p j" if "j \<in> set ids" for j
    using that Cons.prems(2) by (auto simp: set_el_def)
  then have "vs' = (vs @ [dash (get_value e)]) @ map (\<lambda>i. dash (val_at p i)) ids"
    using Cons.IH [OF e(2)] Cons.prems(2) by (auto cong: map_cong)
  then show ?case using get_el_val [OF e(1)] by simp
qed

lemma ready_doc: "ready p i \<Longrightarrow> doc p i \<noteq> None"
  by (auto simp: ready_def)

lemma other_rows_eq:
  "other_rows None rows = rows"
  "i < length rows \<Longrightarrow> other_rows (Some i) rows = take i rows @ drop (Suc i) rows"
proof -
  have all: "map snd (filter (\<lambda>(j, _). Some j \<noteq> ex) (enumerate n xs)) = xs"
    if "\<And>j. n \<le> j \<Longrightarrow> j < n + length xs \<Longrightarrow> ex \<noteq> Some j" for ex n and xs :: "'a list"
    using that
  proof (induction xs arbitrary: n)
    case Nil
    then show ?case by simp
  next
    case (Cons x xs)
    have "ex \<noteq> Some n" using Cons.prems [of n] by simp
    moreover have "map snd (filter (\<lambda>(j, _). Some j \<noteq> ex) (enumerate (Suc n) xs)) = xs" using Cons.prems by (intro Cons.IH) simp
    ultimately show ?case by auto
  qed
  then show "other_rows None rows = rows" by (simp add: other_rows_def)
  assume i: "i < length rows"
  have "enumerate 0 rows = enumerate 0 (take i rows @ rows ! i # drop (Suc i) rows)" using i by (simp add: id_take_nth_drop [symmetric])
  then have "enumerate 0 rows = enumerate 0 (take i rows) @ (i, rows ! i) # enumerate (Suc i) (drop (Suc i) rows)"
    using i by (simp add: enumerate_append_eq)
  then show "other_rows (Some i) rows = take i rows @ drop (Suc i) rows"
    using all [of 0 "take i rows" "Some i"] all [of "Suc i" "drop (Suc i) rows" "Some i"] by (simp add: other_rows_def)
qed

lemma take_values_defined:
  assumes "\<forall>i \<in> set ids. doc p i \<noteq> None"
  shows "\<exists>p2 vs'. fold_res take_value ids (p, vs) = Inr (p2, vs')"
  using assms
proof (induction ids arbitrary: p vs)
  case Nil
  then show ?case by simp
next
  case (Cons i ids)
  then obtain e where e: "doc p i = Some e" by auto
  have "\<forall>j \<in> set ids. doc (if el_type e = ''text'' then set_el i (put_value [] e) p else p) j \<noteq> None"
    using Cons.prems by (auto simp: set_el_def)
  from Cons.IH [OF this] show ?case by (simp add: take_value_apply get_el_def e)
qed

lemma field_text_val: "field_text p i = Inr s \<Longrightarrow> s = val_at p i"
  by (auto simp: field_text_def res_bind_Inr_iff dest: get_el_val)

lemma cell_line: "LF \<notin> set s \<Longrightarrow> cell_text s = s"
  by (simp add: cell_text_def)

end
