(* ===== verification/Port_Forwarding.thy ===== *)
theory Port_Forwarding
  imports Port_Conflicts Page_Tables Page_Fields Ip6_Accept Uci_Script
begin

text \<open>
  Port forwarding and port opening (\<open>port_forwarding.js\<close>): the four tables of rules, the checks on the form
  of a new or edited rule, adding with merging of the two protocols, and editing. A table is the list of
  its rows and a row is a record of its cells. The rules of both tables together are an instance of the
  interface \<open>conflict_table\<close>. Shown: no sequence of additions and edits forwards a port of one protocol
  twice, and where the checks fail.
\<close>

section \<open>State\<close>

record fwd_row =
  fw_desc :: string
  fw_prot :: string
  fw_fp :: string
  fw_ip :: string
  fw_dp :: string
  fw_on :: bool

record range_row =
  rg_desc :: string
  rg_prot :: string
  rg_sp :: string
  rg_ep :: string
  rg_ip :: string
  rg_on :: bool

record open_row =
  op_desc :: string
  op_prot :: string
  op_ip :: string
  op_dp :: string
  op_on :: bool

text \<open>
  The global variable \<open>portfRangeTable\<close>: not declared, the range table on the page, or a table that is no
  longer on the page.
\<close>

datatype table_var = Undeclared | OnPage | Detached "range_row list"

record fwd_state =
  fs_page :: page
  portf :: "fwd_row list"
  portfrange :: "range_row list"
  porto :: "open_row list"
  portorange :: "range_row list"
  portfRangeTable :: table_var

record fwd_strings =
  t_both :: string
  t_prfErr :: string
  t_GTErr :: string
  t_DupErr :: string
  t_CopErr :: string
  t_DupOErr :: string
  t_CopOErr :: string
  t_AFRErr :: string
  t_AORErr :: string
  t_UpErr :: string
  t_ErrChanges :: string
  t_Err :: string
  t_nex :: string

section \<open>Checks\<close>

definition shares_proto :: "string \<Rightarrow> string \<Rightarrow> string \<Rightarrow> bool" where
  "shares_proto both p q \<longleftrightarrow> p = q \<or> p = both \<or> q = both"

definition gt_num :: "int option \<Rightarrow> int option \<Rightarrow> bool" where
  "gt_num x y = (case (x, y) of (Some a, Some b) \<Rightarrow> a > b | _ \<Rightarrow> False)"

definition single_clash :: "string \<Rightarrow> string \<Rightarrow> string \<Rightarrow> fwd_row \<Rightarrow> bool" where
  "single_clash both addProtocol addPort r \<longleftrightarrow> shares_proto both addProtocol (fw_prot r) \<and> addPort = fw_fp r"

definition port_in_range :: "string \<Rightarrow> string \<Rightarrow> string \<Rightarrow> bool" where
  "port_in_range sp ep port \<longleftrightarrow> le_num (js_integer sp) (js_integer port) \<and> le_num (js_integer port) (js_integer ep)"

definition single_range_clash :: "string \<Rightarrow> string \<Rightarrow> string \<Rightarrow> range_row \<Rightarrow> bool" where
  "single_range_clash both addProtocol addPort r \<longleftrightarrow>
     shares_proto both addProtocol (rg_prot r) \<and> port_in_range (rg_sp r) (rg_ep r) addPort"

definition range_single_clash :: "string \<Rightarrow> string \<Rightarrow> string \<Rightarrow> string \<Rightarrow> fwd_row \<Rightarrow> bool" where
  "range_single_clash both addProtocol sp ep r \<longleftrightarrow> shares_proto both addProtocol (fw_prot r) \<and> port_in_range sp ep (fw_fp r)"

definition range_range_clash :: "string \<Rightarrow> string \<Rightarrow> string \<Rightarrow> string \<Rightarrow> range_row \<Rightarrow> bool" where
  "range_range_clash both addProtocol sp ep r \<longleftrightarrow> shares_proto both addProtocol (rg_prot r)
     \<and> le_num (js_integer (rg_sp r)) (js_integer ep) \<and> le_num (js_integer sp) (js_integer (rg_ep r))"

definition forward_rows :: "string \<Rightarrow> proof_row list" where
  "forward_rows dp =
     [own_row ''add_fp'' ''add_fp_label'' validateNumeric, own_row ''add_ip'' ''add_ip_label'' validateIP]
     @ (if dp \<noteq> [] then [own_row ''add_dp'' ''add_dp_label'' validateNumeric] else [])"

definition proofreadForwardSingle :: "fwd_strings \<Rightarrow> nat option \<Rightarrow> fwd_state \<Rightarrow> (page \<times> string list) js_result" where
  "proofreadForwardSingle ts excludeRow st =
     res_bind (get_el (fs_page st) ''add_dp'') (\<lambda>dp.
     res_bind (proofreadFields (t_prfErr ts) (forward_rows (get_value dp)) (fs_page st)) (\<lambda>(p1, errors).
       if errors \<noteq> [] then Inr (p1, errors)
       else res_bind (get_el p1 ''add_fp'') (\<lambda>fp.
            res_bind (get_el p1 ''add_prot'') (\<lambda>prot.
              Inr (p1,
                map (\<lambda>_. t_CopErr ts) (filter (single_clash (t_both ts) (get_value prot) (get_value fp)) (other_rows excludeRow (portf st)))
                @ map (\<lambda>_. t_CopErr ts) (filter (single_range_clash (t_both ts) (get_value prot) (get_value fp)) (portfrange st)))))))"

definition forward_range_rows :: "proof_row list" where
  "forward_range_rows =
     [own_row ''addr_sp'' ''addr_sp_label'' validateNumeric, own_row ''addr_ep'' ''addr_ep_label'' validateNumeric,
      own_row ''addr_ip'' ''addr_ip_label'' validateIP]"

definition proofreadForwardRange :: "fwd_strings \<Rightarrow> nat option \<Rightarrow> fwd_state \<Rightarrow> (page \<times> string list) js_result" where
  "proofreadForwardRange ts excludeRow st =
     res_bind (proofreadFields (t_prfErr ts) forward_range_rows (fs_page st)) (\<lambda>(p1, errors).
       if errors \<noteq> [] then Inr (p1, errors)
       else res_bind (get_el p1 ''addr_sp'') (\<lambda>spEl. res_bind (get_el p1 ''addr_ep'') (\<lambda>epEl. res_bind (get_el p1 ''addr_prot'') (\<lambda>prot.
         let sp = get_value spEl; ep = get_value epEl
         in Inr (p1,
              (if gt_num (js_integer sp) (js_integer ep) then [t_GTErr ts] else [])
              @ map (\<lambda>_. t_DupErr ts) (filter (range_single_clash (t_both ts) (get_value prot) sp ep) (portf st))
              @ map (\<lambda>_. t_DupErr ts) (filter (range_range_clash (t_both ts) (get_value prot) sp ep) (other_rows excludeRow (portfrange st))))))))"

text \<open>Opening: rules for the same address only.\<close>

definition open_single_rows :: "proof_row list" where
  "open_single_rows =
     [own_row ''addo_dp'' ''addo_dp_label'' validateNumeric, own_row ''addo_ip'' ''addo_ip_label'' validateIP6Range]"

definition proofreadOpenSingle :: "fwd_strings \<Rightarrow> nat option \<Rightarrow> fwd_state \<Rightarrow> (page \<times> string list) js_result" where
  "proofreadOpenSingle ts excludeRow st =
     res_bind (proofreadFields (t_prfErr ts) open_single_rows (fs_page st)) (\<lambda>(p1, errors).
       if errors \<noteq> [] then Inr (p1, errors)
       else res_bind (get_el p1 ''addo_dp'') (\<lambda>dpEl. res_bind (get_el p1 ''addo_prot'') (\<lambda>prot. res_bind (get_el p1 ''addo_ip'') (\<lambda>ipEl.
         let addPort = get_value dpEl; addIP = ip6_canonical (get_value ipEl)
         in Inr (p1,
              map (\<lambda>_. t_CopOErr ts)
                (filter (\<lambda>r. shares_proto (t_both ts) (get_value prot) (op_prot r) \<and> addPort = op_dp r \<and> addIP = op_ip r)
                  (other_rows excludeRow (porto st)))
              @ map (\<lambda>_. t_CopOErr ts)
                  (filter (\<lambda>r. single_range_clash (t_both ts) (get_value prot) addPort r \<and> addIP = rg_ip r) (portorange st)))))))"

definition open_range_rows :: "proof_row list" where
  "open_range_rows =
     [own_row ''addor_sp'' ''addor_sp_label'' validateNumeric, own_row ''addor_ep'' ''addor_ep_label'' validateNumeric,
      own_row ''addor_ip'' ''addor_ip_label'' validateIP6Range]"

definition proofreadOpenRange :: "fwd_strings \<Rightarrow> nat option \<Rightarrow> fwd_state \<Rightarrow> (page \<times> string list) js_result" where
  "proofreadOpenRange ts excludeRow st =
     res_bind (proofreadFields (t_prfErr ts) open_range_rows (fs_page st)) (\<lambda>(p1, errors).
       if errors \<noteq> [] then Inr (p1, errors)
       else res_bind (get_el p1 ''addor_sp'') (\<lambda>spEl. res_bind (get_el p1 ''addor_ep'') (\<lambda>epEl. res_bind (get_el p1 ''addor_prot'') (\<lambda>prot.
            res_bind (get_el p1 ''addor_ip'') (\<lambda>ipEl.
         let sp = get_value spEl; ep = get_value epEl; addIP = ip6_canonical (get_value ipEl)
         in Inr (p1,
              (if gt_num (js_integer sp) (js_integer ep) then [t_GTErr ts] else [])
              @ map (\<lambda>_. t_DupOErr ts)
                  (filter (\<lambda>r. shares_proto (t_both ts) (get_value prot) (op_prot r) \<and> port_in_range sp ep (op_dp r) \<and> addIP = op_ip r) (porto st))
              @ map (\<lambda>_. t_DupOErr ts)
                  (filter (\<lambda>r. range_range_clash (t_both ts) (get_value prot) sp ep r \<and> addIP = rg_ip r)
                    (other_rows excludeRow (portorange st)))))))))"

section \<open>Adding\<close>

definition other_proto :: "string \<Rightarrow> string" where
  "other_proto p = (if p = ''TCP'' then ''UDP'' else ''TCP'')"

definition merged_desc :: "string \<Rightarrow> string \<Rightarrow> string" where
  "merged_desc new old = (if new \<noteq> ''-'' \<and> old = ''-'' then new else old)"

definition same_forward :: "string list \<Rightarrow> fwd_row \<Rightarrow> bool" where
  "same_forward v r \<longleftrightarrow> other_proto (v ! 1) = fw_prot r \<and> v ! 2 = fw_fp r \<and> v ! 3 = fw_ip r \<and> v ! 4 = fw_dp r"

definition add_forward :: "string \<Rightarrow> string list \<Rightarrow> fwd_row list \<Rightarrow> fwd_row list" where
  "add_forward both v rows =
     (if list_ex (same_forward v) rows
      then map (\<lambda>r. if same_forward v r then r\<lparr>fw_prot := both, fw_desc := merged_desc (v ! 0) (fw_desc r)\<rparr> else r) rows
      else rows @ [\<lparr>fw_desc = cell_text (v ! 0), fw_prot = cell_text (v ! 1), fw_fp = cell_text (v ! 2),
                    fw_ip = cell_text (v ! 3), fw_dp = cell_text (v ! 4), fw_on = True\<rparr>])"

definition addPortfRule :: "fwd_strings \<Rightarrow> fwd_state \<Rightarrow> fwd_state js_result" where
  "addPortfRule ts st =
     res_bind (proofreadForwardSingle ts None st) (\<lambda>(p1, errors).
       if errors \<noteq> [] then Inr (st\<lparr>fs_page := report errors ([LF, LF] @ t_AFRErr ts) p1\<rparr>)
       else res_bind (fold_res take_value [''add_desc'', ''add_prot'', ''add_fp'', ''add_ip'', ''add_dp''] (p1, [])) (\<lambda>(p2, v0).
         let v = v0[4 := (if v0 ! 4 = ''-'' then v0 ! 2 else v0 ! 4)]
         in Inr (st\<lparr>fs_page := p2, portf := add_forward (t_both ts) v (portf st)\<rparr>)))"

definition same_range :: "string list \<Rightarrow> range_row \<Rightarrow> bool" where
  "same_range v r \<longleftrightarrow> other_proto (v ! 1) = rg_prot r \<and> v ! 2 = rg_sp r \<and> v ! 3 = rg_ep r \<and> v ! 4 = rg_ip r"

definition new_range :: "string list \<Rightarrow> range_row" where
  "new_range v = \<lparr>rg_desc = cell_text (v ! 0), rg_prot = cell_text (v ! 1), rg_sp = cell_text (v ! 2),
                  rg_ep = cell_text (v ! 3), rg_ip = cell_text (v ! 4), rg_on = True\<rparr>"

definition add_range :: "string \<Rightarrow> string list \<Rightarrow> range_row list \<Rightarrow> range_row list" where
  "add_range both v rows =
     (if list_ex (same_range v) rows
      then map (\<lambda>r. if same_range v r then r\<lparr>rg_prot := both, rg_desc := merged_desc (v ! 0) (rg_desc r)\<rparr> else r) rows
      else rows @ [new_range v])"

definition addPortfRangeRule :: "fwd_strings \<Rightarrow> fwd_state \<Rightarrow> fwd_state js_result" where
  "addPortfRangeRule ts st =
     res_bind (proofreadForwardRange ts None st) (\<lambda>(p1, errors).
       if errors \<noteq> [] then Inr (st\<lparr>fs_page := report errors ([LF, LF] @ t_AFRErr ts) p1\<rparr>)
       else res_bind (fold_res take_value [''addr_desc'', ''addr_prot'', ''addr_sp'', ''addr_ep'', ''addr_ip''] (p1, [])) (\<lambda>(p2, v).
         Inr (st\<lparr>fs_page := p2, portfrange := add_range (t_both ts) v (portfrange st), portfRangeTable := OnPage\<rparr>)))"

definition same_open :: "string list \<Rightarrow> open_row \<Rightarrow> bool" where
  "same_open v r \<longleftrightarrow> other_proto (v ! 1) = op_prot r \<and> v ! 2 = op_ip r \<and> v ! 3 = op_dp r"

definition add_open :: "string \<Rightarrow> string list \<Rightarrow> open_row list \<Rightarrow> open_row list" where
  "add_open both v rows =
     (if list_ex (same_open v) rows
      then map (\<lambda>r. if same_open v r then r\<lparr>op_prot := both, op_desc := merged_desc (v ! 0) (op_desc r)\<rparr> else r) rows
      else rows @ [\<lparr>op_desc = cell_text (v ! 0), op_prot = cell_text (v ! 1), op_ip = cell_text (v ! 2),
                    op_dp = cell_text (v ! 3), op_on = True\<rparr>])"

definition addPortoRule :: "fwd_strings \<Rightarrow> fwd_state \<Rightarrow> fwd_state js_result" where
  "addPortoRule ts st =
     res_bind (proofreadOpenSingle ts None st) (\<lambda>(p1, errors).
       if errors \<noteq> [] then Inr (st\<lparr>fs_page := report errors ([LF, LF] @ t_AORErr ts) p1\<rparr>)
       else res_bind (fold_res take_value [''addo_desc'', ''addo_prot'', ''addo_ip'', ''addo_dp''] (p1, [])) (\<lambda>(p2, v0).
         let v = v0[2 := ip6_canonical (v0 ! 2)]
         in Inr (st\<lparr>fs_page := p2, porto := add_open (t_both ts) v (porto st)\<rparr>)))"

text \<open>
  Merging in the table of opened ranges: the protocol is written into the row of the same number of
  \<open>portfRangeTable\<close>, the description into the row itself.
\<close>

definition set_range_prot :: "string \<Rightarrow> nat \<Rightarrow> range_row list \<Rightarrow> range_row list js_result" where
  "set_range_prot prot i rows = (if i < length rows then Inr (rows[i := (rows ! i)\<lparr>rg_prot := prot\<rparr>]) else Inl TypeError)"

definition merge_open_range :: "string \<Rightarrow> string list \<Rightarrow> nat \<Rightarrow> fwd_state \<Rightarrow> fwd_state js_result" where
  "merge_open_range both v i st =
     res_bind
       (case portfRangeTable st of
          Undeclared \<Rightarrow> Inl ReferenceError
        | OnPage \<Rightarrow> res_bind (set_range_prot both i (portfrange st)) (\<lambda>rows. Inr (st\<lparr>portfrange := rows\<rparr>))
        | Detached old \<Rightarrow> res_bind (set_range_prot both i old) (\<lambda>rows. Inr (st\<lparr>portfRangeTable := Detached rows\<rparr>)))
       (\<lambda>st1. let r = portorange st ! i
              in Inr (st1\<lparr>portorange := (portorange st1)[i := r\<lparr>rg_desc := merged_desc (v ! 0) (rg_desc r)\<rparr>]\<rparr>))"

definition addPortoRangeRule :: "fwd_strings \<Rightarrow> fwd_state \<Rightarrow> fwd_state js_result" where
  "addPortoRangeRule ts st =
     res_bind (proofreadOpenRange ts None st) (\<lambda>(p1, errors).
       if errors \<noteq> [] then Inr (st\<lparr>fs_page := report errors ([LF, LF] @ t_AORErr ts) p1\<rparr>)
       else res_bind (fold_res take_value [''addor_desc'', ''addor_prot'', ''addor_sp'', ''addor_ep'', ''addor_ip''] (p1, [])) (\<lambda>(p2, v0).
         let v = v0[4 := ip6_canonical (v0 ! 4)];
             same = filter (\<lambda>i. same_range v (portorange st ! i)) [0 ..< length (portorange st)]
         in res_bind (fold_res (merge_open_range (t_both ts) v) same (st\<lparr>fs_page := p2\<rparr>)) (\<lambda>st1.
            Inr (if same \<noteq> [] then st1 else st1\<lparr>portorange := portorange st1 @ [new_range v]\<rparr>))))"

section \<open>Editing\<close>

definition selected_text :: "fwd_strings \<Rightarrow> string \<Rightarrow> page \<Rightarrow> (page \<times> string) js_result" where
  "selected_text ts i p =
     res_bind (getSelectedValue (t_Err ts) (t_nex ts) i p) (\<lambda>(p1, v).
       Inr (p1, case v of Some s \<Rightarrow> s | None \<Rightarrow> ''undefined''))"

definition editForward :: "fwd_strings \<Rightarrow> bool \<Rightarrow> nat \<Rightarrow> fwd_state \<Rightarrow> fwd_state js_result" where
  "editForward ts isSingle editRow st =
     res_bind (if isSingle then proofreadForwardSingle ts (Some editRow) st else proofreadForwardRange ts (Some editRow) st) (\<lambda>(p1, errors).
       if errors \<noteq> [] then Inr (st\<lparr>fs_page := report errors ([LF] @ t_UpErr ts) p1\<rparr>)
       else
         let r = (if isSingle then ''add_'' else ''addr_'')
         in res_bind (field_text p1 (r @ ''desc'')) (\<lambda>desc.
            res_bind (selected_text ts (r @ ''prot'') p1) (\<lambda>(p2, prot).
            res_bind (field_text p2 (if isSingle then ''add_fp'' else ''addr_sp'')) (\<lambda>c2.
            res_bind (field_text p2 (if isSingle then ''add_ip'' else ''addr_ep'')) (\<lambda>c3.
            res_bind (field_text p2 (if isSingle then ''add_dp'' else ''addr_ip'')) (\<lambda>c4.
              Inr (if isSingle
                   then st\<lparr>fs_page := p2, portf := (portf st)[editRow :=
                          (portf st ! editRow)\<lparr>fw_desc := desc, fw_prot := prot, fw_fp := c2, fw_ip := c3, fw_dp := c4\<rparr>]\<rparr>
                   else st\<lparr>fs_page := p2, portfrange := (portfrange st)[editRow :=
                          (portfrange st ! editRow)\<lparr>rg_desc := desc, rg_prot := prot, rg_sp := c2, rg_ep := c3, rg_ip := c4\<rparr>]\<rparr>)))))))"

definition editOpen :: "fwd_strings \<Rightarrow> bool \<Rightarrow> nat \<Rightarrow> fwd_state \<Rightarrow> fwd_state js_result" where
  "editOpen ts isSingle editRow st =
     res_bind (if isSingle then proofreadOpenSingle ts (Some editRow) st else proofreadOpenRange ts (Some editRow) st) (\<lambda>(p1, errors).
       if errors \<noteq> [] then Inr (st\<lparr>fs_page := report errors ([LF] @ t_UpErr ts) p1\<rparr>)
       else
         let r = (if isSingle then ''addo_'' else ''addor_'')
         in res_bind (field_text p1 (r @ ''desc'')) (\<lambda>desc.
            res_bind (selected_text ts (r @ ''prot'') p1) (\<lambda>(p2, prot).
            if isSingle
            then res_bind (field_text p2 ''addo_ip'') (\<lambda>ip. res_bind (field_text p2 ''addo_dp'') (\<lambda>dp.
                   Inr (st\<lparr>fs_page := p2, porto := (porto st)[editRow :=
                          (porto st ! editRow)\<lparr>op_desc := desc, op_prot := prot, op_ip := ip, op_dp := dp\<rparr>]\<rparr>)))
            else res_bind (field_text p2 ''addor_sp'') (\<lambda>sp. res_bind (field_text p2 ''addor_ep'') (\<lambda>ep. res_bind (field_text p2 ''addor_ip'') (\<lambda>ip.
                   Inr (st\<lparr>fs_page := p2, portorange := (portorange st)[editRow :=
                          (portorange st ! editRow)\<lparr>rg_desc := desc, rg_prot := prot, rg_sp := sp, rg_ep := ep, rg_ip := ip\<rparr>]\<rparr>)))))))"

text \<open>A rule as its protocol, its first and last port and the address it is for.\<close>

type_synonym rule = "string \<times> nat \<times> nat \<times> string"

definition rule_clash :: "string \<Rightarrow> rule \<Rightarrow> rule \<Rightarrow> bool" where
  "rule_clash both = (\<lambda>(p, lo, hi, ip) (q, lo', hi', ip'). shares_proto both p q \<and> ip = ip' \<and> lo \<le> hi' \<and> lo' \<le> hi)"

interpretation rules: conflict_table "rule_clash both" for both
  by unfold_locales (auto simp: rule_clash_def shares_proto_def split: prod.splits)

text \<open>
  A clash of well-formed rules is a port, a protocol and an address they share: \<open>both\<close> stands for the two
  protocols.
\<close>

definition rule_traffic :: "string \<Rightarrow> rule \<Rightarrow> (string \<times> nat \<times> string) set" where
  "rule_traffic both = (\<lambda>(p, lo, hi, ip). {(q, n, ip) | q n. q \<in> {''TCP'', ''UDP''} \<and> (p = q \<or> p = both) \<and> lo \<le> n \<and> n \<le> hi})"

definition rule_ok :: "string \<Rightarrow> rule \<Rightarrow> bool" where
  "rule_ok both = (\<lambda>(p, lo, hi, ip). p \<in> {''TCP'', ''UDP'', both} \<and> lo \<le> hi)"

lemma rule_clash_iff:
  assumes "rule_ok both r" "rule_ok both s"
  shows "rule_clash both r s \<longleftrightarrow> rule_traffic both r \<inter> rule_traffic both s \<noteq> {}"
proof -
  obtain p lo hi ip q lo' hi' ip' where rs: "r = (p, lo, hi, ip)" "s = (q, lo', hi', ip')" by (cases r, cases s)
  show ?thesis
  proof
    assume "rule_clash both r s"
    then have c: "shares_proto both p q" "ip = ip'" "lo \<le> hi'" "lo' \<le> hi" by (simp_all add: rs rule_clash_def)
    have pq: "p \<in> {''TCP'', ''UDP'', both}" "q \<in> {''TCP'', ''UDP'', both}" using assms by (simp_all add: rs rule_ok_def)
    have "\<exists>x \<in> {''TCP'', ''UDP''}. (p = x \<or> p = both) \<and> (q = x \<or> q = both)"
    proof (cases "p = both")
      case True
      then show ?thesis using pq(2) by blast
    next
      case False
      then have "p = q \<or> q = both" using c(1) by (auto simp: shares_proto_def)
      then show ?thesis using pq(1) False by blast
    qed
    then obtain x where "x \<in> {''TCP'', ''UDP''}" "p = x \<or> p = both" "q = x \<or> q = both" by blast
    moreover have "lo \<le> max lo lo' \<and> max lo lo' \<le> hi \<and> lo' \<le> max lo lo' \<and> max lo lo' \<le> hi'" using c assms by (auto simp: rs rule_ok_def)
    ultimately have "(x, max lo lo', ip) \<in> rule_traffic both r \<inter> rule_traffic both s"
      using c(2) unfolding rs rule_traffic_def by auto
    then show "rule_traffic both r \<inter> rule_traffic both s \<noteq> {}" by blast
  next
    assume "rule_traffic both r \<inter> rule_traffic both s \<noteq> {}"
    then show "rule_clash both r s" unfolding rs rule_traffic_def rule_clash_def shares_proto_def by auto
  qed
qed

section \<open>The forwarding tables\<close>

text \<open>A port without leading zeros.\<close>

definition plain_port :: "string \<Rightarrow> bool" where
  "plain_port s \<longleftrightarrow> number_text s \<and> s = dec_str (dec_val s)"

definition fwd_rule :: "fwd_row \<Rightarrow> rule" where
  "fwd_rule r = (fw_prot r, dec_val (fw_fp r), dec_val (fw_fp r), [])"

definition range_rule :: "range_row \<Rightarrow> rule" where
  "range_rule r = (rg_prot r, dec_val (rg_sp r), dec_val (rg_ep r), [])"

text \<open>
  The invariant of the two tables: protocols are \<open>TCP\<close>, \<open>UDP\<close> or both, ports are numbers, ranges are not
  empty, and no two rules clash.
\<close>

definition forwards_ok :: "string \<Rightarrow> fwd_row list \<Rightarrow> range_row list \<Rightarrow> bool" where
  "forwards_ok both rows ranges \<longleftrightarrow>
     list_all (\<lambda>r. plain_port (fw_fp r)) rows
     \<and> list_all (\<lambda>r. number_text (rg_sp r) \<and> number_text (rg_ep r)) ranges
     \<and> list_all (rule_ok both) (map fwd_rule rows @ map range_rule ranges)
     \<and> rules.conflict_free both (map fwd_rule rows @ map range_rule ranges)"

lemma js_integer_number: "number_text s \<Longrightarrow> js_integer s = Some (int (dec_val s))"
  by (simp add: number_text_def js_integer_digits)

lemma plain_port_eq: "plain_port s \<Longrightarrow> plain_port t \<Longrightarrow> s = t \<longleftrightarrow> dec_val s = dec_val t"
  by (metis plain_port_def)

lemma number_line: "number_text s \<Longrightarrow> cell_text s = s"
proof -
  assume "number_text s"
  then have "LF \<notin> set s" by (auto simp: number_text_def list_all_iff is_digit_def LF_def)
  then show "cell_text s = s" by (simp add: cell_text_def)
qed

lemmas clash_simps = rules.clear_of_def rule_clash_def fwd_rule_def range_rule_def

text \<open>What the checks establish for a new single rule and for a new range.\<close>

lemma single_checked:
  assumes "forwards_ok both rows ranges" "plain_port fp" "set others \<subseteq> set rows"
  shows "filter (single_clash both prot fp) others = [] \<and> filter (single_range_clash both prot fp) ranges = []
    \<longleftrightarrow> rules.clear_of both (prot, dec_val fp, dec_val fp, []) (map fwd_rule others @ map range_rule ranges)"
proof -
  have "single_clash both prot fp r \<longleftrightarrow> rule_clash both (prot, dec_val fp, dec_val fp, []) (fwd_rule r)" if "r \<in> set others" for r
  proof -
    have "plain_port (fw_fp r)" using assms(1,3) that by (auto simp: forwards_ok_def list_all_iff)
    then show ?thesis using plain_port_eq [OF assms(2)] by (auto simp: single_clash_def clash_simps)
  qed
  moreover have "single_range_clash both prot fp r \<longleftrightarrow> rule_clash both (prot, dec_val fp, dec_val fp, []) (range_rule r)"
    if "r \<in> set ranges" for r
  proof -
    have "js_integer (rg_sp r) = Some (int (dec_val (rg_sp r)))" "js_integer (rg_ep r) = Some (int (dec_val (rg_ep r)))"
        "js_integer fp = Some (int (dec_val fp))"
      using assms that by (auto simp: forwards_ok_def list_all_iff plain_port_def js_integer_number)
    then show ?thesis by (auto simp: single_range_clash_def port_in_range_def le_num_def clash_simps)
  qed
  ultimately show ?thesis by (auto simp: rules.clear_of_def filter_empty_conv)
qed

lemma range_checked:
  assumes "forwards_ok both rows ranges" "number_text sp" "number_text ep" "set others \<subseteq> set ranges"
  shows "filter (range_single_clash both prot sp ep) rows = [] \<and> filter (range_range_clash both prot sp ep) others = []
    \<longleftrightarrow> rules.clear_of both (prot, dec_val sp, dec_val ep, []) (map fwd_rule rows @ map range_rule others)"
proof -
  have n: "js_integer sp = Some (int (dec_val sp))" "js_integer ep = Some (int (dec_val ep))" using assms by (simp_all add: js_integer_number)
  have "range_single_clash both prot sp ep r \<longleftrightarrow> rule_clash both (prot, dec_val sp, dec_val ep, []) (fwd_rule r)" if "r \<in> set rows" for r
  proof -
    have "js_integer (fw_fp r) = Some (int (dec_val (fw_fp r)))"
      using assms(1) that by (auto simp: forwards_ok_def list_all_iff plain_port_def js_integer_number)
    then show ?thesis by (auto simp: range_single_clash_def port_in_range_def le_num_def clash_simps n)
  qed
  moreover have "range_range_clash both prot sp ep r \<longleftrightarrow> rule_clash both (prot, dec_val sp, dec_val ep, []) (range_rule r)"
    if "r \<in> set others" for r
  proof -
    have "r \<in> set ranges" using assms(4) that by blast
    then have "js_integer (rg_sp r) = Some (int (dec_val (rg_sp r)))" "js_integer (rg_ep r) = Some (int (dec_val (rg_ep r)))"
      using assms(1) by (auto simp: forwards_ok_def list_all_iff js_integer_number)
    then show ?thesis by (auto simp: range_range_clash_def le_num_def clash_simps n)
  qed
  ultimately show ?thesis by (auto simp: rules.clear_of_def filter_empty_conv)
qed

lemma merge_grows:
  assumes "prot \<in> {''TCP'', ''UDP'', both}" "rule_ok both (q, lo', hi', ip')" "rule_clash both (both, lo, hi, ip) (q, lo', hi', ip')"
  shows "rule_clash both (other_proto prot, lo, hi, ip) (q, lo', hi', ip') \<or> rule_clash both (prot, lo, hi, ip) (q, lo', hi', ip')"
proof -
  have "shares_proto both (other_proto prot) q \<or> shares_proto both prot q"
    using assms(1,2) unfolding shares_proto_def other_proto_def rule_ok_def by auto
  with assms(3) show ?thesis by (auto simp: rule_clash_def)
qed

section \<open>Adding and editing keep the tables free of clashes\<close>

text \<open>The forms: fields that are there and can be used, protocols to choose from, ports without leading zeros.\<close>

definition prot_ok :: "fwd_strings \<Rightarrow> page \<Rightarrow> string \<Rightarrow> bool" where
  "prot_ok ts p i \<longleftrightarrow> (\<exists>e. doc p i = Some e \<and> is_select e \<and> get_value e \<in> {''TCP'', ''UDP'', t_both ts})"

definition form_ok :: "fwd_strings \<Rightarrow> page \<Rightarrow> bool" where
  "form_ok ts p \<longleftrightarrow> t_both ts \<noteq> [] \<and> LF \<notin> set (t_both ts)
     \<and> prot_ok ts p ''add_prot'' \<and> prot_ok ts p ''addr_prot''
     \<and> list_all (ready p) [''add_fp'', ''add_ip'', ''addr_sp'', ''addr_ep'', ''addr_ip'']
     \<and> (number_text (val_at p ''add_fp'') \<longrightarrow> plain_port (val_at p ''add_fp''))"

lemma prot_ok_facts:
  assumes "form_ok ts p" "prot_ok ts p i"
  shows "val_at p i \<in> {''TCP'', ''UDP'', t_both ts}" "dash (val_at p i) = val_at p i" "cell_text (val_at p i) = val_at p i"
proof -
  show v: "val_at p i \<in> {''TCP'', ''UDP'', t_both ts}" using assms(2) by (auto simp: prot_ok_def)
  have "LF \<notin> set ''TCP''" "LF \<notin> set ''UDP''" "LF \<notin> set (t_both ts)" "t_both ts \<noteq> []"
    using assms(1) by (simp_all add: form_ok_def LF_def)
  then have "LF \<notin> set (val_at p i) \<and> val_at p i \<noteq> []" using v by auto
  then show "dash (val_at p i) = val_at p i" "cell_text (val_at p i) = val_at p i" by (simp_all add: dash_def cell_text_def)
qed

lemma forward_single_accepted:
  assumes "proofreadForwardSingle ts ex st = Inr (p1, [])" "form_ok ts (fs_page st)" "p = fs_page st"
  shows "same_fields p p1" "plain_port (val_at p ''add_fp'')"
    "filter (single_clash (t_both ts) (val_at p ''add_prot'') (val_at p ''add_fp'')) (other_rows ex (portf st)) = []"
    "filter (single_range_clash (t_both ts) (val_at p ''add_prot'') (val_at p ''add_fp'')) (portfrange st) = []"
proof -
  have ready: "ready p ''add_fp''" "ready p ''add_ip''" using assms(2,3) by (simp_all add: form_ok_def)
  obtain dp where dp: "get_el p ''add_dp'' = Inr dp" "proofreadFields (t_prfErr ts) (forward_rows (get_value dp)) p = Inr (p1, [])"
    using assms(1,3) by (auto simp: proofreadForwardSingle_def res_bind_Inr_iff split: if_splits)
  have "\<forall>r \<in> set (forward_rows (get_value dp)). row_present p r"
    using ready dp(1) get_el_val [OF dp(1)] by (auto simp: forward_rows_def intro!: own_row_facts(2) dest: ready_doc)
  note checked = proofread_checked [OF dp(2) this]
  show same: "same_fields p p1" by (rule checked(1))
  have "row_ok p (own_row ''add_fp'' ''add_fp_label'' validateNumeric)"
    using checked(2) [of "own_row ''add_fp'' ''add_fp_label'' validateNumeric"] own_row_facts(1) [OF ready(1)] by (simp add: forward_rows_def)
  then have "number_text (val_at p ''add_fp'')" using own_row_facts(3) [OF ready_doc [OF ready(1)]] by (simp add: numeric.code_iff)
  then show "plain_port (val_at p ''add_fp'')" using assms(2,3) by (simp add: form_ok_def)
  have "doc p ''add_prot'' \<noteq> None" using assms(2,3) by (auto simp: form_ok_def prot_ok_def)
  then have v: "val_at p1 ''add_prot'' = val_at p ''add_prot''" "val_at p1 ''add_fp'' = val_at p ''add_fp''"
    using same_fields_val [OF same] ready_doc [OF ready(1)] by simp_all
  obtain fp prot where e: "get_el p1 ''add_fp'' = Inr fp" "get_el p1 ''add_prot'' = Inr prot"
      "filter (single_clash (t_both ts) (get_value prot) (get_value fp)) (other_rows ex (portf st)) = []"
      "filter (single_range_clash (t_both ts) (get_value prot) (get_value fp)) (portfrange st) = []"
    using assms(1,3) dp by (auto simp: proofreadForwardSingle_def res_bind_Inr_iff split: if_splits)
  have "get_value fp = val_at p ''add_fp''" "get_value prot = val_at p ''add_prot''"
    using get_el_val [OF e(1)] get_el_val [OF e(2)] v by simp_all
  then show "filter (single_clash (t_both ts) (val_at p ''add_prot'') (val_at p ''add_fp'')) (other_rows ex (portf st)) = []"
      "filter (single_range_clash (t_both ts) (val_at p ''add_prot'') (val_at p ''add_fp'')) (portfrange st) = []"
    using e(3,4) by simp_all
qed

lemma forward_range_accepted:
  assumes "proofreadForwardRange ts ex st = Inr (p1, [])" "form_ok ts (fs_page st)" "p = fs_page st"
  shows "same_fields p p1" "number_text (val_at p ''addr_sp'')" "number_text (val_at p ''addr_ep'')"
    "dec_val (val_at p ''addr_sp'') \<le> dec_val (val_at p ''addr_ep'')"
    "filter (range_single_clash (t_both ts) (val_at p ''addr_prot'') (val_at p ''addr_sp'') (val_at p ''addr_ep'')) (portf st) = []"
    "filter (range_range_clash (t_both ts) (val_at p ''addr_prot'') (val_at p ''addr_sp'') (val_at p ''addr_ep'')) (other_rows ex (portfrange st)) = []"
proof -
  have ready: "ready p ''addr_sp''" "ready p ''addr_ep''" "ready p ''addr_ip''" using assms(2,3) by (simp_all add: form_ok_def)
  have pf: "proofreadFields (t_prfErr ts) forward_range_rows p = Inr (p1, [])"
    using assms(1,3) by (auto simp: proofreadForwardRange_def res_bind_Inr_iff Let_def split: if_splits)
  have "\<forall>r \<in> set forward_range_rows. row_present p r"
    using ready by (auto simp: forward_range_rows_def intro!: own_row_facts(2) dest: ready_doc)
  note checked = proofread_checked [OF pf this]
  show same: "same_fields p p1" by (rule checked(1))
  have "row_ok p (own_row ''addr_sp'' ''addr_sp_label'' validateNumeric)" "row_ok p (own_row ''addr_ep'' ''addr_ep_label'' validateNumeric)"
    using checked(2) [of "own_row ''addr_sp'' ''addr_sp_label'' validateNumeric"] checked(2) [of "own_row ''addr_ep'' ''addr_ep_label'' validateNumeric"]
      own_row_facts(1) ready by (simp_all add: forward_range_rows_def)
  then show n: "number_text (val_at p ''addr_sp'')" "number_text (val_at p ''addr_ep'')"
    using own_row_facts(3) ready_doc ready by (simp_all add: numeric.code_iff)
  have "doc p ''addr_prot'' \<noteq> None" using assms(2,3) by (auto simp: form_ok_def prot_ok_def)
  then have v: "val_at p1 ''addr_prot'' = val_at p ''addr_prot''" "val_at p1 ''addr_sp'' = val_at p ''addr_sp''" "val_at p1 ''addr_ep'' = val_at p ''addr_ep''"
    using same_fields_val [OF same] ready_doc ready by simp_all
  obtain sp ep prot where e: "get_el p1 ''addr_sp'' = Inr sp" "get_el p1 ''addr_ep'' = Inr ep" "get_el p1 ''addr_prot'' = Inr prot"
      "\<not> gt_num (js_integer (get_value sp)) (js_integer (get_value ep))"
      "filter (range_single_clash (t_both ts) (get_value prot) (get_value sp) (get_value ep)) (portf st) = []"
      "filter (range_range_clash (t_both ts) (get_value prot) (get_value sp) (get_value ep)) (other_rows ex (portfrange st)) = []"
    using assms(1,3) pf by (auto simp: proofreadForwardRange_def res_bind_Inr_iff Let_def split: if_splits)
  have g: "get_value sp = val_at p ''addr_sp''" "get_value ep = val_at p ''addr_ep''" "get_value prot = val_at p ''addr_prot''"
    using get_el_val [OF e(1)] get_el_val [OF e(2)] get_el_val [OF e(3)] v by simp_all
  show "dec_val (val_at p ''addr_sp'') \<le> dec_val (val_at p ''addr_ep'')" using e(4) n by (simp add: g gt_num_def js_integer_number)
  show "filter (range_single_clash (t_both ts) (val_at p ''addr_prot'') (val_at p ''addr_sp'') (val_at p ''addr_ep'')) (portf st) = []"
      "filter (range_range_clash (t_both ts) (val_at p ''addr_prot'') (val_at p ''addr_sp'') (val_at p ''addr_ep'')) (other_rows ex (portfrange st)) = []"
    using e(5,6) by (simp_all only: g)
qed

lemma rule_ok_rows:
  assumes "forwards_ok both rows ranges" "t \<in> set (map fwd_rule rows @ map range_rule ranges)"
  shows "rule_ok both t"
  using assms by (simp add: forwards_ok_def list_all_iff)

text \<open>The rows of both tables as one list.\<close>

definition both_tables :: "'a list \<Rightarrow> 'b list \<Rightarrow> ('a + 'b) list" where
  "both_tables rows ranges = map Inl rows @ map Inr ranges"

abbreviation row_rule :: "fwd_row + range_row \<Rightarrow> rule" where
  "row_rule \<equiv> case_sum fwd_rule range_rule"

lemma both_tables_rules: "map row_rule (both_tables rows ranges) = map fwd_rule rows @ map range_rule ranges"
  by (simp add: both_tables_def)

lemma merge_singles:
  assumes ok: "forwards_ok both rows ranges" and prot: "v ! 1 \<in> {''TCP'', ''UDP'', both}"
    and clear: "rules.clear_of both (v ! 1, dec_val (v ! 2), dec_val (v ! 2), []) (map fwd_rule rows @ map range_rule ranges)"
  shows "forwards_ok both (map (\<lambda>r. if same_forward v r then r\<lparr>fw_prot := both, fw_desc := merged_desc (v ! 0) (fw_desc r)\<rparr> else r) rows) ranges"
proof -
  let ?f = "\<lambda>r :: fwd_row. r\<lparr>fw_prot := both, fw_desc := merged_desc (v ! 0) (fw_desc r)\<rparr>"
  let ?new = "(v ! 1, dec_val (v ! 2), dec_val (v ! 2), []) :: rule"
  define P where "P = case_sum (same_forward v) (\<lambda>_ :: range_row. False)"
  define g where "g = map_sum ?f (\<lambda>r :: range_row. r)"
  have row: "row_rule (Inl r) = (other_proto (v ! 1), dec_val (v ! 2), dec_val (v ! 2), [])"
      "row_rule (g (Inl r)) = (both, dec_val (v ! 2), dec_val (v ! 2), [])" if "same_forward v r" for r
    using that by (simp_all add: same_forward_def fwd_rule_def g_def)
  have "rules.conflict_free both (map row_rule (map (\<lambda>x. if P x then g x else x) (both_tables rows ranges)))"
  proof (rule rules.conflict_free_merge)
    show "rules.conflict_free both (map row_rule (both_tables rows ranges))" "rules.clear_of both ?new (map row_rule (both_tables rows ranges))"
      using ok clear by (simp_all add: both_tables_rules forwards_ok_def)
    show "rule_clash both (row_rule x) (row_rule y) \<or> rule_clash both ?new (row_rule y)"
      if xy: "x \<in> set (both_tables rows ranges)" "y \<in> set (both_tables rows ranges)" "P x" "rule_clash both (row_rule (g x)) (row_rule y)" for x y
    proof -
      obtain r where r: "x = Inl r" "same_forward v r" using xy(3) by (cases x) (auto simp: P_def)
      have "row_rule y \<in> set (map fwd_rule rows @ map range_rule ranges)" using xy(2) both_tables_rules by (metis image_eqI set_map)
      then have "rule_ok both (row_rule y)" by (rule rule_ok_rows [OF ok])
      then show ?thesis using merge_grows [OF prot] xy(4) row [OF r(2)] unfolding r(1) by (cases "row_rule y") metis
    qed
    show "rule_clash both (row_rule x) (row_rule y)" if xy: "P x" "P y" for x y
    proof -
      obtain r s where "x = Inl r" "same_forward v r" "y = Inl s" "same_forward v s" using xy by (cases x; cases y) (auto simp: P_def)
      then show ?thesis using row(1) by (simp add: rule_clash_def shares_proto_def)
    qed
  qed
  moreover have "map (\<lambda>x. if P x then g x else x) (both_tables rows ranges) =
      both_tables (map (\<lambda>r. if same_forward v r then ?f r else r) rows) ranges"
    by (simp add: both_tables_def P_def g_def)
  ultimately have "rules.conflict_free both (map fwd_rule (map (\<lambda>r. if same_forward v r then ?f r else r) rows) @ map range_rule ranges)"
    by (simp only: both_tables_rules)
  moreover have "rule_ok both (fwd_rule (if same_forward v r then ?f r else r))" if "r \<in> set rows" for r
    using rule_ok_rows [OF ok, of "fwd_rule r"] that by (auto simp: rule_ok_def fwd_rule_def)
  ultimately show ?thesis using ok by (auto simp: forwards_ok_def list_all_iff)
qed

lemma merge_ranges:
  assumes ok: "forwards_ok both rows ranges" and prot: "v ! 1 \<in> {''TCP'', ''UDP'', both}" and le: "dec_val (v ! 2) \<le> dec_val (v ! 3)"
    and clear: "rules.clear_of both (v ! 1, dec_val (v ! 2), dec_val (v ! 3), []) (map fwd_rule rows @ map range_rule ranges)"
  shows "forwards_ok both rows (map (\<lambda>r. if same_range v r then r\<lparr>rg_prot := both, rg_desc := merged_desc (v ! 0) (rg_desc r)\<rparr> else r) ranges)"
proof -
  let ?f = "\<lambda>r :: range_row. r\<lparr>rg_prot := both, rg_desc := merged_desc (v ! 0) (rg_desc r)\<rparr>"
  let ?new = "(v ! 1, dec_val (v ! 2), dec_val (v ! 3), []) :: rule"
  define P where "P = case_sum (\<lambda>_ :: fwd_row. False) (same_range v)"
  define g where "g = map_sum (\<lambda>r :: fwd_row. r) ?f"
  have row: "row_rule (Inr r) = (other_proto (v ! 1), dec_val (v ! 2), dec_val (v ! 3), [])"
      "row_rule (g (Inr r)) = (both, dec_val (v ! 2), dec_val (v ! 3), [])" if "same_range v r" for r
    using that by (simp_all add: same_range_def range_rule_def g_def)
  have "rules.conflict_free both (map row_rule (map (\<lambda>x. if P x then g x else x) (both_tables rows ranges)))"
  proof (rule rules.conflict_free_merge)
    show "rules.conflict_free both (map row_rule (both_tables rows ranges))" "rules.clear_of both ?new (map row_rule (both_tables rows ranges))"
      using ok clear by (simp_all add: both_tables_rules forwards_ok_def)
    show "rule_clash both (row_rule x) (row_rule y) \<or> rule_clash both ?new (row_rule y)"
      if xy: "x \<in> set (both_tables rows ranges)" "y \<in> set (both_tables rows ranges)" "P x" "rule_clash both (row_rule (g x)) (row_rule y)" for x y
    proof -
      obtain r where r: "x = Inr r" "same_range v r" using xy(3) by (cases x) (auto simp: P_def)
      have "row_rule y \<in> set (map fwd_rule rows @ map range_rule ranges)" using xy(2) both_tables_rules by (metis image_eqI set_map)
      then have "rule_ok both (row_rule y)" by (rule rule_ok_rows [OF ok])
      then show ?thesis using merge_grows [OF prot] xy(4) row [OF r(2)] unfolding r(1) by (cases "row_rule y") metis
    qed
    show "rule_clash both (row_rule x) (row_rule y)" if xy: "P x" "P y" for x y
    proof -
      obtain r s where "x = Inr r" "same_range v r" "y = Inr s" "same_range v s" using xy by (cases x; cases y) (auto simp: P_def)
      then show ?thesis using row(1) le by (simp add: rule_clash_def shares_proto_def)
    qed
  qed
  moreover have "map (\<lambda>x. if P x then g x else x) (both_tables rows ranges) =
      both_tables rows (map (\<lambda>r. if same_range v r then ?f r else r) ranges)"
    by (simp add: both_tables_def P_def g_def)
  ultimately have "rules.conflict_free both (map fwd_rule rows @ map range_rule (map (\<lambda>r. if same_range v r then ?f r else r) ranges))"
    by (simp only: both_tables_rules)
  moreover have "rule_ok both (range_rule (if same_range v r then ?f r else r))" if "r \<in> set ranges" for r
    using rule_ok_rows [OF ok, of "range_rule r"] that by (auto simp: rule_ok_def range_rule_def)
  ultimately show ?thesis using ok by (auto simp: forwards_ok_def list_all_iff)
qed

lemma forwards_ok_new_single:
  assumes "forwards_ok both rows ranges" "plain_port (fw_fp r)" "fw_prot r \<in> {''TCP'', ''UDP'', both}"
    and "rules.clear_of both (fwd_rule r) (map fwd_rule rows @ map range_rule ranges)"
  shows "forwards_ok both (rows @ [r]) ranges"
  using assms rules.conflict_free_insert [of both "map fwd_rule rows" "map range_rule ranges" "fwd_rule r"]
  by (auto simp: forwards_ok_def list_all_iff rule_ok_def fwd_rule_def)

lemma forwards_ok_new_range:
  assumes "forwards_ok both rows ranges" "number_text (rg_sp r)" "number_text (rg_ep r)" "rule_ok both (range_rule r)"
    and "rules.clear_of both (range_rule r) (map fwd_rule rows @ map range_rule ranges)"
  shows "forwards_ok both rows (ranges @ [r])"
  using assms rules.conflict_free_insert [of both "map fwd_rule rows @ map range_rule ranges" "[]" "range_rule r"]
  by (auto simp: forwards_ok_def list_all_iff)

lemma number_dash: "number_text s \<Longrightarrow> dash s = s"
  by (auto simp: dash_def number_text_def)

lemma addPortfRule_keeps:
  assumes "addPortfRule ts st = Inr st'" "form_ok ts (fs_page st)" "forwards_ok (t_both ts) (portf st) (portfrange st)"
  shows "forwards_ok (t_both ts) (portf st') (portfrange st')"
proof -
  define p where "p = fs_page st"
  obtain p1 errors where pe: "proofreadForwardSingle ts None st = Inr (p1, errors)"
    using assms(1) by (auto simp: addPortfRule_def res_bind_Inr_iff)
  show ?thesis
  proof (cases "errors = []")
    case False
    then have "portf st' = portf st" "portfrange st' = portfrange st" using assms(1) pe by (auto simp: addPortfRule_def)
    then show ?thesis using assms(3) by simp
  next
    case True
    note acc = forward_single_accepted [OF pe [unfolded True] assms(2) p_def, unfolded other_rows_eq]
    obtain p2 v0 v where v: "fold_res take_value [''add_desc'', ''add_prot'', ''add_fp'', ''add_ip'', ''add_dp''] (p1, []) = Inr (p2, v0)"
        "v = v0[4 := (if v0 ! 4 = ''-'' then v0 ! 2 else v0 ! 4)]" "portf st' = add_forward (t_both ts) v (portf st)" "portfrange st' = portfrange st"
      using assms(1) pe True by (auto simp: addPortfRule_def res_bind_Inr_iff Let_def)
    have prot: "prot_ok ts p ''add_prot''" and f: "form_ok ts p" and ready: "ready p ''add_fp''" using assms(2) by (simp_all add: form_ok_def p_def)
    have "v0 = map (\<lambda>i. dash (val_at p1 i)) [''add_desc'', ''add_prot'', ''add_fp'', ''add_ip'', ''add_dp'']"
      using take_values [OF v(1)] by simp
    then have vs: "v ! 1 = val_at p ''add_prot''" "v ! 2 = val_at p ''add_fp''"
      using same_fields_val [OF acc(1), of "''add_prot''"] same_fields_val [OF acc(1) ready_doc [OF ready]] prot
        prot_ok_facts(2) [OF f prot] number_dash acc(2)
      by (auto simp: v(2) prot_ok_def plain_port_def)
    have pr: "v ! 1 \<in> {''TCP'', ''UDP'', t_both ts}" "cell_text (v ! 1) = v ! 1" using prot_ok_facts [OF f prot] vs by simp_all
    have clear: "rules.clear_of (t_both ts) (v ! 1, dec_val (v ! 2), dec_val (v ! 2), []) (map fwd_rule (portf st) @ map range_rule (portfrange st))"
      using single_checked [OF assms(3) acc(2) order_refl, of "v ! 1"] acc(3,4) vs by simp
    have "cell_text (v ! 2) = v ! 2" "plain_port (v ! 2)" using acc(2) vs number_line by (simp_all add: plain_port_def)
    then show ?thesis
      using merge_singles [OF assms(3) pr(1) clear] forwards_ok_new_single [OF assms(3)] clear pr
      by (simp add: v(3,4) add_forward_def fwd_rule_def)
  qed
qed

lemma addPortfRangeRule_keeps:
  assumes "addPortfRangeRule ts st = Inr st'" "form_ok ts (fs_page st)" "forwards_ok (t_both ts) (portf st) (portfrange st)"
  shows "forwards_ok (t_both ts) (portf st') (portfrange st')"
proof -
  define p where "p = fs_page st"
  obtain p1 errors where pe: "proofreadForwardRange ts None st = Inr (p1, errors)"
    using assms(1) by (auto simp: addPortfRangeRule_def res_bind_Inr_iff)
  show ?thesis
  proof (cases "errors = []")
    case False
    then have "portf st' = portf st" "portfrange st' = portfrange st" using assms(1) pe by (auto simp: addPortfRangeRule_def)
    then show ?thesis using assms(3) by simp
  next
    case True
    note acc = forward_range_accepted [OF pe [unfolded True] assms(2) p_def, unfolded other_rows_eq]
    obtain p2 v where v: "fold_res take_value [''addr_desc'', ''addr_prot'', ''addr_sp'', ''addr_ep'', ''addr_ip''] (p1, []) = Inr (p2, v)"
        "portf st' = portf st" "portfrange st' = add_range (t_both ts) v (portfrange st)"
      using assms(1) pe True by (auto simp: addPortfRangeRule_def res_bind_Inr_iff)
    have prot: "prot_ok ts p ''addr_prot''" and f: "form_ok ts p" and ready: "ready p ''addr_sp''" "ready p ''addr_ep''"
      using assms(2) by (simp_all add: form_ok_def p_def)
    have "v = map (\<lambda>i. dash (val_at p1 i)) [''addr_desc'', ''addr_prot'', ''addr_sp'', ''addr_ep'', ''addr_ip'']"
      using take_values [OF v(1)] by simp
    then have vs: "v ! 1 = val_at p ''addr_prot''" "v ! 2 = val_at p ''addr_sp''" "v ! 3 = val_at p ''addr_ep''"
      using same_fields_val [OF acc(1), of "''addr_prot''"] same_fields_val [OF acc(1) ready_doc [OF ready(1)]]
        same_fields_val [OF acc(1) ready_doc [OF ready(2)]] prot prot_ok_facts(2) [OF f prot] number_dash acc(2,3)
      by (auto simp: prot_ok_def)
    have pr: "v ! 1 \<in> {''TCP'', ''UDP'', t_both ts}" "cell_text (v ! 1) = v ! 1" using prot_ok_facts [OF f prot] vs by simp_all
    have clear: "rules.clear_of (t_both ts) (v ! 1, dec_val (v ! 2), dec_val (v ! 3), []) (map fwd_rule (portf st) @ map range_rule (portfrange st))"
      using range_checked [OF assms(3) acc(2,3) order_refl, of "v ! 1"] acc(5,6) vs by simp
    have "cell_text (v ! 2) = v ! 2" "cell_text (v ! 3) = v ! 3" using acc(2,3) vs number_line by simp_all
    then have "range_rule (new_range v) = (v ! 1, dec_val (v ! 2), dec_val (v ! 3), [])" "number_text (rg_sp (new_range v))" "number_text (rg_ep (new_range v))"
      using pr(2) acc(2,3) vs by (simp_all add: new_range_def range_rule_def)
    then show ?thesis
      using merge_ranges [OF assms(3) pr(1) _ clear] forwards_ok_new_range [OF assms(3), of "new_range v"] clear pr acc(4) vs
      by (simp add: v(2,3) add_range_def rule_ok_def)
  qed
qed

lemma forwards_ok_set_single:
  assumes "forwards_ok both rows ranges" "i < length rows" "plain_port (fw_fp r)" "fw_prot r \<in> {''TCP'', ''UDP'', both}"
    and "rules.clear_of both (fwd_rule r) (map fwd_rule (take i rows @ drop (Suc i) rows) @ map range_rule ranges)"
  shows "forwards_ok both (rows[i := r]) ranges"
proof -
  let ?all = "map fwd_rule rows @ map range_rule ranges"
  have "take i ?all @ drop (Suc i) ?all = map fwd_rule (take i rows @ drop (Suc i) rows) @ map range_rule ranges"
    using assms(2) by (simp add: take_map drop_map)
  then have "rules.conflict_free both (?all[i := fwd_rule r])"
    using assms(1,2,5) by (intro rules.conflict_free_update) (simp_all add: forwards_ok_def)
  moreover have "?all[i := fwd_rule r] = map fwd_rule (rows[i := r]) @ map range_rule ranges"
    using assms(2) by (simp add: list_update_append map_update)
  moreover have "rule_ok both (fwd_rule r)" using assms(4) by (simp add: rule_ok_def fwd_rule_def)
  ultimately show ?thesis using assms(1,3) by (auto simp: forwards_ok_def list_all_iff dest!: set_update_subset_insert [THEN subsetD])
qed

lemma forwards_ok_set_range:
  assumes "forwards_ok both rows ranges" "i < length ranges" "number_text (rg_sp r)" "number_text (rg_ep r)" "rule_ok both (range_rule r)"
    and "rules.clear_of both (range_rule r) (map fwd_rule rows @ map range_rule (take i ranges @ drop (Suc i) ranges))"
  shows "forwards_ok both rows (ranges[i := r])"
proof -
  let ?all = "map fwd_rule rows @ map range_rule ranges" and ?i = "length rows + i"
  have "take ?i ?all @ drop (Suc ?i) ?all = map fwd_rule rows @ map range_rule (take i ranges @ drop (Suc i) ranges)"
    by (simp add: take_map drop_map)
  then have "rules.conflict_free both (?all[?i := range_rule r])"
    using assms(1,2,6) by (intro rules.conflict_free_update) (simp_all add: forwards_ok_def)
  moreover have "?all[?i := range_rule r] = map fwd_rule rows @ map range_rule (ranges[i := r])"
    by (simp add: list_update_append map_update)
  ultimately show ?thesis using assms(1,3,4,5) by (auto simp: forwards_ok_def list_all_iff dest!: set_update_subset_insert [THEN subsetD])
qed

lemma selected_text_val:
  assumes "selected_text ts i p = Inr (p', s)" "doc p i = Some e" "is_select e"
  shows "p' = p" "s = get_value e"
  using assms by (auto simp: selected_text_def getSelectedValue_def res_bind_Inr_iff get_value_def nth_opt_def split: if_splits option.splits)

lemma prot_selected:
  assumes "selected_text ts i p1 = Inr (p2, s)" "same_fields p p1" "prot_ok ts p i"
  shows "p2 = p1" "s = val_at p i"
proof -
  obtain e c where e: "doc p i = Some e" "is_select e" "doc p1 i = Some (e\<lparr>el_color := c\<rparr>)"
    using assms(2,3) by (auto simp: prot_ok_def dest!: same_fieldsD)
  then have "is_select (e\<lparr>el_color := c\<rparr>)" by (simp add: is_select_def)
  then show "p2 = p1" "s = val_at p i" using selected_text_val [OF assms(1) e(3)] e(1) by simp_all
qed

lemma editForward_keeps_single:
  assumes "editForward ts True i st = Inr st'" "form_ok ts (fs_page st)" "i < length (portf st)"
    and "forwards_ok (t_both ts) (portf st) (portfrange st)"
  shows "forwards_ok (t_both ts) (portf st') (portfrange st')"
proof -
  define p where "p = fs_page st"
  obtain p1 errors where pe: "proofreadForwardSingle ts (Some i) st = Inr (p1, errors)"
    using assms(1) by (auto simp: editForward_def res_bind_Inr_iff)
  show ?thesis
  proof (cases "errors = []")
    case False
    then have "portf st' = portf st" "portfrange st' = portfrange st" using assms(1) pe by (auto simp: editForward_def)
    then show ?thesis using assms(4) by simp
  next
    case True
    note acc = forward_single_accepted [OF pe [unfolded True] assms(2) p_def, unfolded other_rows_eq(2) [OF assms(3)]]
    obtain desc p2 prot fp ip dp where e: "selected_text ts ''add_prot'' p1 = Inr (p2, prot)" "field_text p2 ''add_fp'' = Inr fp"
        "portf st' = (portf st)[i := (portf st ! i)\<lparr>fw_desc := desc, fw_prot := prot, fw_fp := fp, fw_ip := ip, fw_dp := dp\<rparr>]"
        "portfrange st' = portfrange st"
      using assms(1) pe True by (auto simp: editForward_def res_bind_Inr_iff Let_def)
    have prok: "prot_ok ts p ''add_prot''" and f: "form_ok ts p" and ready: "ready p ''add_fp''" using assms(2) by (simp_all add: form_ok_def p_def)
    have v: "prot = val_at p ''add_prot''" "fp = val_at p ''add_fp''"
      using prot_selected [OF e(1) acc(1) prok] field_text_val [OF e(2)] same_fields_val [OF acc(1) ready_doc [OF ready]] by simp_all
    have "rules.clear_of (t_both ts) (prot, dec_val fp, dec_val fp, []) (map fwd_rule (take i (portf st) @ drop (Suc i) (portf st)) @ map range_rule (portfrange st))"
      using single_checked [OF assms(4) acc(2), of "take i (portf st) @ drop (Suc i) (portf st)" prot] acc(3,4) v
      by (simp add: set_take_subset set_drop_subset)
    then show ?thesis
      using forwards_ok_set_single [OF assms(4,3)] acc(2) prot_ok_facts(1) [OF f prok] v by (simp add: e(3,4) fwd_rule_def)
  qed
qed

lemma editForward_keeps_range:
  assumes "editForward ts False i st = Inr st'" "form_ok ts (fs_page st)" "i < length (portfrange st)"
    and "forwards_ok (t_both ts) (portf st) (portfrange st)"
  shows "forwards_ok (t_both ts) (portf st') (portfrange st')"
proof -
  define p where "p = fs_page st"
  obtain p1 errors where pe: "proofreadForwardRange ts (Some i) st = Inr (p1, errors)"
    using assms(1) by (auto simp: editForward_def res_bind_Inr_iff)
  show ?thesis
  proof (cases "errors = []")
    case False
    then have "portf st' = portf st" "portfrange st' = portfrange st" using assms(1) pe by (auto simp: editForward_def)
    then show ?thesis using assms(4) by simp
  next
    case True
    note acc = forward_range_accepted [OF pe [unfolded True] assms(2) p_def, unfolded other_rows_eq(2) [OF assms(3)]]
    obtain desc p2 prot sp ep ip where e: "selected_text ts ''addr_prot'' p1 = Inr (p2, prot)" "field_text p2 ''addr_sp'' = Inr sp" "field_text p2 ''addr_ep'' = Inr ep"
        "portf st' = portf st"
        "portfrange st' = (portfrange st)[i := (portfrange st ! i)\<lparr>rg_desc := desc, rg_prot := prot, rg_sp := sp, rg_ep := ep, rg_ip := ip\<rparr>]"
      using assms(1) pe True by (auto simp: editForward_def res_bind_Inr_iff Let_def)
    have prok: "prot_ok ts p ''addr_prot''" and f: "form_ok ts p" and ready: "ready p ''addr_sp''" "ready p ''addr_ep''"
      using assms(2) by (simp_all add: form_ok_def p_def)
    have v: "prot = val_at p ''addr_prot''" "sp = val_at p ''addr_sp''" "ep = val_at p ''addr_ep''"
      using prot_selected [OF e(1) acc(1) prok] field_text_val [OF e(2)] field_text_val [OF e(3)]
        same_fields_val [OF acc(1) ready_doc [OF ready(1)]] same_fields_val [OF acc(1) ready_doc [OF ready(2)]] by simp_all
    have "rules.clear_of (t_both ts) (prot, dec_val sp, dec_val ep, []) (map fwd_rule (portf st) @ map range_rule (take i (portfrange st) @ drop (Suc i) (portfrange st)))"
      using range_checked [OF assms(4) acc(2,3), of "take i (portfrange st) @ drop (Suc i) (portfrange st)" prot] acc(5,6) v
      by (simp add: set_take_subset set_drop_subset)
    then show ?thesis
      using forwards_ok_set_range [OF assms(4,3)] acc(2-4) prot_ok_facts(1) [OF f prok] v by (simp add: e(4,5) range_rule_def rule_ok_def)
  qed
qed

section \<open>A session on the page\<close>

text \<open>
  What a user can do to the two tables: fill in the forms, add and edit rules, remove a row with its
  button, and tick a row on or off.
\<close>

inductive user_step :: "fwd_strings \<Rightarrow> fwd_state \<Rightarrow> fwd_state \<Rightarrow> bool" for ts where
  fill_in: "form_ok ts p \<Longrightarrow> user_step ts st (st\<lparr>fs_page := p\<rparr>)"
| add_single: "form_ok ts (fs_page st) \<Longrightarrow> addPortfRule ts st = Inr st' \<Longrightarrow> user_step ts st st'"
| add_ranges: "form_ok ts (fs_page st) \<Longrightarrow> addPortfRangeRule ts st = Inr st' \<Longrightarrow> user_step ts st st'"
| edit_single: "form_ok ts (fs_page st) \<Longrightarrow> i < length (portf st) \<Longrightarrow> editForward ts True i st = Inr st' \<Longrightarrow> user_step ts st st'"
| edit_range: "form_ok ts (fs_page st) \<Longrightarrow> i < length (portfrange st) \<Longrightarrow> editForward ts False i st = Inr st' \<Longrightarrow> user_step ts st st'"
| remove_single: "user_step ts st (st\<lparr>portf := take i (portf st) @ drop (Suc i) (portf st)\<rparr>)"
| remove_range: "user_step ts st (st\<lparr>portfrange := take i (portfrange st) @ drop (Suc i) (portfrange st)\<rparr>)"
| tick_single: "i < length (portf st) \<Longrightarrow> user_step ts st (st\<lparr>portf := (portf st)[i := (portf st ! i)\<lparr>fw_on := b\<rparr>]\<rparr>)"
| tick_range: "i < length (portfrange st) \<Longrightarrow> user_step ts st (st\<lparr>portfrange := (portfrange st)[i := (portfrange st ! i)\<lparr>rg_on := b\<rparr>]\<rparr>)"

inductive_cases user_stepE: "user_step ts st st'"

lemma forwards_ok_drop:
  assumes "forwards_ok both rows ranges"
  shows "forwards_ok both (take i rows @ drop (Suc i) rows) ranges" "forwards_ok both rows (take i ranges @ drop (Suc i) ranges)"
proof -
  have split: "take i xs @ drop (Suc i) xs = xs \<or> (\<exists>x. xs = take i xs @ x # drop (Suc i) xs)" for xs :: "'z list"
    by (cases "i < length xs") (use id_take_nth_drop [of i xs] in \<open>auto\<close>)
  have "forwards_ok both (as @ bs) ranges" if "rows = as @ x # bs" for as x bs
    using assms by (auto simp: that forwards_ok_def rules.conflict_free_append rules.clear_of_def)
  then show "forwards_ok both (take i rows @ drop (Suc i) rows) ranges" using split [of rows] assms by metis
  have "forwards_ok both rows (as @ bs)" if "ranges = as @ x # bs" for as x bs
    using assms by (auto simp: that forwards_ok_def rules.conflict_free_append rules.clear_of_def)
  then show "forwards_ok both rows (take i ranges @ drop (Suc i) ranges)" using split [of ranges] assms by metis
qed

lemma list_all_update: "list_all Q xs \<Longrightarrow> (i < length xs \<Longrightarrow> Q (xs ! i) \<Longrightarrow> Q x) \<Longrightarrow> list_all Q (xs[i := x])"
  by (cases "i < length xs") (auto simp: list_all_iff not_less list_update_beyond dest!: set_update_subset_insert [THEN subsetD])

lemma forwards_ok_tick:
  assumes "forwards_ok both rows ranges"
  shows "forwards_ok both (rows[i := (rows ! i)\<lparr>fw_on := b\<rparr>]) ranges" "forwards_ok both rows (ranges[i := (ranges ! i)\<lparr>rg_on := b\<rparr>])"
proof -
  have "map fwd_rule (rows[i := (rows ! i)\<lparr>fw_on := b\<rparr>]) = map fwd_rule rows" 
    by (cases "i < length rows") (simp_all add: map_update fwd_rule_def list_update_same_conv list_update_beyond)
  then show "forwards_ok both (rows[i := (rows ! i)\<lparr>fw_on := b\<rparr>]) ranges"
    using assms list_all_update [of "\<lambda>r. plain_port (fw_fp r)" rows i "(rows ! i)\<lparr>fw_on := b\<rparr>"] by (simp add: forwards_ok_def)
  have "map range_rule (ranges[i := (ranges ! i)\<lparr>rg_on := b\<rparr>]) = map range_rule ranges"
    by (cases "i < length ranges") (simp_all add: map_update range_rule_def list_update_same_conv list_update_beyond)
  then show "forwards_ok both rows (ranges[i := (ranges ! i)\<lparr>rg_on := b\<rparr>])"
    using assms list_all_update [of "\<lambda>r. number_text (rg_sp r) \<and> number_text (rg_ep r)" ranges i "(ranges ! i)\<lparr>rg_on := b\<rparr>"]
    by (simp add: forwards_ok_def)
qed

lemma user_step_keeps:
  assumes "user_step ts st st'" "forwards_ok (t_both ts) (portf st) (portfrange st)"
  shows "forwards_ok (t_both ts) (portf st') (portfrange st')"
  using assms
  by (cases rule: user_step.cases)
    (auto intro: addPortfRule_keeps addPortfRangeRule_keeps editForward_keeps_single editForward_keeps_range forwards_ok_drop forwards_ok_tick)

text \<open>
  C8. Whatever a user does on the page, filling in ports without leading zeros: starting from forwarding tables
  without clashes, every state reached has tables in which no two rules forward the same port of the same
  protocol.
\<close>

theorem forward_session_free:
  assumes "(user_step ts)\<^sup>*\<^sup>* st st'" "forwards_ok (t_both ts) (portf st) (portfrange st)"
    and "rs = map fwd_rule (portf st') @ map range_rule (portfrange st')"
  shows "forwards_ok (t_both ts) (portf st') (portfrange st')
    \<and> (\<forall>i < length rs. \<forall>j < length rs. i \<noteq> j \<longrightarrow> rule_traffic (t_both ts) (rs ! i) \<inter> rule_traffic (t_both ts) (rs ! j) = {})"
proof -
  have ok: "forwards_ok (t_both ts) (portf st') (portfrange st')"
    using assms(1,2) by (induction rule: rtranclp_induct) (auto intro: user_step_keeps)
  have "rule_traffic (t_both ts) (rs ! i) \<inter> rule_traffic (t_both ts) (rs ! j) = {}" if ij: "i < length rs" "j < length rs" "i \<noteq> j" for i j
  proof -
    have "sorted_wrt (\<lambda>r s. \<not> rule_clash (t_both ts) r s) rs"
      using ok unfolding assms(3) forwards_ok_def rules.conflict_free_def by blast
    then have "\<not> rule_clash (t_both ts) (rs ! i) (rs ! j)"
      using ij rules.clash_sym unfolding sorted_wrt_iff_nth_less by (metis linorder_neqE_nat)
    moreover have "rule_ok (t_both ts) (rs ! i)" "rule_ok (t_both ts) (rs ! j)"
      using rule_ok_rows [OF ok] ij unfolding assms(3) by (metis nth_mem)+
    ultimately show ?thesis using rule_clash_iff by blast
  qed
  then show ?thesis using ok by blast
qed

text \<open>
  C36. Where the checks fail. A port with a leading zero is not recognised as a port that is forwarded already.
  And the merge of an opened range with its twin for the other protocol names the table of forwarded
  ranges: a \<open>ReferenceError\<close> unless a range was forwarded since the page was loaded, and otherwise the
  protocol of a forwarded range is changed while the opened range keeps its own.
\<close>

theorem port_checks_fail:
  assumes "proofreadOpenRange ts None st = Inr (p1, [])"
    and "fold_res take_value [''addor_desc'', ''addor_prot'', ''addor_sp'', ''addor_ep'', ''addor_ip''] (p1, []) = Inr (p2, v)"
    and "portorange st = [r]" "same_range (v[4 := ip6_canonical (v ! 4)]) r"
  shows "(portfRangeTable st = Undeclared \<longrightarrow> addPortoRangeRule ts st = Inl ReferenceError)
    \<and> (portfRangeTable st = OnPage \<longrightarrow> portfrange st = f # fs \<longrightarrow>
        (\<exists>st'. addPortoRangeRule ts st = Inr st' \<and> portfrange st' = f\<lparr>rg_prot := t_both ts\<rparr> # fs
           \<and> map rg_prot (portorange st') = map rg_prot (portorange st)))
    \<and> \<not> single_clash both prot ''080'' (row\<lparr>fw_fp := ''80''\<rparr>) \<and> dec_val ''080'' = dec_val ''80''"
proof -
  let ?v = "v[4 := ip6_canonical (v ! 4)]"
  have one: "filter (\<lambda>i. same_range ?v (portorange st ! i)) [0 ..< length (portorange st)] = [0]"
    using assms(3,4) by simp
  have add: "addPortoRangeRule ts st = merge_open_range (t_both ts) ?v 0 (st\<lparr>fs_page := p2\<rparr>)"
  proof -
    have "fold_res g [0] s = g 0 s" for g :: "nat \<Rightarrow> fwd_state \<Rightarrow> fwd_state js_result" and s by (cases "g 0 s") simp_all
    moreover have "res_bind m Inr = m" for m :: "fwd_state js_result" by (cases m) simp_all
    ultimately show ?thesis using one by (simp add: addPortoRangeRule_def assms(1,2) Let_def del: fold_res.simps)
  qed
  have "addPortoRangeRule ts st = Inl ReferenceError" if "portfRangeTable st = Undeclared"
    using that by (simp add: add merge_open_range_def)
  moreover have "\<exists>st'. addPortoRangeRule ts st = Inr st' \<and> portfrange st' = f\<lparr>rg_prot := t_both ts\<rparr> # fs
      \<and> map rg_prot (portorange st') = map rg_prot (portorange st)" if "portfRangeTable st = OnPage" "portfrange st = f # fs"
    using that by (simp add: add merge_open_range_def set_range_prot_def Let_def assms(3))
  moreover have "dec_val ''080'' = dec_val ''80''" by (simp add: base_val_def digit_val_def)
  ultimately show ?thesis by (simp add: single_clash_def)
qed

section \<open>A small page\<close>

definition demo_choice :: "string \<Rightarrow> element" where
  "demo_choice v = demo_text\<lparr>el_type := ''select-one'', el_options := [(v, v)], el_selected := 0\<rparr>"

definition demo_forms :: page where
  "demo_forms = \<lparr>doc = map_of
     (map (\<lambda>(i, v). (i, demo_text\<lparr>el_value := v\<rparr>))
        [(''add_desc'', ''web''), (''add_fp'', ''80''), (''add_ip'', ''192.168.1.10''), (''add_dp'', []),
         (''addr_sp'', ''1''), (''addr_ep'', ''2''), (''addr_ip'', ''192.168.1.10''),
         (''addor_desc'', []), (''addor_sp'', ''50''), (''addor_ep'', ''60''), (''addor_ip'', ''::1'')]
      @ map (\<lambda>(i, v). (i, demo_choice v)) [(''add_prot'', ''UDP''), (''addr_prot'', ''TCP''), (''addor_prot'', ''UDP'')]),
     alerts = [], gvalue = None\<rparr>"

definition demo_fwd_strings :: fwd_strings where
  "demo_fwd_strings = \<lparr>t_both = ''Both'', t_prfErr = ''Error in'', t_GTErr = ''order'', t_DupErr = ''dup'', t_CopErr = ''cop'', t_DupOErr = ''dup'',
     t_CopOErr = ''cop'', t_AFRErr = ''no'', t_AORErr = ''no'', t_UpErr = ''no'', t_ErrChanges = ''no'', t_Err = ''Error'', t_nex = ''missing''\<rparr>"

definition demo_forwards :: fwd_state where
  "demo_forwards = \<lparr>fs_page = demo_forms,
     portf = [\<lparr>fw_desc = ''-'', fw_prot = ''TCP'', fw_fp = ''80'', fw_ip = ''192.168.1.10'', fw_dp = ''80'', fw_on = True\<rparr>],
     portfrange = [], porto = [],
     portorange = [\<lparr>rg_desc = ''-'', rg_prot = ''TCP'', rg_sp = ''50'', rg_ep = ''60'', rg_ip = ''::1'', rg_on = True\<rparr>],
     portfRangeTable = Undeclared\<rparr>"

lemma demo_form_ok: "form_ok demo_fwd_strings demo_forms"
proof -
  have "plain_port ''80''" by code_simp
  then show ?thesis
    by (simp add: form_ok_def prot_ok_def ready_def demo_forms_def demo_fwd_strings_def demo_choice_def demo_text_def is_select_def
        get_value_def LF_def)
qed

theorem forward_session_free_witness:
  "\<exists>st'. user_step demo_fwd_strings demo_forwards st' \<and> map fw_prot (portf st') = [''Both'']
    \<and> forwards_ok ''Both'' (portf st') (portfrange st')"
proof -
  have "(case addPortfRule demo_fwd_strings demo_forwards of Inl e \<Rightarrow> False | Inr st' \<Rightarrow> map fw_prot (portf st') = [''Both''])" by code_simp
  then obtain st' where st': "addPortfRule demo_fwd_strings demo_forwards = Inr st'" "map fw_prot (portf st') = [''Both'']"
    by (auto split: sum.splits)
  have "fs_page demo_forwards = demo_forms" by (simp add: demo_forwards_def)
  then have step: "user_step demo_fwd_strings demo_forwards st'" using demo_form_ok st'(1) by (intro user_step.add_single) simp_all
  have "plain_port ''80''" by code_simp
  then have "forwards_ok (t_both demo_fwd_strings) (portf demo_forwards) (portfrange demo_forwards)"
    by (simp add: forwards_ok_def demo_forwards_def rule_ok_def fwd_rule_def rules.clear_of_def)
  from forward_session_free [OF r_into_rtranclp, of demo_fwd_strings demo_forwards st', OF step this refl]
  show ?thesis using step st'(2) by (auto simp: demo_fwd_strings_def)
qed

theorem port_checks_fail_witness: "addPortoRangeRule demo_fwd_strings demo_forwards = Inl ReferenceError"
proof -
  let ?ids = "[''addor_desc'', ''addor_prot'', ''addor_sp'', ''addor_ep'', ''addor_ip'']"
  have "(case proofreadFields (t_prfErr demo_fwd_strings) open_range_rows demo_forms of Inl e \<Rightarrow> False | Inr (p1, errs) \<Rightarrow> errs = [])" by code_simp
  then obtain p1 where p1: "proofreadFields (t_prfErr demo_fwd_strings) open_range_rows demo_forms = Inr (p1, [])"
    by (auto split: sum.splits prod.splits)
  have docs: "doc demo_forms ''addor_desc'' \<noteq> None \<and> val_at demo_forms ''addor_desc'' = []" "doc demo_forms ''addor_prot'' \<noteq> None \<and> val_at demo_forms ''addor_prot'' = ''UDP''"
      "doc demo_forms ''addor_sp'' \<noteq> None \<and> val_at demo_forms ''addor_sp'' = ''50''" "doc demo_forms ''addor_ep'' \<noteq> None \<and> val_at demo_forms ''addor_ep'' = ''60''"
      "doc demo_forms ''addor_ip'' \<noteq> None \<and> val_at demo_forms ''addor_ip'' = ''::1''"
    by (simp_all add: demo_forms_def demo_choice_def demo_text_def get_value_def is_select_def)
  have "\<forall>r \<in> set open_range_rows. row_present demo_forms r" using docs by (auto simp: open_range_rows_def intro!: own_row_facts(2))
  note same = same_fields_val [OF proofread_checked(1) [OF p1 this]]
  have el: "\<exists>e. get_el p1 i = Inr e \<and> get_value e = val_at demo_forms i" if "doc demo_forms i \<noteq> None" for i
    using same [OF that] by (auto simp: get_el_def)
  have can: "ip6_canonical ''::1'' = ''::1''" by code_simp
  have n: "js_integer ''50'' = Some 50" "js_integer ''60'' = Some 60" by code_simp+
  have st: "portorange demo_forwards = [\<lparr>rg_desc = ''-'', rg_prot = ''TCP'', rg_sp = ''50'', rg_ep = ''60'', rg_ip = ''::1'', rg_on = True\<rparr>]"
      "porto demo_forwards = []" "fs_page demo_forwards = demo_forms" "portfRangeTable demo_forwards = Undeclared" by (simp_all add: demo_forwards_def)
  have both: "t_both demo_fwd_strings = ''Both''" by (simp add: demo_fwd_strings_def)
  obtain ed ep es ee ei where "get_el p1 ''addor_desc'' = Inr ed" "get_el p1 ''addor_prot'' = Inr ep \<and> get_value ep = ''UDP''"
      "get_el p1 ''addor_sp'' = Inr es \<and> get_value es = ''50''" "get_el p1 ''addor_ep'' = Inr ee \<and> get_value ee = ''60''"
      "get_el p1 ''addor_ip'' = Inr ei \<and> get_value ei = ''::1''"
    using el [of "''addor_desc''"] el [of "''addor_prot''"] el [of "''addor_sp''"] el [of "''addor_ep''"] el [of "''addor_ip''"] docs by metis
  then have "proofreadOpenRange demo_fwd_strings None demo_forwards = Inr (p1, [])"
    by (simp add: proofreadOpenRange_def st p1 can n gt_num_def other_rows_eq range_range_clash_def shares_proto_def both)
  moreover obtain p2 v where v: "fold_res take_value ?ids (p1, []) = Inr (p2, v)" using take_values_defined [of ?ids p1 "[]"] same docs by auto
  moreover have "v = [''-'', ''UDP'', ''50'', ''60'', ''::1'']" using take_values [OF v] same docs by (simp add: dash_def)
  then have "same_range (v[4 := ip6_canonical (v ! 4)]) (hd (portorange demo_forwards))"
    by (simp add: can st same_range_def other_proto_def)
  ultimately show ?thesis
    using port_checks_fail [of demo_fwd_strings demo_forwards p1 p2 v "hd (portorange demo_forwards)"] st(1,4) by simp
qed

end
