(* ===== verification/Uci_Sections.thy ===== *)
theory Uci_Sections
  imports Uci_Container
begin

text \<open>
  Whole sections of a package: writing one with its options, and reading all sections of a type. The
  locale \<open>uci_package\<close> is the interface of a package by its name; it is interpreted by the pages that keep
  their rows as sections of a package. Shown: a section written under a fresh name is listed last and read
  as it was written, the other sections stay as they are, and sections are removed completely.
\<close>

section \<open>Sections\<close>

text \<open>One section: its type, and its options in order.\<close>

definition write_section :: "string \<Rightarrow> string \<Rightarrow> string \<Rightarrow> (string \<times> string) list \<Rightarrow> uci \<Rightarrow> uci" where
  "write_section pkg i ty options u =
     fold (\<lambda>(opt, v). uci_set pkg i opt (Str v) False) options (uci_set pkg i [] (Str ty) False u)"

text \<open>The sections of a type that \<open>own\<close> accepts, each by the function that reads its options.\<close>

definition readers :: "string \<Rightarrow> (string \<Rightarrow> bool) \<Rightarrow> uci \<Rightarrow> string \<Rightarrow> (string \<Rightarrow> uci_val) list" where
  "readers pkg own u ty = map (uci_get u pkg) (filter own (getAllSectionsOfType u pkg ty))"

definition sec_fresh :: "string \<Rightarrow> uci \<Rightarrow> string \<Rightarrow> bool" where
  "sec_fresh pkg u i \<longleftrightarrow> (\<forall>opt. uvals u (uci_key pkg i opt) = None)"

definition options_ok :: "(string \<times> string) list \<Rightarrow> bool" where
  "options_ok options \<longleftrightarrow> distinct (map fst options) \<and> list_all name_ok (map fst options)"

text \<open>What \<open>get\<close> returns for the options of a section that was written.\<close>

definition reader_of :: "string \<Rightarrow> (string \<times> string) list \<Rightarrow> string \<Rightarrow> uci_val" where
  "reader_of ty options opt =
     (if opt = [] then Str ty else Str (case map_of options opt of None \<Rightarrow> [] | Some v \<Rightarrow> v))"

section \<open>Folds and lists\<close>

lemma fold_res_map: "fold_res f (map g xs) s = fold_res (f \<circ> g) xs s"
  by (induction xs arbitrary: s) (auto simp: res_bind_def split: sum.splits)

lemma fold_res_concat: "fold_res f (concat xss) s = fold_res (fold_res f) xss s"
  by (induction xss arbitrary: s) (auto simp: fold_res_append res_bind_def split: sum.splits)

lemma fold_res_fst:
  assumes "\<And>x s. x \<in> set xs \<Longrightarrow> f x (s, r) = res_bind (g x s) (\<lambda>s'. Inr (s', r))"
  shows "fold_res f xs (s, r) = res_bind (fold_res g xs s) (\<lambda>s'. Inr (s', r))"
  using assms by (induction xs arbitrary: s) (auto simp: res_bind_def split: sum.splits)

lemma fold_res_snd:
  assumes "\<And>x s. x \<in> set xs \<Longrightarrow> f x (r, s) = res_bind (g x s) (\<lambda>s'. Inr (r, s'))"
  shows "fold_res f xs (r, s) = res_bind (fold_res g xs s) (\<lambda>s'. Inr (r, s'))"
  using assms by (induction xs arbitrary: s) (auto simp: res_bind_def split: sum.splits)

lemma set_fresh_keys:
  assumes "uci_wf u" "distinct (map fst kvs)" "set (map fst kvs) \<inter> dom (uvals u) = {}"
  shows "fold (\<lambda>(k, v). uci_set_key k v False) kvs u
      = u\<lparr>ukeys := ukeys u @ map fst kvs, uvals := uvals u ++ map_of kvs\<rparr>"
  using assms
proof (induction kvs arbitrary: u)
  case Nil
  then show ?case by simp
next
  case (Cons kv kvs)
  obtain k v where kv: "kv = (k, v)" by (cases kv)
  have "uvals u k = None" using Cons.prems(3) kv by auto
  moreover from this have "\<not> ulists u k" using uci_wf_list [OF Cons.prems(1), of k] by auto
  ultimately have one: "uci_set_key k v False u = u\<lparr>ukeys := ukeys u @ [k], uvals := (uvals u)(k \<mapsto> v)\<rparr>" by (simp add: uci_set_key_def)
  have "(uvals u)(k \<mapsto> v) ++ map_of kvs = uvals u ++ (map_of kvs)(k \<mapsto> v)"
    using Cons.prems(2) kv by (simp add: map_add_upd_left dom_map_of_conv_image_fst)
  moreover have "uci_wf (uci_set_key k v False u)" using uci_wf_set_key [OF Cons.prems(1)] .
  moreover have "set (map fst kvs) \<inter> dom ((uvals u)(k \<mapsto> v)) = {}" using Cons.prems(2,3) kv by auto
  ultimately show ?case
    using Cons.IH [of "uci_set_key k v False u"] Cons.prems(2) by (simp add: kv one del: fun_upd_apply map_add_upd)
qed

lemma map_of_keys:
  assumes "inj f"
  shows "map_of (map (\<lambda>(opt, v). (f opt, g v)) options) (f opt) = map_option g (map_of options opt)"
  using assms by (induction options) (auto dest: injD)

lemma map_filter_append: "List.map_filter f (xs @ ys) = List.map_filter f xs @ List.map_filter f ys"
  by (simp add: List.map_filter_def)

lemma map_filter_none: "(\<And>x. x \<in> set xs \<Longrightarrow> f x = None) \<Longrightarrow> List.map_filter f xs = []"
  by (induction xs) (auto simp: List.map_filter_simps)

lemma key_package: "name_ok p \<Longrightarrow> hd (split_on CHR ''.'' (uci_key p i opt)) = p"
  by (auto simp: uci_key_def Let_def name_ok_def split_on_append_sep)

lemma map_filter_skip:
  "(\<And>x. \<not> P x \<Longrightarrow> f x = None) \<Longrightarrow> List.map_filter f xs = List.map_filter f (filter P xs)"
  by (induction xs) (auto simp: List.map_filter_simps split: option.split)

text \<open>Options do not show in the listings of sections.\<close>

lemma listing_cong:
  assumes "\<And>key. match_section_key key \<noteq> None \<Longrightarrow> uvals w key = uvals u key"
    and "filter (\<lambda>k. match_section_key k \<noteq> None) (ukeys w) = filter (\<lambda>k. match_section_key k \<noteq> None) (ukeys u)"
  shows "getAllSectionsOfType w pkg ty = getAllSectionsOfType u pkg ty"
proof -
  let ?f = "\<lambda>u key. if re_search (re_of_string pkg) key
      then (case match_section_key key of Some (_, section) \<Rightarrow> if map_option val_string (uvals u key) = Some ty then Some section else None
            | None \<Rightarrow> None) else None"
  have skip: "List.map_filter (?f v) ks = List.map_filter (?f v) (filter (\<lambda>k. match_section_key k \<noteq> None) ks)" for v ks
    by (rule map_filter_skip) (auto split: option.split)
  have "List.map_filter (?f w) ks = List.map_filter (?f u) ks" for ks
    using assms(1) by (intro map_filter_cong) (auto split: option.split)
  then show ?thesis unfolding getAllSectionsOfType_def using skip [of w "ukeys w"] skip [of u "ukeys u"] assms(2) by simp
qed

section \<open>The interface of a package\<close>

locale uci_package =
  fixes pkg :: string
  assumes pkg_ok [simp]: "name_ok pkg"
begin

lemma pkg_search: "re_search (re_of_string pkg) s \<longleftrightarrow> sublist pkg s"
  using pkg_ok by (simp add: re_of_string_free re_search_Lit name_ok_def)

lemma key_search: "re_search (re_of_string pkg) (uci_key pkg i opt)"
  unfolding pkg_search by (simp add: uci_key_def Let_def)

lemma key_split:
  "name_ok i \<Longrightarrow> split_on CHR ''.'' (uci_key pkg i opt) = pkg # i # (if opt = [] then [] else split_on CHR ''.'' opt)"
  using pkg_ok by (simp add: uci_key_def name_ok_def split_on_append_sep Let_def)

lemma key_inj: "name_ok i \<Longrightarrow> name_ok j \<Longrightarrow> uci_key pkg i opt = uci_key pkg j opt' \<longleftrightarrow> i = j \<and> opt = opt'"
  using key_split [of i opt] key_split [of j opt'] by (auto simp: uci_key_def Let_def split: if_splits)

lemma write_section_eq:
  assumes "uci_wf u" "sec_fresh pkg u i" "name_ok i" "options_ok options"
  shows "write_section pkg i ty options u
      = u\<lparr>ukeys := ukeys u @ uci_key pkg i [] # map (uci_key pkg i) (map fst options),
          uvals := uvals u ++ map_of ((uci_key pkg i [], Str ty) # map (\<lambda>(opt, v). (uci_key pkg i opt, Str v)) options)\<rparr>"
proof -
  let ?kvs = "(uci_key pkg i [], Str ty) # map (\<lambda>(opt, v). (uci_key pkg i opt, Str v)) options"
  have fst: "map fst ?kvs = uci_key pkg i [] # map (uci_key pkg i) (map fst options)" by auto
  have "[] \<notin> set (map fst options)" using assms(4) by (auto simp: options_ok_def list_all_iff name_ok_def)
  moreover have "inj (uci_key pkg i)" using key_inj [OF assms(3,3)] by (simp add: inj_def)
  ultimately have "distinct (map fst ?kvs)"
    unfolding fst using assms(4) key_inj [OF assms(3,3)] by (auto simp: options_ok_def distinct_map inj_def inj_on_def)
  moreover have "set (map fst ?kvs) \<inter> dom (uvals u) = {}"
    unfolding fst using assms(2) by (auto simp: sec_fresh_def)
  moreover have "write_section pkg i ty options u = fold (\<lambda>(k, v). uci_set_key k v False) ?kvs u"
    by (simp add: write_section_def fold_map comp_def case_prod_unfold uci_set_def [abs_def])
  ultimately show ?thesis using set_fresh_keys [OF assms(1), of ?kvs] unfolding fst by simp
qed

lemma other_section_key:
  assumes "name_ok i" "name_ok j" "j \<noteq> i"
  shows "map_of ((uci_key pkg i [], Str ty) # map (\<lambda>(opt, v). (uci_key pkg i opt, Str v)) options) (uci_key pkg j opt) = None"
proof -
  have "uci_key pkg j opt \<noteq> uci_key pkg i opt'" for opt' using key_inj [OF assms(2,1)] assms(3) by simp
  then have "uci_key pkg j opt \<notin> fst ` set ((uci_key pkg i [], Str ty) # map (\<lambda>(opt, v). (uci_key pkg i opt, Str v)) options)"
    by (auto simp del: not_None_eq) metis
  then show ?thesis unfolding map_of_eq_None_iff .
qed

lemma write_section_get:
  assumes "uci_wf u" "sec_fresh pkg u i" "name_ok i" "options_ok options" "name_ok j"
  shows "uci_get (write_section pkg i ty options u) pkg j = (if j = i then reader_of ty options else uci_get u pkg j)"
proof
  fix opt
  have inj: "inj (uci_key pkg i)" using key_inj [OF assms(3,3)] by (simp add: inj_def)
  show "uci_get (write_section pkg i ty options u) pkg j opt = (if j = i then reader_of ty options else uci_get u pkg j) opt"
  proof (cases "j = i")
    case True
    then show ?thesis
      using assms(2) key_inj [OF assms(3,3)] map_of_keys [OF inj, of Str options opt]
      by (auto simp: uci_get_def write_section_eq [OF assms(1-4)] reader_of_def sec_fresh_def map_add_def split: option.splits)
  next
    case False
    then show ?thesis
      using other_section_key [OF assms(3,5) False]
      by (simp add: uci_get_def write_section_eq [OF assms(1-4)] map_add_def del: map_of.simps)
  qed
qed

lemma write_section_wf: "uci_wf u \<Longrightarrow> uci_wf (write_section pkg i ty options u)"
  unfolding write_section_def by (intro uci_wf_fold) auto

lemma write_section_fresh:
  assumes "uci_wf u" "sec_fresh pkg u i" "name_ok i" "options_ok options" "name_ok j" "j \<noteq> i" "sec_fresh pkg u j"
  shows "sec_fresh pkg (write_section pkg i ty options u) j"
  using assms(7) other_section_key [OF assms(3,5,6)]
  by (simp add: sec_fresh_def write_section_eq [OF assms(1-4)] map_add_def del: map_of.simps)

lemma options_no_section: "name_ok i \<Longrightarrow> options_ok options \<Longrightarrow> k \<in> set (map (uci_key pkg i) (map fst options)) \<Longrightarrow> match_section_key k = None"
  by (auto simp: options_ok_def list_all_iff)

lemma write_section_listed:
  assumes "uci_wf u" "sec_fresh pkg u i" "name_ok i" "options_ok options"
  shows "getAllSectionsOfType (write_section pkg i ty options u) pkg ty'
      = getAllSectionsOfType u pkg ty' @ (if ty = ty' then [i] else [])"
proof -
  let ?w = "write_section pkg i ty options u"
  let ?f = "\<lambda>u key. if re_search (re_of_string pkg) key
      then (case match_section_key key of Some (_, section) \<Rightarrow> if map_option val_string (uvals u key) = Some ty' then Some section else None
            | None \<Rightarrow> None) else None"
  let ?new = "map (uci_key pkg i) (map fst options)"
  have keys: "ukeys ?w = ukeys u @ uci_key pkg i [] # ?new" by (simp add: write_section_eq [OF assms])
  have "uvals ?w key = uvals u key" if "key \<in> set (ukeys u)" for key
  proof -
    have "uvals u key \<noteq> None" using that assms(1) by (auto simp: uci_wf_def)
    then have "key \<noteq> uci_key pkg i opt" for opt using assms(2) by (auto simp: sec_fresh_def)
    then have "map_of ((uci_key pkg i [], Str ty) # map (\<lambda>(opt, v). (uci_key pkg i opt, Str v)) options) key = None"
      unfolding map_of_eq_None_iff by fastforce
    then show ?thesis by (simp add: write_section_eq [OF assms] map_add_def del: map_of.simps)
  qed
  then have "List.map_filter (?f ?w) (ukeys u) = List.map_filter (?f u) (ukeys u)"
    by (intro map_filter_cong) (simp cong: option.case_cong prod.case_cong)
  moreover have "List.map_filter (?f ?w) ?new = []"
    using options_no_section [OF assms(3,4)] by (intro map_filter_none) simp
  moreover note key_search [of i "[]"]
  moreover have "uvals ?w (uci_key pkg i []) = Some (Str ty)" by (simp add: write_section_eq [OF assms])
  ultimately show ?thesis
    unfolding getAllSectionsOfType_def keys map_filter_append using assms(3) by (simp add: List.map_filter_simps)
qed

lemma listed_in_package:
  assumes "pkg_isolated u pkg"
  shows "i \<in> set (getAllSectionsOfType u pkg ty)
    \<longleftrightarrow> name_ok i \<and> uci_key pkg i [] \<in> set (ukeys u) \<and> map_option val_string (uvals u (uci_key pkg i [])) = Some ty"
proof -
  have "(case match_section_key key of Some (p, s) \<Rightarrow> if p = pkg \<and> map_option val_string (uvals u key) = Some ty then Some s else None
           | None \<Rightarrow> None) = Some i
      \<longleftrightarrow> match_section_key key = Some (pkg, i) \<and> map_option val_string (uvals u key) = Some ty" for key
    by (auto split: option.splits if_splits)
  then show ?thesis
    using pkg_ok unfolding sections_listed [OF pkg_ok assms] sections_of_type_def set_map_filter_iff
    by (auto simp: match_section_key_Some uci_key_section)
qed

lemma readers_write:
  assumes "uci_wf u" "pkg_isolated u pkg" "sec_fresh pkg u i" "name_ok i" "options_ok options"
  shows "readers pkg own (write_section pkg i ty options u) ty'
      = readers pkg own u ty' @ (if ty = ty' \<and> own i then [reader_of ty options] else [])"
proof -
  have "uci_get (write_section pkg i ty options u) pkg j = uci_get u pkg j"
    if "j \<in> set (filter own (getAllSectionsOfType u pkg ty'))" for j
  proof -
    have j: "name_ok j" "uci_key pkg j [] \<in> set (ukeys u)" using that listed_in_package [OF assms(2)] by auto
    then have "j \<noteq> i" using assms(1,3) by (auto simp: sec_fresh_def uci_wf_def)
    then show ?thesis using write_section_get [OF assms(1,3,4,5) j(1)] by simp
  qed
  then show ?thesis
    using write_section_get [OF assms(1,3,4,5,4), of ty]
    by (auto simp: readers_def write_section_listed [OF assms(1,3,4,5)])
qed

lemma write_section_isolated:
  assumes "uci_wf u" "sec_fresh pkg u i" "name_ok i" "options_ok options" "pkg_isolated u pkg"
  shows "pkg_isolated (write_section pkg i ty options u) pkg"
proof -
  have "match_section_key (uci_key pkg i opt) = None" if "(opt, v) \<in> set options" for opt v
    using options_no_section [OF assms(3,4), of "uci_key pkg i opt"] that by force
  then show ?thesis using assms(3,5) by (auto simp: pkg_isolated_def write_section_eq [OF assms(1-4)])
qed

lemma removed_sections:
  assumes "uci_wf u" "keys_wf u" "\<forall>i \<in> set is. name_ok i"
  shows "uci_wf (fold (removeSection pkg) is u) \<and> keys_wf (fold (removeSection pkg) is u)
    \<and> set (ukeys (fold (removeSection pkg) is u)) \<subseteq> set (ukeys u)
    \<and> uvals (fold (removeSection pkg) is u) k = (if \<exists>i \<in> set is. in_section pkg i k then None else uvals u k)"
  using assms
proof (induction "is" arbitrary: u)
  case Nil
  then show ?case by simp
next
  case (Cons i "is")
  have eff: "uvals (removeSection pkg i u) k = (if in_section pkg i k then None else uvals u k)"
      "ukeys (removeSection pkg i u) = filter (\<lambda>k. \<not> in_section pkg i k) (ukeys u)" for k
    using removeSection_effect [OF Cons.prems(1,2) pkg_ok, of i] Cons.prems(3) by auto
  then have "keys_wf (removeSection pkg i u)" using Cons.prems(2) by (auto simp: keys_wf_def)
  moreover have "set (ukeys (removeSection pkg i u)) \<subseteq> set (ukeys u)" using eff(2) by auto
  ultimately show ?case using Cons.IH [of "removeSection pkg i u"] Cons.prems eff(1) uci_wf_removeSection by auto
qed

lemma removed_type:
  assumes "uci_wf u" "keys_wf u" "pkg_isolated u pkg" "set is = set (getAllSectionsOfType u pkg ty)"
    and w: "w = fold (removeSection pkg) is u"
  shows "uci_wf w" "keys_wf w" "pkg_isolated w pkg" "getAllSectionsOfType w pkg ty = []"
    "i \<in> set is \<or> sec_fresh pkg u i \<Longrightarrow> sec_fresh pkg w i"
proof -
  have "\<forall>i \<in> set is. name_ok i" using listed_in_package [OF assms(3)] assms(4) by auto
  note removed = removed_sections [OF assms(1,2) this, folded w]
  show "uci_wf w" "keys_wf w" using removed by auto
  show iso: "pkg_isolated w pkg" using removed assms(3) by (auto simp: pkg_isolated_def)
  show fresh: "sec_fresh pkg w i" if "i \<in> set is \<or> sec_fresh pkg u i" for i
    unfolding sec_fresh_def
  proof
    show "uvals w (uci_key pkg i opt) = None" for opt
      using that removed [of "uci_key pkg i opt"] uci_key_in_section [of pkg i opt] by (auto simp: sec_fresh_def)
  qed
  have gone: "uvals w (uci_key pkg i []) = None" if "i \<in> set is" for i using fresh [of i] that by (auto simp: sec_fresh_def)
  have "i \<notin> set (getAllSectionsOfType w pkg ty)" for i
  proof
    assume i: "i \<in> set (getAllSectionsOfType w pkg ty)"
    then have "uvals w (uci_key pkg i []) \<noteq> None" "uvals w (uci_key pkg i []) = uvals u (uci_key pkg i [])"
      using listed_in_package [OF iso] removed [of "uci_key pkg i []"] by (auto split: if_splits)
    moreover from this have "i \<in> set is" using i removed listed_in_package [OF iso] listed_in_package [OF assms(3)] assms(4) by auto
    ultimately show False using gone by simp
  qed
  then show "getAllSectionsOfType w pkg ty = []" by (metis last_in_set)
qed

text \<open>A change of one option leaves the listings, the other sections and the fresh names as they are.\<close>

lemma option_frame:
  assumes "name_ok q" "name_ok s" "name_ok opt"
    and same: "\<forall>key. key \<noteq> uci_key q s opt \<longrightarrow> uvals w key = uvals u key"
    and keys: "filter (\<lambda>k. k \<noteq> uci_key q s opt) (ukeys w) = filter (\<lambda>k. k \<noteq> uci_key q s opt) (ukeys u)"
  shows "getAllSectionsOfType w p' ty = getAllSectionsOfType u p' ty"
    and "pkg_isolated u pkg \<Longrightarrow> q \<noteq> pkg \<or> (\<forall>i \<in> set (getAllSectionsOfType u pkg ty). own i \<longrightarrow> i \<noteq> s) \<Longrightarrow>
      readers pkg own w ty = readers pkg own u ty"
    and "name_ok j \<Longrightarrow> q \<noteq> pkg \<or> j \<noteq> s \<Longrightarrow> sec_fresh pkg w j \<longleftrightarrow> sec_fresh pkg u j"
    and "pkg_isolated u pkg \<Longrightarrow> pkg_isolated w pkg"
proof -
  let ?k = "uci_key q s opt"
  have vals: "uvals w key = uvals u key" if "key \<noteq> ?k" for key using same that by simp
  have no: "match_section_key ?k = None" using match_keys_uci_key(4) [OF assms(1,2,3)] .
  have other: "uci_key pkg j o' \<noteq> ?k" if "name_ok j" "q \<noteq> pkg \<or> j \<noteq> s" for j o'
    using that key_package [OF pkg_ok, of j o'] key_package [OF assms(1), of s opt] key_inj [OF that(1) assms(2), of o' opt] by auto
  have sub: "filter (\<lambda>k. match_section_key k \<noteq> None) ks = filter (\<lambda>k. match_section_key k \<noteq> None) (filter (\<lambda>k. k \<noteq> ?k) ks)" for ks
    using no by (auto simp: filter_filter intro: filter_cong)
  have "uvals w key = uvals u key" if "match_section_key key \<noteq> None" for key
    using vals [of key] no that by (cases "key = ?k") simp_all
  moreover have "filter (\<lambda>k. match_section_key k \<noteq> None) (ukeys w) = filter (\<lambda>k. match_section_key k \<noteq> None) (ukeys u)"
    using sub [of "ukeys w"] sub [of "ukeys u"] keys by simp
  ultimately show list: "getAllSectionsOfType w p' ty = getAllSectionsOfType u p' ty" for p' ty by (rule listing_cong)
  have get: "uci_get w pkg j = uci_get u pkg j" if "name_ok j" "q \<noteq> pkg \<or> j \<noteq> s" for j
    using vals [OF other [OF that]] by (simp add: uci_get_def fun_eq_iff)
  show "readers pkg own w ty = readers pkg own u ty"
    if "pkg_isolated u pkg" "q \<noteq> pkg \<or> (\<forall>i \<in> set (getAllSectionsOfType u pkg ty). own i \<longrightarrow> i \<noteq> s)"
    using that get listed_in_package [OF that(1), of _ ty] by (auto simp: readers_def list)
  show "sec_fresh pkg w j \<longleftrightarrow> sec_fresh pkg u j" if "name_ok j" "q \<noteq> pkg \<or> j \<noteq> s"
    using vals [OF other [OF that]] by (simp add: sec_fresh_def)
  show "pkg_isolated w pkg" if "pkg_isolated u pkg"
  proof -
    have "key \<in> set (ukeys u)" if "key \<in> set (ukeys w)" "key \<noteq> ?k" for key
    proof -
      have "key \<in> set (filter (\<lambda>k. k \<noteq> ?k) (ukeys w))" using that by simp
      then show ?thesis unfolding keys by simp
    qed
    then show ?thesis using that no unfolding pkg_isolated_def by (metis option.case(1))
  qed
qed

end

lemma set_option_changes:
  assumes "uci_wf u"
  shows "\<forall>key. key \<noteq> uci_key q s opt \<longrightarrow> uvals (uci_set q s opt v b u) key = uvals u key"
    and "filter (\<lambda>k. k \<noteq> uci_key q s opt) (ukeys (uci_set q s opt v b u)) = filter (\<lambda>k. k \<noteq> uci_key q s opt) (ukeys u)"
  using assms by (auto simp: uci_set_def uvals_set_key ukeys_set_key)

lemma remove_option_changes:
  assumes "uci_wf u"
  shows "\<forall>key. key \<noteq> uci_key q s opt \<longrightarrow> uvals (fst (uci_remove q s opt u)) key = uvals u key"
    and "filter (\<lambda>k. k \<noteq> uci_key q s opt) (ukeys (fst (uci_remove q s opt u))) = filter (\<lambda>k. k \<noteq> uci_key q s opt) (ukeys u)"
proof -
  show "\<forall>key. key \<noteq> uci_key q s opt \<longrightarrow> uvals (fst (uci_remove q s opt u)) key = uvals u key" by simp
  have "ukeys (fst (uci_remove q s opt u)) = filter (\<lambda>k. k \<noteq> uci_key q s opt) (ukeys u)"
    using assms by (simp add: uci_remove_def ucs.order_delete removeAll_filter_not_eq eq_commute)
  then show "filter (\<lambda>k. k \<noteq> uci_key q s opt) (ukeys (fst (uci_remove q s opt u))) = filter (\<lambda>k. k \<noteq> uci_key q s opt) (ukeys u)" by simp
qed

end
