(* ===== verification/Port_Store.thy ===== *)
theory Port_Store
  imports Port_Forwarding Uci_Sections
begin

text \<open>
  The rules of the port forwarding page in the configuration: \<open>saveChanges\<close> and \<open>resetData\<close> of
  \<open>port_forwarding.js\<close>. The interface \<open>rule_rows\<close> states what the loader needs of the rows of a table. Shown:
  the rules that are loaded after saving are the rules that were saved, and which rules are merged.
\<close>

section \<open>Saving\<close>

definition all_rows :: "proof_row list" where
  "all_rows =
     [own_row ''dmz_ip'' ''dmz_ip_label'' validateIP, own_row ''upnp_up'' ''upnp_up_label'' validateNumeric,
      own_row ''upnp_down'' ''upnp_down_label'' validateNumeric]"

definition proofreadAll :: "fwd_strings \<Rightarrow> page \<Rightarrow> (page \<times> string list) js_result" where
  "proofreadAll ts p = proofreadFields (t_prfErr ts) all_rows p"

definition is_portopen :: "string \<Rightarrow> bool" where
  "is_portopen s \<longleftrightarrow> prefix ''portopen_rule_enabled'' s \<or> prefix ''portopen_rule_disabled'' s"

text \<open>The sections of a type that are removed, from the last to the first, with their commands.\<close>

definition removable :: "string \<Rightarrow> uci \<Rightarrow> string list" where
  "removable sectionType u =
     filter (\<lambda>s. \<not> ((sectionType = ''rule'' \<or> sectionType = ''rule_disabled'') \<and> \<not> is_portopen s))
       (rev (getAllSectionsOfType u ''firewall'' sectionType))"

definition remove_type :: "string \<Rightarrow> uci \<times> string list \<Rightarrow> uci \<times> string list" where
  "remove_type sectionType = (\<lambda>(u, cmds).
     (fold (removeSection ''firewall'') (removable sectionType u) u,
      cmds @ map (\<lambda>s. ''uci del firewall.'' @ s) (removable sectionType u)))"

definition rule_types :: "string list" where
  "rule_types = [''redirect'', ''redirect_disabled'', ''dmz'', ''rule'', ''rule_disabled'']"

definition remove_rules :: "uci \<Rightarrow> uci \<times> string list" where
  "remove_rules u = fold remove_type rule_types (u, [])"

definition save_protos :: "string \<Rightarrow> string \<Rightarrow> string list" where
  "save_protos both prot =
     (if map lower_char prot = map lower_char both then [''tcp'', ''udp''] else [map lower_char prot])"

record save_state =
  sv_uci :: uci
  sv_cmds :: "string list"
  sv_enabled :: nat
  sv_disabled :: nat

definition save_section :: "string \<Rightarrow> string \<Rightarrow> bool \<Rightarrow> (string \<times> string) list \<Rightarrow> save_state \<Rightarrow> save_state" where
  "save_section name ty enabled options s =
     (let i = name @ (if enabled then ''enabled'' else ''disabled'') @ ''_number_''
              @ dec_str (if enabled then sv_enabled s else sv_disabled s);
          t = (if enabled then ty else ty @ ''_disabled'')
      in s\<lparr>sv_uci := write_section ''firewall'' i t options (sv_uci s),
           sv_cmds := sv_cmds s @ [''uci set firewall.'' @ i @ ''='' @ t],
           sv_enabled := sv_enabled s + (if enabled then 1 else 0),
           sv_disabled := sv_disabled s + (if enabled then 0 else 1)\<rparr>)"

definition forward_options :: "string \<Rightarrow> string \<Rightarrow> (string \<times> string) list" where
  "forward_options desc proto =
     [(''name'', desc), (''src'', ''wan''), (''dest'', ''lan''), (''family'', ''ipv4''), (''proto'', proto)]"

definition save_forward :: "string \<Rightarrow> fwd_row \<Rightarrow> save_state \<Rightarrow> save_state" where
  "save_forward both r s =
     fold (\<lambda>proto. save_section ''redirect_'' ''redirect'' (fw_on r)
             (forward_options (fw_desc r) proto @ [(''src_dport'', fw_fp r), (''dest_ip'', fw_ip r), (''dest_port'', fw_dp r)]))
       (save_protos both (fw_prot r)) s"

definition save_forward_range :: "string \<Rightarrow> range_row \<Rightarrow> save_state \<Rightarrow> save_state" where
  "save_forward_range both r s =
     fold (\<lambda>proto. save_section ''redirect_'' ''redirect'' (rg_on r)
             (forward_options (rg_desc r) proto
              @ [(''src_dport'', rg_sp r @ ''-'' @ rg_ep r), (''dest_port'', rg_sp r @ ''-'' @ rg_ep r), (''dest_ip'', rg_ip r)]))
       (save_protos both (rg_prot r)) s"

definition open_options :: "string \<Rightarrow> string \<Rightarrow> (string \<times> string) list" where
  "open_options desc proto =
     [(''name'', desc), (''src'', ''wan''), (''dest'', ''lan''), (''family'', ''ipv6''), (''target'', ''ACCEPT''), (''proto'', proto)]"

definition save_open :: "string \<Rightarrow> open_row \<Rightarrow> save_state \<Rightarrow> save_state" where
  "save_open both r s =
     fold (\<lambda>proto. save_section ''portopen_rule_'' ''rule'' (op_on r)
             (open_options (op_desc r) proto @ [(''dest_ip'', op_ip r), (''dest_port'', op_dp r)]))
       (save_protos both (op_prot r)) s"

definition save_open_range :: "string \<Rightarrow> range_row \<Rightarrow> save_state \<Rightarrow> save_state" where
  "save_open_range both r s =
     fold (\<lambda>proto. save_section ''portopen_rule_'' ''rule'' (rg_on r)
             (open_options (rg_desc r) proto @ [(''dest_ip'', rg_ip r), (''dest_port'', rg_sp r @ ''-'' @ rg_ep r)]))
       (save_protos both (rg_prot r)) s"

definition save_forwards :: "string \<Rightarrow> fwd_row list \<Rightarrow> range_row list \<Rightarrow> save_state \<Rightarrow> save_state" where
  "save_forwards both rows ranges s = fold (save_forward_range both) ranges (fold (save_forward both) rows s)"

definition save_opens :: "string \<Rightarrow> open_row list \<Rightarrow> range_row list \<Rightarrow> save_state \<Rightarrow> save_state" where
  "save_opens both rows ranges s =
     fold (save_open_range both) ranges (fold (save_open both) rows (s\<lparr>sv_enabled := 0, sv_disabled := 0\<rparr>))"

definition save_dmz :: "page \<Rightarrow> save_state \<Rightarrow> save_state js_result" where
  "save_dmz p s =
     res_bind (get_el p ''dmz_enabled'') (\<lambda>e.
       if el_checked e
       then res_bind (field_text p ''dmz_ip'') (\<lambda>ip.
              Inr (s\<lparr>sv_cmds := sv_cmds s @ [''uci firewall.dmz=dmz''],
                     sv_uci := write_section ''firewall'' ''dmz'' ''dmz'' [(''from'', ''wan''), (''to_ip'', ip)] (sv_uci s)\<rparr>))
       else Inr s)"

definition upnp_set :: "(string \<times> string) list \<Rightarrow> uci \<Rightarrow> uci" where
  "upnp_set options u = fold (\<lambda>(opt, v). uci_set ''upnpd'' ''config'' opt (Str v) False) options u"

definition save_upnp :: "bool \<Rightarrow> page \<Rightarrow> uci \<Rightarrow> (uci \<times> string list) js_result" where
  "save_upnp haveUpnpd p u =
     (if \<not> haveUpnpd then Inr (u, [])
      else res_bind (get_el p ''upnp_enabled'') (\<lambda>e.
        if el_checked e
        then res_bind (field_text p ''upnp_up'') (\<lambda>up. res_bind (field_text p ''upnp_down'') (\<lambda>down.
               Inr (upnp_set [(''enabled'', ''1''), (''enable_upnp'', ''1''), (''enable_natpmp'', ''1''), (''upload'', up), (''download'', down)] u,
                    [''/etc/init.d/miniupnpd enable''])))
        else Inr (upnp_set [(''enabled'', ''0''), (''enable_upnp'', ''0''), (''enable_natpmp'', ''0'')] u,
                  [''/etc/init.d/miniupnpd disable''])))"

text \<open>
  What is sent when there are no errors: the container to be kept, and the commands. The original
  settings lose their rules before the script is computed from them.
\<close>

definition save_rules :: "fwd_strings \<Rightarrow> bool \<Rightarrow> uci \<Rightarrow> fwd_state \<Rightarrow> page \<Rightarrow> (uci \<times> string) js_result" where
  "save_rules ts haveUpnpd uciOriginal st p =
     (let (original, dels) = remove_rules uciOriginal
      in res_bind (uci_clone original) (\<lambda>uci.
         res_bind (save_dmz p (save_forwards (t_both ts) (portf st) (portfrange st)
                     \<lparr>sv_uci = uci, sv_cmds = dels, sv_enabled = 0, sv_disabled = 0\<rparr>)) (\<lambda>s2.
         res_bind (save_upnp haveUpnpd p (sv_uci s2)) (\<lambda>(u3, upnpStartCommands).
           let s4 = save_opens (t_both ts) (porto st) (portorange st) (s2\<lparr>sv_uci := u3, sv_cmds := sv_cmds s2 @ [''uci commit'']\<rparr>)
           in Inr (sv_uci s4,
                join [LF] (sv_cmds s4) @ [LF] @ getScriptCommands (sv_uci s4) original @ [LF]
                @ join [LF] upnpStartCommands @ [LF] @ [LF] @ ''sh /usr/lib/gargoyle/restart_firewall.sh ;'' @ [LF])))))"

datatype save_result = Refused page | Sent uci string

definition saveChanges :: "fwd_strings \<Rightarrow> bool \<Rightarrow> uci \<Rightarrow> fwd_state \<Rightarrow> save_result js_result" where
  "saveChanges ts haveUpnpd uciOriginal st =
     res_bind (proofreadAll ts (fs_page st)) (\<lambda>(p1, errorList).
       if errorList \<noteq> [] then Inr (Refused (report errorList ([LF, LF] @ t_ErrChanges ts) p1))
       else res_bind (save_rules ts haveUpnpd uciOriginal st p1) (\<lambda>(u, commands). Inr (Sent u commands)))"

section \<open>Loading\<close>

text \<open>
  The rules of a table and, for each protocol and text of a rule, the row that was made for it. A rule
  whose twin for the other protocol has a row is merged into it; otherwise its row is made, which fails
  when a cell is not a text.
\<close>

type_synonym 'r rules = "'r list \<times> (string \<times> string \<Rightarrow> nat option)"

definition twin_proto :: "string \<Rightarrow> string" where
  "twin_proto proto = (if proto = ''tcp'' then ''udp'' else ''tcp'')"

definition load_rule :: "('r \<Rightarrow> 'r) \<Rightarrow> string \<Rightarrow> string \<Rightarrow> 'r js_result \<Rightarrow> 'r rules \<Rightarrow> 'r rules js_result" where
  "load_rule set_both proto hashStr row = (\<lambda>(rows, hash).
     case hash (twin_proto proto, hashStr) of
       Some i \<Rightarrow> Inr (rows[i := set_both (rows ! i)], hash)
     | None \<Rightarrow> res_bind row (\<lambda>r. Inr (rows @ [r], hash((proto, hashStr) \<mapsto> length rows))))"

definition upper_proto :: "string \<Rightarrow> string" where
  "upper_proto proto = (if proto = ''tcp'' then ''TCP'' else ''UDP'')"

definition dash_value :: "uci_val \<Rightarrow> uci_val" where
  "dash_value v = (if val_string v = [] then Str ''-'' else v)"

definition forward_cells :: "string \<Rightarrow> bool \<Rightarrow> uci_val \<Rightarrow> string \<Rightarrow> uci_val \<Rightarrow> uci_val \<Rightarrow> fwd_row js_result" where
  "forward_cells proto on name srcdport destip destport =
     res_bind (text_value name) (\<lambda>n. res_bind (text_value destip) (\<lambda>ip. res_bind (text_value destport) (\<lambda>dp.
       Inr \<lparr>fw_desc = cell_text n, fw_prot = upper_proto proto, fw_fp = cell_text srcdport, fw_ip = cell_text ip,
            fw_dp = cell_text dp, fw_on = on\<rparr>)))"

definition range_cells :: "string \<Rightarrow> bool \<Rightarrow> uci_val \<Rightarrow> string \<Rightarrow> uci_val \<Rightarrow> range_row js_result" where
  "range_cells proto on name ports destip =
     res_bind (text_value name) (\<lambda>n. res_bind (text_value destip) (\<lambda>ip.
       Inr \<lparr>rg_desc = cell_text n, rg_prot = upper_proto proto, rg_sp = cell_text (split_on CHR ''-'' ports ! 0),
            rg_ep = cell_text (split_on CHR ''-'' ports ! 1), rg_ip = cell_text ip, rg_on = on\<rparr>))"

definition open_cells :: "string \<Rightarrow> bool \<Rightarrow> uci_val \<Rightarrow> uci_val \<Rightarrow> string \<Rightarrow> open_row js_result" where
  "open_cells proto on name destip destport =
     res_bind (text_value name) (\<lambda>n. res_bind (text_value destip) (\<lambda>ip.
       Inr \<lparr>op_desc = cell_text n, op_prot = upper_proto proto, op_ip = cell_text ip, op_dp = cell_text destport, op_on = on\<rparr>))"

text \<open>One section, by what \<open>get\<close> returns for its options.\<close>

definition load_redirect ::
    "string \<Rightarrow> bool \<Rightarrow> (string \<Rightarrow> uci_val) \<Rightarrow> fwd_row rules \<times> range_row rules \<Rightarrow> (fwd_row rules \<times> range_row rules) js_result" where
  "load_redirect both on get = (\<lambda>(singles, ranges).
     let name = dash_value (get ''name''); srcdport = get ''src_dport''; destip = get ''dest_ip''; destport0 = get ''dest_port''
     in res_bind (lower_option (get ''proto'')) (\<lambda>proto.
        if val_string srcdport = [] \<and> val_string destport0 = [] \<and> on then Inr (singles, ranges)
        else if proto \<noteq> ''tcp'' \<and> proto \<noteq> ''udp'' then Inr (singles, ranges)
        else res_bind (text_value srcdport) (\<lambda>src.
          let destport = (if val_string destport0 = [] then srcdport else destport0);
              hashStr = val_string name @ ''-'' @ src @ ''-'' @ val_string destip @ ''-'' @ val_string destport
          in if CHR ''-'' \<in> set src
             then res_bind (load_rule (\<lambda>r. r\<lparr>rg_prot := cell_text both\<rparr>) proto hashStr (range_cells proto on name src destip) ranges)
                    (\<lambda>ranges'. Inr (singles, ranges'))
             else res_bind (load_rule (\<lambda>r. r\<lparr>fw_prot := cell_text both\<rparr>) proto hashStr (forward_cells proto on name src destip destport) singles)
                    (\<lambda>singles'. Inr (singles', ranges)))))"

definition load_open ::
    "string \<Rightarrow> bool \<Rightarrow> (string \<Rightarrow> uci_val) \<Rightarrow> open_row rules \<times> range_row rules \<Rightarrow> (open_row rules \<times> range_row rules) js_result" where
  "load_open both on get = (\<lambda>(singles, ranges).
     let name = dash_value (get ''name''); destip = get ''dest_ip''
     in res_bind (lower_option (get ''proto'')) (\<lambda>proto.
        if proto \<noteq> ''tcp'' \<and> proto \<noteq> ''udp'' then Inr (singles, ranges)
        else res_bind (text_value (get ''dest_port'')) (\<lambda>destport.
          let hashStr = val_string name @ ''-'' @ val_string destip @ ''-'' @ destport
          in if CHR ''-'' \<in> set destport
             then res_bind (load_rule (\<lambda>r. r\<lparr>rg_prot := cell_text both\<rparr>) proto hashStr (range_cells proto on name destport destip) ranges)
                    (\<lambda>ranges'. Inr (singles, ranges'))
             else res_bind (load_rule (\<lambda>r. r\<lparr>op_prot := cell_text both\<rparr>) proto hashStr (open_cells proto on name destip destport) singles)
                    (\<lambda>singles'. Inr (singles', ranges)))))"

definition no_rules :: "'r rules" where
  "no_rules = ([], \<lambda>_. None)"

definition load_forwards :: "string \<Rightarrow> uci \<Rightarrow> (fwd_row list \<times> range_row list) js_result" where
  "load_forwards both u =
     res_bind (fold_res (load_redirect both True) (readers ''firewall'' (\<lambda>_. True) u ''redirect'') (no_rules, no_rules)) (\<lambda>rules.
     res_bind (fold_res (load_redirect both False) (readers ''firewall'' (\<lambda>_. True) u ''redirect_disabled'') rules) (\<lambda>((singles, _), (ranges, _)).
       Inr (singles, ranges)))"

definition load_opens :: "string \<Rightarrow> uci \<Rightarrow> (open_row list \<times> range_row list) js_result" where
  "load_opens both u =
     res_bind (fold_res (load_open both True) (readers ''firewall'' is_portopen u ''rule'') (no_rules, no_rules)) (\<lambda>rules.
     res_bind (fold_res (load_open both False) (readers ''firewall'' is_portopen u ''rule_disabled'') rules) (\<lambda>((singles, _), (ranges, _)).
       Inr (singles, ranges)))"

text \<open>The address proposed for the demilitarised zone: the neighbour of the router's.\<close>

definition default_dmz :: "string \<Rightarrow> string" where
  "default_dmz currentLanIp =
     (let parts = split_on CHR ''.'' currentLanIp;
          front = (if length parts \<le> 1 then currentLanIp else join ''.'' (butlast parts));
          lanIpEnd = (case nth_opt parts 3 of None \<Rightarrow> None | Some s \<Rightarrow> js_parseInt s)
      in front @ ''.'' @ num_print (if le_num (Some 254) lanIpEnd then map_option (\<lambda>n. n - 1) lanIpEnd else map_option (\<lambda>n. n + 1) lanIpEnd))"

definition clear_fields :: "page \<Rightarrow> page js_result" where
  "clear_fields p =
     fold_res (\<lambda>i. upd_el i (put_value []))
       [''add_desc'', ''add_fp'', ''add_ip'', ''add_dp'', ''addr_desc'', ''addr_sp'', ''addr_ep'', ''addr_ip''] p"

definition setDmzEnabled :: "page \<Rightarrow> page js_result" where
  "setDmzEnabled p = res_bind (field_text p ''dmz_ip'') (\<lambda>v. enableAssociatedField ''dmz_enabled'' ''dmz_ip'' v p)"

definition setUpnpEnabled :: "page \<Rightarrow> page js_result" where
  "setUpnpEnabled p =
     res_bind (field_text p ''upnp_up'') (\<lambda>up. res_bind (enableAssociatedField ''upnp_enabled'' ''upnp_up'' up p) (\<lambda>p1.
     res_bind (field_text p1 ''upnp_down'') (\<lambda>down. enableAssociatedField ''upnp_enabled'' ''upnp_down'' down p1)))"

definition load_dmz :: "string \<Rightarrow> uci \<Rightarrow> page \<Rightarrow> page js_result" where
  "load_dmz currentLanIp u p =
     (let dmzSections = getAllSectionsOfType u ''firewall'' ''dmz''
      in res_bind (upd_el ''dmz_enabled'' (\<lambda>e. e\<lparr>el_checked := (dmzSections \<noteq> [])\<rparr>) p) (\<lambda>p1.
         res_bind (upd_el ''dmz_ip'' (put_value
           (case dmzSections of
              s # _ \<Rightarrow> val_string (uci_get u ''firewall'' s ''to_ip'')
            | [] \<Rightarrow> default_dmz currentLanIp)) p1) setDmzEnabled))"

text \<open>A rate field: the option, and 1250 when the field is then blank.\<close>

definition load_rate :: "string \<Rightarrow> uci_val \<Rightarrow> page \<Rightarrow> page js_result" where
  "load_rate i v p =
     res_bind (upd_el i (put_value (val_string v)) p)
       (upd_el i (\<lambda>e. if get_value e = [] then put_value ''1250'' e else e))"

definition load_upnp :: "bool \<Rightarrow> bool \<Rightarrow> uci \<Rightarrow> page \<Rightarrow> page js_result" where
  "load_upnp haveUpnpd upnpdEnabled u p =
     res_bind (upd_el ''upnp_no_miniupnpd'' (\<lambda>e. e\<lparr>el_display := (if haveUpnpd then ''none'' else ''block'')\<rparr>) p) (\<lambda>p1.
     res_bind (upd_el ''upnp_enabled'' (\<lambda>e. e\<lparr>el_disabled := \<not> haveUpnpd, el_checked := upnpdEnabled\<rparr>) p1) (\<lambda>p2.
     res_bind (load_rate ''upnp_up'' (uci_get u ''upnpd'' ''config'' ''upload'') p2) (\<lambda>p3.
     res_bind (load_rate ''upnp_down'' (uci_get u ''upnpd'' ''config'' ''download'') p3) setUpnpEnabled)))"

definition initializeDescriptionVisibility ::
    "string \<Rightarrow> string \<Rightarrow> uci \<Rightarrow> string \<Rightarrow> string \<Rightarrow> page \<Rightarrow> page js_result" where
  "initializeDescriptionVisibility displayText hideText testUci descriptionId defaultDisplay p =
     (let help = uci_get testUci ''gargoyle'' ''help'' descriptionId; shown = (val_string help = ''1'')
      in if help = Str [] then Inr p
         else res_bind (upd_el (descriptionId @ ''_ref'') (\<lambda>e. e\<lparr>el_data := (if shown then hideText else displayText)\<rparr>) p)
                (upd_el (descriptionId @ ''_txt'') (\<lambda>e. e\<lparr>el_display := (if shown then defaultDisplay else ''none'')\<rparr>)))"

text \<open>
  \<open>resetData\<close> up to the table of the UPnP leases: the original settings without the section of the
  help texts, and the page. The tables are made anew.
\<close>

definition resetData ::
    "fwd_strings \<Rightarrow> string \<Rightarrow> string \<Rightarrow> string \<Rightarrow> bool \<Rightarrow> bool \<Rightarrow> uci \<Rightarrow> fwd_state \<Rightarrow> (uci \<times> fwd_state) js_result" where
  "resetData ts moreInfo hide currentLanIp haveUpnpd upnpdEnabled uciOriginal st =
     res_bind (load_forwards (t_both ts) uciOriginal) (\<lambda>(singles, ranges).
     res_bind (clear_fields (fs_page st)) (\<lambda>p1.
     res_bind (load_dmz currentLanIp uciOriginal p1) (\<lambda>p2.
     res_bind (load_upnp haveUpnpd upnpdEnabled uciOriginal p2) (\<lambda>p3.
     res_bind (initializeDescriptionVisibility moreInfo hide uciOriginal ''upnp_help'' ''inline'' p3) (\<lambda>p4.
       let u = removeSection ''gargoyle'' ''help'' uciOriginal
       in res_bind (load_opens (t_both ts) u) (\<lambda>(opens, openRanges).
            Inr (u, st\<lparr>fs_page := p4, portf := singles, portfrange := ranges, porto := opens, portorange := openRanges,
               portfRangeTable := (case portfRangeTable st of OnPage \<Rightarrow> Detached (portfrange st) | v \<Rightarrow> v)\<rparr>)))))))"

section \<open>The numbered sections\<close>

abbreviation fw_key :: "string \<Rightarrow> string \<Rightarrow> string" where
  "fw_key \<equiv> uci_key ''firewall''"

abbreviation fw_fresh :: "uci \<Rightarrow> string \<Rightarrow> bool" where
  "fw_fresh \<equiv> sec_fresh ''firewall''"

interpretation fw: uci_package "''firewall''"
  by unfold_locales (simp add: name_ok_def)

definition rule_id :: "string \<Rightarrow> bool \<Rightarrow> nat \<Rightarrow> string" where
  "rule_id name on k = name @ (if on then ''enabled'' else ''disabled'') @ ''_number_'' @ dec_str k"

definition store_ok :: "string \<Rightarrow> save_state \<Rightarrow> bool" where
  "store_ok name s \<longleftrightarrow> uci_wf (sv_uci s) \<and> pkg_isolated (sv_uci s) ''firewall''
     \<and> (\<forall>k \<ge> sv_enabled s. fw_fresh (sv_uci s) (rule_id name True k))
     \<and> (\<forall>k \<ge> sv_disabled s. fw_fresh (sv_uci s) (rule_id name False k))"

lemma rule_id_ok: "CHR ''.'' \<notin> set name \<Longrightarrow> name_ok (rule_id name on k)"
  by (auto simp: rule_id_def name_ok_def)

lemma rule_id_inj: "rule_id name on k = rule_id name on' k' \<longleftrightarrow> on = on' \<and> k = k'"
proof -
  have "dec_str k = dec_str k' \<longleftrightarrow> k = k'" by (metis js_number_dec_str option.inject)
  then show ?thesis by (cases on; cases on'; simp add: rule_id_def)
qed

definition on_type :: "string \<Rightarrow> bool \<Rightarrow> string" where
  "on_type ty on = (if on then ty else ty @ ''_disabled'')"

lemma save_section_effect:
  assumes "store_ok name s" "CHR ''.'' \<notin> set name" "options_ok options"
  shows "store_ok name (save_section name ty on options s)"
    and "\<And>own. (\<And>k. on_type ty on = ty' \<Longrightarrow> own (rule_id name on k)) \<Longrightarrow>
       readers ''firewall'' own (sv_uci (save_section name ty on options s)) ty'
       = readers ''firewall'' own (sv_uci s) ty' @ (if on_type ty on = ty' then [reader_of (on_type ty on) options] else [])"
    and "\<And>j. name_ok j \<Longrightarrow> (\<And>on k. j \<noteq> rule_id name on k) \<Longrightarrow> fw_fresh (sv_uci s) j \<Longrightarrow>
       fw_fresh (sv_uci (save_section name ty on options s)) j"
proof -
  let ?i = "rule_id name on (if on then sv_enabled s else sv_disabled s)"
  have sv: "sv_uci (save_section name ty on options s) = write_section ''firewall'' ?i (on_type ty on) options (sv_uci s)"
      "sv_enabled (save_section name ty on options s) = sv_enabled s + (if on then 1 else 0)"
      "sv_disabled (save_section name ty on options s) = sv_disabled s + (if on then 0 else 1)"
    by (simp_all add: save_section_def rule_id_def on_type_def Let_def)
  have i: "name_ok ?i" using rule_id_ok [OF assms(2)] .
  have ok: "uci_wf (sv_uci s)" "pkg_isolated (sv_uci s) ''firewall''" "fw_fresh (sv_uci s) ?i" using assms(1) by (auto simp: store_ok_def)
  show "readers ''firewall'' own (sv_uci (save_section name ty on options s)) ty'
      = readers ''firewall'' own (sv_uci s) ty' @ (if on_type ty on = ty' then [reader_of (on_type ty on) options] else [])"
    if "\<And>k. on_type ty on = ty' \<Longrightarrow> own (rule_id name on k)" for own
    unfolding sv using fw.readers_write [OF ok i assms(3)] that by simp
  note fresh = fw.write_section_fresh [OF ok(1,3) i assms(3)]
  show "fw_fresh (sv_uci (save_section name ty on options s)) j"
    if "name_ok j" "\<And>on k. j \<noteq> rule_id name on k" "fw_fresh (sv_uci s) j" for j
    unfolding sv using fresh that by simp
  note fresh_id = fresh [OF rule_id_ok [OF assms(2)]]
  have "fw_fresh (sv_uci (save_section name ty on options s)) (rule_id name True k)" if "k \<ge> sv_enabled s + (if on then 1 else 0)" for k
    unfolding sv using that assms(1) by (intro fresh_id) (auto simp: rule_id_inj store_ok_def split: if_splits)
  moreover have "fw_fresh (sv_uci (save_section name ty on options s)) (rule_id name False k)" if "k \<ge> sv_disabled s + (if on then 0 else 1)" for k
    unfolding sv using that assms(1) by (intro fresh_id) (auto simp: rule_id_inj store_ok_def split: if_splits)
  ultimately show "store_ok name (save_section name ty on options s)"
    using fw.write_section_wf [OF ok(1)] fw.write_section_isolated [OF ok(1,3) i assms(3) ok(2)] unfolding store_ok_def sv by simp
qed

text \<open>A list of sections to be saved: whether each is enabled, and its options.\<close>

definition save_entries :: "string \<Rightarrow> string \<Rightarrow> (bool \<times> (string \<times> string) list) list \<Rightarrow> save_state \<Rightarrow> save_state" where
  "save_entries name ty es s = fold (\<lambda>(on, options). save_section name ty on options) es s"

definition entry_options :: "bool \<Rightarrow> (bool \<times> (string \<times> string) list) list \<Rightarrow> (string \<times> string) list list" where
  "entry_options b es = map snd (filter (\<lambda>e. fst e = b) es)"

lemma on_type_inj: "on_type ty on = on_type ty on' \<longleftrightarrow> on = on'"
  by (cases on; cases on'; simp add: on_type_def)

lemma save_entries_effect:
  assumes "store_ok name s" "CHR ''.'' \<notin> set name" "list_all (\<lambda>e. options_ok (snd e)) es"
  shows "store_ok name (save_entries name ty es s)"
    and "\<And>own. (\<And>k. own (rule_id name b k)) \<Longrightarrow> readers ''firewall'' own (sv_uci (save_entries name ty es s)) (on_type ty b)
       = readers ''firewall'' own (sv_uci s) (on_type ty b) @ map (reader_of (on_type ty b)) (entry_options b es)"
    and "\<And>own ty'. (\<And>on. on_type ty on \<noteq> ty') \<Longrightarrow> readers ''firewall'' own (sv_uci (save_entries name ty es s)) ty' = readers ''firewall'' own (sv_uci s) ty'"
    and "\<And>j. name_ok j \<Longrightarrow> (\<And>on k. j \<noteq> rule_id name on k) \<Longrightarrow> fw_fresh (sv_uci s) j \<Longrightarrow> fw_fresh (sv_uci (save_entries name ty es s)) j"
  using assms
proof (induction es arbitrary: s)
  case Nil
  { case 1 then show ?case by (simp add: save_entries_def) }
  { case 2 then show ?case by (simp add: save_entries_def entry_options_def) }
  { case 3 then show ?case by (simp add: save_entries_def) }
  { case 4 then show ?case by (simp add: save_entries_def) }
next
  case (Cons e es)
  obtain on options where e: "e = (on, options)" by (cases e)
  have step: "save_entries name ty (e # es) s = save_entries name ty es (save_section name ty on options s)" for s by (simp add: save_entries_def e)
  { case 1
    then show ?case using Cons.IH(1) [of "save_section name ty on options s"] save_section_effect(1) [of name s options ty on]       unfolding step by (simp add: e) }
  { case 2
    then show ?case
      unfolding step using Cons.IH(2) [of own "save_section name ty on options s"] save_section_effect(1) [of name s options ty on]
        save_section_effect(2) [of name s options ty on "on_type ty b" own]
      by (simp add: e entry_options_def on_type_inj) }
  { case 3
    then show ?case
      unfolding step using Cons.IH(3) [of ty' "save_section name ty on options s" own] save_section_effect(1) [of name s options ty on]
        save_section_effect(2) [of name s options ty on ty' own] by (simp add: e) }
  { case 4
    then show ?case
      unfolding step using Cons.IH(4) [of j "save_section name ty on options s"] save_section_effect(1) [of name s options ty on]
        save_section_effect(3) [of name s options j ty on] by (simp add: e) }
qed

section \<open>Loading rows of a table\<close>

text \<open>
  The rows of a table, as the loader needs them: the text that identifies a row, its protocol, and how
  the protocol is replaced. Rows with different texts are loaded one after the other, each from the
  sections that its protocol is saved as.
\<close>

definition proto_ok :: "string \<Rightarrow> string \<Rightarrow> bool" where
  "proto_ok both prot \<longleftrightarrow> prot \<in> {''TCP'', ''UDP'', both}"

definition both_ok :: "string \<Rightarrow> bool" where
  "both_ok both \<longleftrightarrow> map lower_char both \<notin> {''tcp'', ''udp''} \<and> LF \<notin> set both"

locale rule_rows =
  fixes label :: "'r \<Rightarrow> string" and prot :: "'r \<Rightarrow> string" and set_prot :: "string \<Rightarrow> 'r \<Rightarrow> 'r"
  assumes set_own: "set_prot (prot r) r = r" and set_again: "set_prot p (set_prot q r) = set_prot p r"
begin

definition load_row :: "string \<Rightarrow> 'r \<Rightarrow> 'r rules \<Rightarrow> 'r rules js_result" where
  "load_row both r = fold_res (\<lambda>proto. load_rule (set_prot both) proto (label r) (Inr (set_prot (upper_proto proto) r)))
     (save_protos both (prot r))"

lemma row_loaded:
  assumes "both_ok both" "proto_ok both (prot r)" "\<And>p. hash (p, label r) = None"
  shows "\<exists>hash'. load_row both r (rows, hash) = Inr (rows @ [r], hash') \<and> (\<forall>p t. t \<noteq> label r \<longrightarrow> hash' (p, t) = hash (p, t))"
proof -
  have lower: "map lower_char ''TCP'' = ''tcp''" "map lower_char ''UDP'' = ''udp''" by code_simp+
  consider (tcp) "prot r = ''TCP''" | (udp) "prot r = ''UDP''" | (both) "prot r = both" using assms(2) by (auto simp: proto_ok_def)
  then show ?thesis
  proof cases
    case tcp
    then have "save_protos both (prot r) = [''tcp'']" using assms(1) lower by (auto simp: save_protos_def both_ok_def)
    then show ?thesis using assms(3) set_own [of r] tcp by (auto simp: load_row_def load_rule_def twin_proto_def upper_proto_def)
  next
    case udp
    then have "save_protos both (prot r) = [''udp'']" using assms(1) lower by (auto simp: save_protos_def both_ok_def)
    then show ?thesis using assms(3) set_own [of r] udp by (auto simp: load_row_def load_rule_def twin_proto_def upper_proto_def)
  next
    case both
    then have "save_protos both (prot r) = [''tcp'', ''udp'']" by (simp add: save_protos_def)
    then show ?thesis using assms(3) set_own [of r] both by (auto simp: load_row_def load_rule_def twin_proto_def upper_proto_def set_again)
  qed
qed

lemma rows_loaded:
  assumes "both_ok both" "list_all (\<lambda>r. proto_ok both (prot r)) rs" "distinct (map label rs)" "\<And>p r. r \<in> set rs \<Longrightarrow> hash (p, label r) = None"
  shows "\<exists>hash'. fold_res (load_row both) rs (rows, hash) = Inr (rows @ rs, hash') \<and> (\<forall>p t. t \<notin> label ` set rs \<longrightarrow> hash' (p, t) = hash (p, t))"
  using assms
proof (induction rs arbitrary: rows hash)
  case Nil
  then show ?case by simp
next
  case (Cons r rs)
  then obtain hash1 where one: "load_row both r (rows, hash) = Inr (rows @ [r], hash1)"
      "\<forall>p t. t \<noteq> label r \<longrightarrow> hash1 (p, t) = hash (p, t)" using row_loaded [of both r hash rows] by auto
  have "hash1 (p, label q) = None" if "q \<in> set rs" for p q
  proof -
    have "label q \<noteq> label r" using that Cons.prems(3) by (auto simp: image_iff)
    then show ?thesis using one(2) Cons.prems(4) that by simp
  qed
  then obtain hash2 where "fold_res (load_row both) rs (rows @ [r], hash1) = Inr ((rows @ [r]) @ rs, hash2)"
      "\<forall>p t. t \<notin> label ` set rs \<longrightarrow> hash2 (p, t) = hash1 (p, t)" using Cons.IH [of hash1 "rows @ [r]"] Cons.prems by auto
  then show ?case using one by auto
qed

lemma table_loaded:
  assumes "both_ok both" "list_all (\<lambda>r. proto_ok both (prot r)) rs" "distinct (map label rs)"
  shows "\<exists>h1 h2. fold_res (load_row both) (filter on rs) no_rules = Inr (filter on rs, h1)
    \<and> fold_res (load_row both) (filter (\<lambda>r. \<not> on r) rs) (filter on rs, h1) = Inr (filter on rs @ filter (\<lambda>r. \<not> on r) rs, h2)"
proof -
  have d: "distinct (map label (filter f rs))" "list_all (\<lambda>r. proto_ok both (prot r)) (filter f rs)" for f
    using assms(2,3) by (simp_all add: distinct_map_filter list_all_iff)
  obtain h1 where h1: "fold_res (load_row both) (filter on rs) no_rules = Inr (filter on rs, h1)"
      "\<forall>p t. t \<notin> label ` set (filter on rs) \<longrightarrow> h1 (p, t) = None"
    using rows_loaded [OF assms(1) d(2,1), of on "\<lambda>_. None" "[]"] by (auto simp: no_rules_def)
  have "label r \<notin> label ` set (filter on rs)" if "r \<in> set (filter (\<lambda>r. \<not> on r) rs)" for r
    using that assms(3) by (auto simp: distinct_map inj_on_def)
  then have "h1 (p, label r) = None" if "r \<in> set (filter (\<lambda>r. \<not> on r) rs)" for p r using h1(2) that by blast
  then show ?thesis using rows_loaded [OF assms(1) d(2,1), of "\<lambda>r. \<not> on r" h1 "filter on rs"] h1(1) by blast
qed

end

definition forward_text :: "fwd_row \<Rightarrow> string" where
  "forward_text r = fw_desc r @ ''-'' @ fw_fp r @ ''-'' @ fw_ip r @ ''-'' @ fw_dp r"

definition range_text :: "range_row \<Rightarrow> string" where
  "range_text r = (let ports = rg_sp r @ ''-'' @ rg_ep r in rg_desc r @ ''-'' @ ports @ ''-'' @ rg_ip r @ ''-'' @ ports)"

definition open_text :: "open_row \<Rightarrow> string" where
  "open_text r = op_desc r @ ''-'' @ op_ip r @ ''-'' @ op_dp r"

definition open_range_text :: "range_row \<Rightarrow> string" where
  "open_range_text r = rg_desc r @ ''-'' @ rg_ip r @ ''-'' @ rg_sp r @ ''-'' @ rg_ep r"

interpretation fwds: rule_rows forward_text fw_prot "\<lambda>p r. r\<lparr>fw_prot := p\<rparr>"
  by unfold_locales simp_all

interpretation fwdrs: rule_rows range_text rg_prot "\<lambda>p r. r\<lparr>rg_prot := p\<rparr>"
  by unfold_locales simp_all

interpretation opns: rule_rows open_text op_prot "\<lambda>p r. r\<lparr>op_prot := p\<rparr>"
  by unfold_locales simp_all

interpretation opnrs: rule_rows open_range_text rg_prot "\<lambda>p r. r\<lparr>rg_prot := p\<rparr>"
  by unfold_locales simp_all

lemma save_protos_set: "both_ok both \<Longrightarrow> proto_ok both prot \<Longrightarrow> set (save_protos both prot) \<subseteq> {''tcp'', ''udp''}"
proof -
  have "map lower_char ''TCP'' = ''tcp''" "map lower_char ''UDP'' = ''udp''" by code_simp+
  then show "proto_ok both prot \<Longrightarrow> set (save_protos both prot) \<subseteq> {''tcp'', ''udp''}" by (auto simp: save_protos_def proto_ok_def)
qed

definition saved_line :: "string \<Rightarrow> bool" where
  "saved_line s \<longleftrightarrow> s \<noteq> [] \<and> LF \<notin> set s"

definition saved_port :: "string \<Rightarrow> bool" where
  "saved_port s \<longleftrightarrow> saved_line s \<and> CHR ''-'' \<notin> set s"

definition forward_saved :: "string \<Rightarrow> fwd_row \<Rightarrow> bool" where
  "forward_saved both r \<longleftrightarrow>
     proto_ok both (fw_prot r) \<and> saved_line (fw_desc r) \<and> saved_port (fw_fp r) \<and> saved_line (fw_ip r) \<and> saved_line (fw_dp r)"

definition range_saved :: "string \<Rightarrow> range_row \<Rightarrow> bool" where
  "range_saved both r \<longleftrightarrow>
     proto_ok both (rg_prot r) \<and> saved_line (rg_desc r) \<and> saved_port (rg_sp r) \<and> saved_port (rg_ep r) \<and> saved_line (rg_ip r)"

definition open_saved :: "string \<Rightarrow> open_row \<Rightarrow> bool" where
  "open_saved both r \<longleftrightarrow> proto_ok both (op_prot r) \<and> saved_line (op_desc r) \<and> saved_line (op_ip r) \<and> saved_port (op_dp r)"

definition fwd_opts :: "fwd_row \<Rightarrow> string \<Rightarrow> (string \<times> string) list" where
  "fwd_opts r proto =
     forward_options (fw_desc r) proto @ [(''src_dport'', fw_fp r), (''dest_ip'', fw_ip r), (''dest_port'', fw_dp r)]"

definition range_opts :: "range_row \<Rightarrow> string \<Rightarrow> (string \<times> string) list" where
  "range_opts r proto =
     forward_options (rg_desc r) proto
     @ [(''src_dport'', rg_sp r @ ''-'' @ rg_ep r), (''dest_port'', rg_sp r @ ''-'' @ rg_ep r), (''dest_ip'', rg_ip r)]"

definition open_opts :: "open_row \<Rightarrow> string \<Rightarrow> (string \<times> string) list" where
  "open_opts r proto = open_options (op_desc r) proto @ [(''dest_ip'', op_ip r), (''dest_port'', op_dp r)]"

definition open_range_opts :: "range_row \<Rightarrow> string \<Rightarrow> (string \<times> string) list" where
  "open_range_opts r proto =
     open_options (rg_desc r) proto @ [(''dest_ip'', rg_ip r), (''dest_port'', rg_sp r @ ''-'' @ rg_ep r)]"

lemmas read_defs = reader_of_def forward_options_def open_options_def lower_option_def text_value_def dash_value_def

lemma lower_done:
  assumes "proto \<in> {''tcp'', ''udp''}"
  shows "map lower_char proto = proto" and "(proto \<noteq> ''tcp'' \<and> proto \<noteq> ''udp'') = False"
proof -
  have "map lower_char ''tcp'' = ''tcp''" "map lower_char ''udp'' = ''udp''" by code_simp+
  then show "map lower_char proto = proto" using assms by auto
qed (use assms in auto)

lemma forward_read:
  assumes "both_ok both" "forward_saved both r" "proto \<in> {''tcp'', ''udp''}"
  shows "load_redirect both (fw_on r) (reader_of ty (fwd_opts r proto)) (singles, ranges)
    = res_bind (load_rule (\<lambda>r. r\<lparr>fw_prot := both\<rparr>) proto (forward_text r) (Inr (r\<lparr>fw_prot := upper_proto proto\<rparr>)) singles)
        (\<lambda>singles'. Inr (singles', ranges))"
proof -
  let ?g = "reader_of ty (fwd_opts r proto)"
  have get: "?g ''name'' = Str (fw_desc r)" "?g ''proto'' = Str proto" "?g ''src_dport'' = Str (fw_fp r)"
      "?g ''dest_ip'' = Str (fw_ip r)" "?g ''dest_port'' = Str (fw_dp r)" by (simp_all add: fwd_opts_def read_defs)
  have row: "fw_desc r \<noteq> []" "fw_fp r \<noteq> []" "fw_dp r \<noteq> []" "CHR ''-'' \<notin> set (fw_fp r)"
      "cell_text (fw_desc r) = fw_desc r" "cell_text (fw_fp r) = fw_fp r" "cell_text (fw_ip r) = fw_ip r" "cell_text (fw_dp r) = fw_dp r"
      "cell_text both = both"
    using assms(1,2) by (auto simp: forward_saved_def saved_line_def saved_port_def both_ok_def cell_line)
  have "forward_cells proto (fw_on r) (Str (fw_desc r)) (fw_fp r) (Str (fw_ip r)) (Str (fw_dp r)) = Inr (r\<lparr>fw_prot := upper_proto proto\<rparr>)"
    by (simp add: forward_cells_def text_value_def row)
  then show ?thesis
    using row
    by (simp add: lower_done [OF assms(3)] load_redirect_def get dash_value_def lower_option_def text_value_def Let_def forward_text_def)
qed

lemma range_read:
  assumes "both_ok both" "range_saved both r" "proto \<in> {''tcp'', ''udp''}"
  shows "load_redirect both (rg_on r) (reader_of ty (range_opts r proto)) (singles, ranges)
    = res_bind (load_rule (\<lambda>r. r\<lparr>rg_prot := both\<rparr>) proto (range_text r) (Inr (r\<lparr>rg_prot := upper_proto proto\<rparr>)) ranges)
        (\<lambda>ranges'. Inr (singles, ranges'))"
proof -
  let ?g = "reader_of ty (range_opts r proto)" and ?ports = "rg_sp r @ ''-'' @ rg_ep r"
  have get: "?g ''name'' = Str (rg_desc r)" "?g ''proto'' = Str proto" "?g ''src_dport'' = Str ?ports"
      "?g ''dest_ip'' = Str (rg_ip r)" "?g ''dest_port'' = Str ?ports" by (simp_all add: range_opts_def read_defs)
  have row: "rg_desc r \<noteq> []" "CHR ''-'' \<notin> set (rg_sp r)" "CHR ''-'' \<notin> set (rg_ep r)"
      "cell_text (rg_desc r) = rg_desc r" "cell_text (rg_sp r) = rg_sp r" "cell_text (rg_ep r) = rg_ep r" "cell_text (rg_ip r) = rg_ip r"
      "cell_text both = both"
    using assms(1,2) by (auto simp: range_saved_def saved_line_def saved_port_def both_ok_def cell_line)
  have "split_on CHR ''-'' ?ports = [rg_sp r, rg_ep r]" using row by (simp add: split_on_append_sep)
  then have "range_cells proto (rg_on r) (Str (rg_desc r)) ?ports (Str (rg_ip r)) = Inr (r\<lparr>rg_prot := upper_proto proto\<rparr>)"
    by (simp add: range_cells_def text_value_def row)
  then show ?thesis
    using row
    by (simp add: lower_done [OF assms(3)] load_redirect_def get dash_value_def lower_option_def text_value_def Let_def range_text_def)
qed

lemma open_read:
  assumes "both_ok both" "open_saved both r" "proto \<in> {''tcp'', ''udp''}"
  shows "load_open both (op_on r) (reader_of ty (open_opts r proto)) (singles, ranges)
    = res_bind (load_rule (\<lambda>r. r\<lparr>op_prot := both\<rparr>) proto (open_text r) (Inr (r\<lparr>op_prot := upper_proto proto\<rparr>)) singles)
        (\<lambda>singles'. Inr (singles', ranges))"
proof -
  let ?g = "reader_of ty (open_opts r proto)"
  have get: "?g ''name'' = Str (op_desc r)" "?g ''proto'' = Str proto" "?g ''dest_ip'' = Str (op_ip r)"
      "?g ''dest_port'' = Str (op_dp r)" by (simp_all add: open_opts_def read_defs)
  have row: "op_desc r \<noteq> []" "CHR ''-'' \<notin> set (op_dp r)"
      "cell_text (op_desc r) = op_desc r" "cell_text (op_ip r) = op_ip r" "cell_text (op_dp r) = op_dp r" "cell_text both = both"
    using assms(1,2) by (auto simp: open_saved_def saved_line_def saved_port_def both_ok_def cell_line)
  have "open_cells proto (op_on r) (Str (op_desc r)) (Str (op_ip r)) (op_dp r) = Inr (r\<lparr>op_prot := upper_proto proto\<rparr>)"
    by (simp add: open_cells_def text_value_def row)
  then show ?thesis
    using row
    by (simp add: lower_done [OF assms(3)] load_open_def get dash_value_def lower_option_def text_value_def Let_def open_text_def)
qed

lemma open_range_read:
  assumes "both_ok both" "range_saved both r" "proto \<in> {''tcp'', ''udp''}"
  shows "load_open both (rg_on r) (reader_of ty (open_range_opts r proto)) (singles, ranges)
    = res_bind (load_rule (\<lambda>r. r\<lparr>rg_prot := both\<rparr>) proto (open_range_text r) (Inr (r\<lparr>rg_prot := upper_proto proto\<rparr>)) ranges)
        (\<lambda>ranges'. Inr (singles, ranges'))"
proof -
  let ?g = "reader_of ty (open_range_opts r proto)" and ?ports = "rg_sp r @ ''-'' @ rg_ep r"
  have get: "?g ''name'' = Str (rg_desc r)" "?g ''proto'' = Str proto" "?g ''dest_ip'' = Str (rg_ip r)"
      "?g ''dest_port'' = Str ?ports" by (simp_all add: open_range_opts_def read_defs)
  have row: "rg_desc r \<noteq> []" "CHR ''-'' \<notin> set (rg_sp r)" "CHR ''-'' \<notin> set (rg_ep r)"
      "cell_text (rg_desc r) = rg_desc r" "cell_text (rg_sp r) = rg_sp r" "cell_text (rg_ep r) = rg_ep r" "cell_text (rg_ip r) = rg_ip r"
      "cell_text both = both"
    using assms(1,2) by (auto simp: range_saved_def saved_line_def saved_port_def both_ok_def cell_line)
  have "split_on CHR ''-'' ?ports = [rg_sp r, rg_ep r]" using row by (simp add: split_on_append_sep)
  then have "range_cells proto (rg_on r) (Str (rg_desc r)) ?ports (Str (rg_ip r)) = Inr (r\<lparr>rg_prot := upper_proto proto\<rparr>)"
    by (simp add: range_cells_def text_value_def row)
  then show ?thesis
    using row
    by (simp add: lower_done [OF assms(3)] load_open_def get dash_value_def lower_option_def text_value_def Let_def open_range_text_def)
qed

section \<open>Tables saved and loaded\<close>

definition row_entries ::
    "('r \<Rightarrow> bool) \<Rightarrow> ('r \<Rightarrow> string \<Rightarrow> (string \<times> string) list) \<Rightarrow> ('r \<Rightarrow> string) \<Rightarrow> string \<Rightarrow> 'r list \<Rightarrow> (bool \<times> (string \<times> string) list) list" where
  "row_entries on opts prot both rows = concat (map (\<lambda>r. map (\<lambda>proto. (on r, opts r proto)) (save_protos both (prot r))) rows)"

definition enabled_first :: "('r \<Rightarrow> bool) \<Rightarrow> 'r list \<Rightarrow> 'r list" where
  "enabled_first on rows = filter on rows @ filter (\<lambda>r. \<not> on r) rows"

definition row_options ::
    "('r \<Rightarrow> string \<Rightarrow> (string \<times> string) list) \<Rightarrow> ('r \<Rightarrow> string) \<Rightarrow> string \<Rightarrow> 'r list \<Rightarrow> (string \<times> string) list list" where
  "row_options opts prot both rows = concat (map (\<lambda>r. map (opts r) (save_protos both (prot r))) rows)"

lemma entry_options_rows:
  "entry_options b (row_entries on opts prot both rows) = row_options opts prot both (filter (\<lambda>r. on r = b) rows)"
proof -
  have "filter (\<lambda>e. fst e = b) (map (\<lambda>proto. (on r, opts r proto)) ps) = (if on r = b then map (\<lambda>proto. (on r, opts r proto)) ps else [])" for r ps
    by (induction ps) auto
  then show ?thesis by (induction rows) (auto simp: entry_options_def row_entries_def row_options_def comp_def)
qed

lemma entry_options_append: "entry_options b (es @ fs) = entry_options b es @ entry_options b fs"
  by (simp add: entry_options_def)

lemma save_entries_append: "save_entries name ty (es @ fs) s = save_entries name ty fs (save_entries name ty es s)"
  by (simp add: save_entries_def)

lemma save_rows_entries:
  assumes "\<And>r s. f r s = fold (\<lambda>proto. save_section name ty (on r) (opts r proto)) (save_protos both (prot r)) s"
  shows "fold f rows s = save_entries name ty (row_entries on opts prot both rows) s"
proof (induction rows arbitrary: s)
  case Nil
  then show ?case by (simp add: save_entries_def row_entries_def)
next
  case (Cons r rows)
  have "f r s = save_entries name ty (map (\<lambda>proto. (on r, opts r proto)) (save_protos both (prot r))) s"
    by (simp add: assms save_entries_def fold_map comp_def)
  then show ?case by (simp add: Cons.IH row_entries_def save_entries_append)
qed

lemma save_forwards_entries:
  "save_forwards both rows ranges s = save_entries ''redirect_'' ''redirect''
     (row_entries fw_on fwd_opts fw_prot both rows @ row_entries rg_on range_opts rg_prot both ranges) s"
  unfolding save_forwards_def save_entries_append
  by (simp add: save_rows_entries [where f = "save_forward both", OF save_forward_def [folded fwd_opts_def]]
      save_rows_entries [where f = "save_forward_range both", OF save_forward_range_def [folded range_opts_def]])

lemma save_opens_entries:
  "save_opens both rows ranges s = save_entries ''portopen_rule_'' ''rule''
     (row_entries op_on open_opts op_prot both rows @ row_entries rg_on open_range_opts rg_prot both ranges) (s\<lparr>sv_enabled := 0, sv_disabled := 0\<rparr>)"
  unfolding save_opens_def save_entries_append
  by (simp add: save_rows_entries [where f = "save_open both", OF save_open_def [folded open_opts_def]]
      save_rows_entries [where f = "save_open_range both", OF save_open_range_def [folded open_range_opts_def]])

lemma options_written_ok:
  "options_ok (fwd_opts r proto)" "options_ok (range_opts q proto)" "options_ok (open_opts w proto)" "options_ok (open_range_opts q proto)"
  by (simp_all add: options_ok_def fwd_opts_def range_opts_def open_opts_def open_range_opts_def forward_options_def open_options_def name_ok_def)

lemma rows_options_ok:
  "(\<And>r proto. options_ok (opts r proto)) \<Longrightarrow> list_all (\<lambda>e. options_ok (snd e)) (row_entries on opts prot both rows)"
  by (auto simp: row_entries_def list_all_iff)

text \<open>Loading the sections of the rows of a table is loading its rows, in either half of the state.\<close>

lemma load_rows_fst:
  assumes "\<And>r proto s. r \<in> set rows \<Longrightarrow> proto \<in> set (save_protos both (prot r)) \<Longrightarrow>
      load (reader_of ty (opts r proto)) (s, q) = res_bind (one r proto s) (\<lambda>s'. Inr (s', q))"
  shows "fold_res load (map (reader_of ty) (row_options opts prot both rows)) (s, q)
    = res_bind (fold_res (\<lambda>r. fold_res (one r) (save_protos both (prot r))) rows s) (\<lambda>s'. Inr (s', q))"
  using assms
  by (auto simp: row_options_def map_concat fold_res_concat fold_res_map comp_def intro!: fold_res_fst)

lemma load_rows_snd:
  assumes "\<And>r proto s. r \<in> set rows \<Longrightarrow> proto \<in> set (save_protos both (prot r)) \<Longrightarrow>
      load (reader_of ty (opts r proto)) (q, s) = res_bind (one r proto s) (\<lambda>s'. Inr (q, s'))"
  shows "fold_res load (map (reader_of ty) (row_options opts prot both rows)) (q, s)
    = res_bind (fold_res (\<lambda>r. fold_res (one r) (save_protos both (prot r))) rows s) (\<lambda>s'. Inr (q, s'))"
  using assms
  by (auto simp: row_options_def map_concat fold_res_concat fold_res_map comp_def intro!: fold_res_snd)

lemma forwards_half:
  assumes "both_ok both" "list_all (forward_saved both) rows" "list_all (range_saved both) ranges"
  shows "fold_res (load_redirect both b)
      (map (reader_of ty) (row_options fwd_opts fw_prot both (filter (\<lambda>r. fw_on r = b) rows)
         @ row_options range_opts rg_prot both (filter (\<lambda>r. rg_on r = b) ranges))) (s, q)
    = res_bind (fold_res (fwds.load_row both) (filter (\<lambda>r. fw_on r = b) rows) s) (\<lambda>s'.
      res_bind (fold_res (fwdrs.load_row both) (filter (\<lambda>r. rg_on r = b) ranges) q) (\<lambda>q'. Inr (s', q')))"
proof -
  have one: "load_redirect both b (reader_of ty (fwd_opts r proto)) (s, q)
      = res_bind (load_rule (\<lambda>r. r\<lparr>fw_prot := both\<rparr>) proto (forward_text r) (Inr (r\<lparr>fw_prot := upper_proto proto\<rparr>)) s) (\<lambda>s'. Inr (s', q))"
    if "r \<in> set (filter (\<lambda>r. fw_on r = b) rows)" "proto \<in> set (save_protos both (fw_prot r))" for r proto s q
    using that assms(1,2) save_protos_set [OF assms(1), of "fw_prot r"] forward_read [OF assms(1), of r proto ty s q]
    by (auto simp: list_all_iff forward_saved_def)
  have singles: "fold_res (load_redirect both b) (map (reader_of ty) (row_options fwd_opts fw_prot both (filter (\<lambda>r. fw_on r = b) rows))) (s, q)
      = res_bind (fold_res (fwds.load_row both) (filter (\<lambda>r. fw_on r = b) rows) s) (\<lambda>s'. Inr (s', q))"
    unfolding fwds.load_row_def [abs_def] by (rule load_rows_fst) (rule one)
  have one: "load_redirect both b (reader_of ty (range_opts r proto)) (s, q)
      = res_bind (load_rule (\<lambda>r. r\<lparr>rg_prot := both\<rparr>) proto (range_text r) (Inr (r\<lparr>rg_prot := upper_proto proto\<rparr>)) q) (\<lambda>q'. Inr (s, q'))"
    if "r \<in> set (filter (\<lambda>r. rg_on r = b) ranges)" "proto \<in> set (save_protos both (rg_prot r))" for r proto s q
    using that assms(1,3) save_protos_set [OF assms(1), of "rg_prot r"] range_read [OF assms(1), of r proto ty s q]
    by (auto simp: list_all_iff range_saved_def)
  have "fold_res (load_redirect both b) (map (reader_of ty) (row_options range_opts rg_prot both (filter (\<lambda>r. rg_on r = b) ranges))) (s, q)
      = res_bind (fold_res (fwdrs.load_row both) (filter (\<lambda>r. rg_on r = b) ranges) q) (\<lambda>q'. Inr (s, q'))" for s
    unfolding fwdrs.load_row_def [abs_def] by (rule load_rows_snd) (rule one)
  then show ?thesis by (simp add: fold_res_append singles res_bind_def split: sum.split)
qed

lemma opens_half:
  assumes "both_ok both" "list_all (open_saved both) rows" "list_all (range_saved both) ranges"
  shows "fold_res (load_open both b)
      (map (reader_of ty) (row_options open_opts op_prot both (filter (\<lambda>r. op_on r = b) rows)
         @ row_options open_range_opts rg_prot both (filter (\<lambda>r. rg_on r = b) ranges))) (s, q)
    = res_bind (fold_res (opns.load_row both) (filter (\<lambda>r. op_on r = b) rows) s) (\<lambda>s'.
      res_bind (fold_res (opnrs.load_row both) (filter (\<lambda>r. rg_on r = b) ranges) q) (\<lambda>q'. Inr (s', q')))"
proof -
  have one: "load_open both b (reader_of ty (open_opts r proto)) (s, q)
      = res_bind (load_rule (\<lambda>r. r\<lparr>op_prot := both\<rparr>) proto (open_text r) (Inr (r\<lparr>op_prot := upper_proto proto\<rparr>)) s) (\<lambda>s'. Inr (s', q))"
    if "r \<in> set (filter (\<lambda>r. op_on r = b) rows)" "proto \<in> set (save_protos both (op_prot r))" for r proto s q
    using that assms(1,2) save_protos_set [OF assms(1), of "op_prot r"] open_read [OF assms(1), of r proto ty s q]
    by (auto simp: list_all_iff open_saved_def)
  have singles: "fold_res (load_open both b) (map (reader_of ty) (row_options open_opts op_prot both (filter (\<lambda>r. op_on r = b) rows))) (s, q)
      = res_bind (fold_res (opns.load_row both) (filter (\<lambda>r. op_on r = b) rows) s) (\<lambda>s'. Inr (s', q))"
    unfolding opns.load_row_def [abs_def] by (rule load_rows_fst) (rule one)
  have one: "load_open both b (reader_of ty (open_range_opts r proto)) (s, q)
      = res_bind (load_rule (\<lambda>r. r\<lparr>rg_prot := both\<rparr>) proto (open_range_text r) (Inr (r\<lparr>rg_prot := upper_proto proto\<rparr>)) q) (\<lambda>q'. Inr (s, q'))"
    if "r \<in> set (filter (\<lambda>r. rg_on r = b) ranges)" "proto \<in> set (save_protos both (rg_prot r))" for r proto s q
    using that assms(1,3) save_protos_set [OF assms(1), of "rg_prot r"] open_range_read [OF assms(1), of r proto ty s q]
    by (auto simp: list_all_iff range_saved_def)
  have "fold_res (load_open both b) (map (reader_of ty) (row_options open_range_opts rg_prot both (filter (\<lambda>r. rg_on r = b) ranges))) (s, q)
      = res_bind (fold_res (opnrs.load_row both) (filter (\<lambda>r. rg_on r = b) ranges) q) (\<lambda>q'. Inr (s, q'))" for s
    unfolding opnrs.load_row_def [abs_def] by (rule load_rows_snd) (rule one)
  then show ?thesis by (simp add: fold_res_append singles res_bind_def split: sum.split)
qed

definition saved_forwards :: "string \<Rightarrow> fwd_row list \<Rightarrow> range_row list \<Rightarrow> bool" where
  "saved_forwards both rows ranges \<longleftrightarrow> list_all (forward_saved both) rows \<and> list_all (range_saved both) ranges
     \<and> distinct (map forward_text rows) \<and> distinct (map range_text ranges)"

definition saved_opens :: "string \<Rightarrow> open_row list \<Rightarrow> range_row list \<Rightarrow> bool" where
  "saved_opens both rows ranges \<longleftrightarrow> list_all (open_saved both) rows \<and> list_all (range_saved both) ranges
     \<and> distinct (map open_text rows) \<and> distinct (map open_range_text ranges)"

lemma forwards_loaded:
  assumes "both_ok both" "saved_forwards both rows ranges"
    and "es = row_entries fw_on fwd_opts fw_prot both rows @ row_entries rg_on range_opts rg_prot both ranges"
    and "readers ''firewall'' (\<lambda>_. True) u (on_type ''redirect'' True) = map (reader_of (on_type ''redirect'' True)) (entry_options True es)"
    and "readers ''firewall'' (\<lambda>_. True) u (on_type ''redirect'' False) = map (reader_of (on_type ''redirect'' False)) (entry_options False es)"
  shows "load_forwards both u = Inr (enabled_first fw_on rows, enabled_first rg_on ranges)"
proof -
  have ok: "list_all (forward_saved both) rows" "list_all (range_saved both) ranges"
      "list_all (\<lambda>r. proto_ok both (fw_prot r)) rows" "list_all (\<lambda>r. proto_ok both (rg_prot r)) ranges"
      "distinct (map forward_text rows)" "distinct (map range_text ranges)"
    using assms(2) by (auto simp: saved_forwards_def list_all_iff forward_saved_def range_saved_def)
  note half = forwards_half [OF assms(1) ok(1,2), where b = True, simplified] forwards_half [OF assms(1) ok(1,2), where b = False, simplified]
  obtain h1 h2 where "fold_res (fwds.load_row both) (filter fw_on rows) no_rules = Inr (filter fw_on rows, h1)"
      "fold_res (fwds.load_row both) (filter (\<lambda>r. \<not> fw_on r) rows) (filter fw_on rows, h1) = Inr (enabled_first fw_on rows, h2)"
    using fwds.table_loaded [OF assms(1) ok(3,5), of fw_on] by (auto simp: enabled_first_def)
  moreover obtain k1 k2 where "fold_res (fwdrs.load_row both) (filter rg_on ranges) no_rules = Inr (filter rg_on ranges, k1)"
      "fold_res (fwdrs.load_row both) (filter (\<lambda>r. \<not> rg_on r) ranges) (filter rg_on ranges, k1) = Inr (enabled_first rg_on ranges, k2)"
    using fwdrs.table_loaded [OF assms(1) ok(4,6), of rg_on] by (auto simp: enabled_first_def)
  moreover have "load_forwards both u = res_bind (fold_res (load_redirect both True) (readers ''firewall'' (\<lambda>_. True) u (on_type ''redirect'' True)) (no_rules, no_rules)) (\<lambda>rules.
     res_bind (fold_res (load_redirect both False) (readers ''firewall'' (\<lambda>_. True) u (on_type ''redirect'' False)) rules) (\<lambda>((singles, _), (ranges, _)).
       Inr (singles, ranges)))" by (simp add: load_forwards_def on_type_def)
  ultimately show ?thesis
    unfolding assms(3,4,5) entry_options_append entry_options_rows by (simp add: half)
qed

lemma opens_loaded:
  assumes "both_ok both" "saved_opens both rows ranges"
    and "es = row_entries op_on open_opts op_prot both rows @ row_entries rg_on open_range_opts rg_prot both ranges"
    and "readers ''firewall'' is_portopen u (on_type ''rule'' True) = map (reader_of (on_type ''rule'' True)) (entry_options True es)"
    and "readers ''firewall'' is_portopen u (on_type ''rule'' False) = map (reader_of (on_type ''rule'' False)) (entry_options False es)"
  shows "load_opens both u = Inr (enabled_first op_on rows, enabled_first rg_on ranges)"
proof -
  have ok: "list_all (open_saved both) rows" "list_all (range_saved both) ranges"
      "list_all (\<lambda>r. proto_ok both (op_prot r)) rows" "list_all (\<lambda>r. proto_ok both (rg_prot r)) ranges"
      "distinct (map open_text rows)" "distinct (map open_range_text ranges)"
    using assms(2) by (auto simp: saved_opens_def list_all_iff open_saved_def range_saved_def)
  note half = opens_half [OF assms(1) ok(1,2), where b = True, simplified] opens_half [OF assms(1) ok(1,2), where b = False, simplified]
  obtain h1 h2 where "fold_res (opns.load_row both) (filter op_on rows) no_rules = Inr (filter op_on rows, h1)"
      "fold_res (opns.load_row both) (filter (\<lambda>r. \<not> op_on r) rows) (filter op_on rows, h1) = Inr (enabled_first op_on rows, h2)"
    using opns.table_loaded [OF assms(1) ok(3,5), of op_on] by (auto simp: enabled_first_def)
  moreover obtain k1 k2 where "fold_res (opnrs.load_row both) (filter rg_on ranges) no_rules = Inr (filter rg_on ranges, k1)"
      "fold_res (opnrs.load_row both) (filter (\<lambda>r. \<not> rg_on r) ranges) (filter rg_on ranges, k1) = Inr (enabled_first rg_on ranges, k2)"
    using opnrs.table_loaded [OF assms(1) ok(4,6), of rg_on] by (auto simp: enabled_first_def)
  moreover have "load_opens both u = res_bind (fold_res (load_open both True) (readers ''firewall'' is_portopen u (on_type ''rule'' True)) (no_rules, no_rules)) (\<lambda>rules.
     res_bind (fold_res (load_open both False) (readers ''firewall'' is_portopen u (on_type ''rule'' False)) rules) (\<lambda>((singles, _), (ranges, _)).
       Inr (singles, ranges)))" by (simp add: load_opens_def on_type_def)
  ultimately show ?thesis
    unfolding assms(3,4,5) entry_options_append entry_options_rows by (simp add: half)
qed

section \<open>Removing the rules\<close>

definition config_ok :: "uci \<Rightarrow> bool" where
  "config_ok u \<longleftrightarrow> uci_wf u \<and> keys_wf u \<and> pkg_isolated u ''firewall''"

definition own_type :: "string \<Rightarrow> string \<Rightarrow> bool" where
  "own_type ty i \<longleftrightarrow> (ty \<in> {''rule'', ''rule_disabled''} \<longrightarrow> is_portopen i)"

lemma removable_iff:
  assumes "config_ok u"
  shows "i \<in> set (removable ty u) \<longleftrightarrow> own_type ty i \<and> name_ok i \<and> map_option val_string (uvals u (fw_key i [])) = Some ty"
proof -
  have "uci_wf u" "pkg_isolated u ''firewall''" using assms by (auto simp: config_ok_def)
  then show ?thesis
    using fw.listed_in_package [of u i ty] by (auto simp: removable_def own_type_def uci_wf_def)
qed

lemma remove_types_effect:
  assumes "config_ok u"
  shows "config_ok (fst (fold remove_type tys (u, cmds)))
    \<and> (\<forall>k. uvals (fst (fold remove_type tys (u, cmds))) k
        = (if \<exists>ty \<in> set tys. \<exists>i \<in> set (removable ty u). in_section ''firewall'' i k then None else uvals u k))"
  using assms
proof (induction tys arbitrary: u cmds)
  case Nil
  then show ?case by simp
next
  case (Cons ty tys)
  let ?u = "fold (removeSection ''firewall'') (removable ty u) u"
  obtain c where c: "remove_type ty (u, cmds) = (?u, c)" by (simp add: remove_type_def)
  have names: "\<forall>i \<in> set (removable ty u). name_ok i" using removable_iff [OF Cons.prems] by auto
  have "uci_wf u" "keys_wf u" "pkg_isolated u ''firewall''" using Cons.prems by (auto simp: config_ok_def)
  with fw.removed_sections [OF this(1,2) names] have ok: "config_ok ?u"
      and vals: "\<And>k. uvals ?u k = (if \<exists>i \<in> set (removable ty u). in_section ''firewall'' i k then None else uvals u k)"
    by (auto simp: config_ok_def pkg_isolated_def)
  have less: "i \<in> set (removable ty' u)" if "i \<in> set (removable ty' ?u)" for i ty'
    using that vals [of "fw_key i []"] by (auto simp: removable_iff [OF ok] removable_iff [OF Cons.prems] split: if_splits)
  have more: "i \<in> set (removable ty' ?u) \<or> i \<in> set (removable ty u)" if "i \<in> set (removable ty' u)" for i ty'
  proof (cases "\<exists>j \<in> set (removable ty u). in_section ''firewall'' j (fw_key i [])")
    case True
    then obtain j where j: "j \<in> set (removable ty u)" "in_section ''firewall'' j (fw_key i [])" by blast
    then have "j = i" using in_section_uci_key [OF fw.pkg_ok _ fw.pkg_ok, of j i "[]"] names that removable_iff [OF Cons.prems] by auto
    then show ?thesis using j(1) by simp
  next
    case False
    then have "uvals ?u (fw_key i []) = uvals u (fw_key i [])" by (simp add: vals)
    then show ?thesis using that by (simp add: removable_iff [OF ok] removable_iff [OF Cons.prems])
  qed
  have "(\<exists>ty' \<in> set (ty # tys). \<exists>i \<in> set (removable ty' u). in_section ''firewall'' i k)
      \<longleftrightarrow> (\<exists>ty' \<in> set tys. \<exists>i \<in> set (removable ty' ?u). in_section ''firewall'' i k) \<or> (\<exists>i \<in> set (removable ty u). in_section ''firewall'' i k)" for k
    using less more by (simp only: list.set(2) bex_simps) blast
  then have "(if \<exists>ty' \<in> set tys. \<exists>i \<in> set (removable ty' ?u). in_section ''firewall'' i k then None else uvals ?u k)
      = (if \<exists>ty' \<in> set (ty # tys). \<exists>i \<in> set (removable ty' u). in_section ''firewall'' i k then None else uvals u k)" for k
    unfolding vals by (simp del: list.set)
  then show ?case using Cons.IH [OF ok, of c] by (simp add: c)
qed

definition rule_name :: "string \<Rightarrow> bool" where
  "rule_name i \<longleftrightarrow> i = ''dmz'' \<or> prefix ''redirect_'' i \<or> is_portopen i"

text \<open>The names that the page gives to sections are those of rules only.\<close>

definition names_reserved :: "uci \<Rightarrow> bool" where
  "names_reserved u \<longleftrightarrow> list_all (\<lambda>k. case split_on CHR ''.'' k of
       pkg # i # _ \<Rightarrow> pkg = ''firewall'' \<and> rule_name i \<longrightarrow> list_ex (\<lambda>ty. i \<in> set (removable ty u)) rule_types
     | _ \<Rightarrow> True) (ukeys u)"

lemma rules_removed:
  assumes "config_ok u"
  shows "config_ok (fst (remove_rules u))"
    and "ty \<in> set rule_types \<Longrightarrow> removable ty (fst (remove_rules u)) = []"
    and "names_reserved u \<Longrightarrow> name_ok i \<Longrightarrow> rule_name i \<Longrightarrow> fw_fresh (fst (remove_rules u)) i"
proof -
  let ?u = "fst (remove_rules u)"
  have ok: "config_ok ?u" and vals: "\<And>k. uvals ?u k
      = (if \<exists>ty \<in> set rule_types. \<exists>i \<in> set (removable ty u). in_section ''firewall'' i k then None else uvals u k)"
    using remove_types_effect [OF assms, of rule_types "[]"] by (simp_all add: remove_rules_def)
  show "config_ok ?u" using ok .
  show "removable ty ?u = []" if "ty \<in> set rule_types"
  proof -
    have False if "i \<in> set (removable ty ?u)" for i
    proof -
      have "uvals ?u (fw_key i []) = uvals u (fw_key i []) \<and> uvals ?u (fw_key i []) \<noteq> None"
        using that vals [of "fw_key i []"] by (auto simp: removable_iff [OF ok] split: if_splits)
      then have "i \<in> set (removable ty u)" using that by (simp add: removable_iff [OF ok] removable_iff [OF assms])
      then have "uvals ?u (fw_key i []) = None" using vals [of "fw_key i []"] \<open>ty \<in> set rule_types\<close> uci_key_in_section [of "''firewall''" i "[]"] by auto
      then show False using \<open>uvals ?u (fw_key i []) = uvals u (fw_key i []) \<and> uvals ?u (fw_key i []) \<noteq> None\<close> by auto
    qed
    then have "\<forall>i. i \<notin> set (removable ty ?u)" by metis
    then show ?thesis by (metis last_in_set)
  qed
  show "fw_fresh ?u i" if "names_reserved u" "name_ok i" "rule_name i"
    unfolding sec_fresh_def
  proof
    fix opt
    have "\<exists>ty \<in> set rule_types. i \<in> set (removable ty u)" if "uvals u (fw_key i opt) \<noteq> None"
    proof -
      have "fw_key i opt \<in> set (ukeys u)" using that assms by (auto simp: config_ok_def uci_wf_def)
      moreover have "\<exists>rest. split_on CHR ''.'' (fw_key i opt) = ''firewall'' # i # rest" using fw.key_split [OF \<open>name_ok i\<close>] by blast
      ultimately show ?thesis using \<open>names_reserved u\<close> \<open>rule_name i\<close> by (fastforce simp: names_reserved_def list_all_iff list_ex_iff)
    qed
    then show "uvals ?u (fw_key i opt) = None"
      using vals [of "fw_key i opt"] uci_key_in_section [of "''firewall''" i opt] by (cases "uvals u (fw_key i opt)") auto
  qed
qed

section \<open>The round trip\<close>

lemma upnp_frame:
  assumes "uci_wf u" "pkg_isolated u ''firewall''" "name_ok opt"
  shows "readers ''firewall'' own (uci_set ''upnpd'' ''config'' opt v False u) ty = readers ''firewall'' own u ty"
    and "name_ok i \<Longrightarrow> fw_fresh (uci_set ''upnpd'' ''config'' opt v False u) i \<longleftrightarrow> fw_fresh u i"
    and "pkg_isolated (uci_set ''upnpd'' ''config'' opt v False u) ''firewall''"
proof -
  have "name_ok ''upnpd''" "name_ok ''config''" by (simp_all add: name_ok_def)
  note frame = fw.option_frame [OF this assms(3) set_option_changes [OF assms(1)]]
  show "readers ''firewall'' own (uci_set ''upnpd'' ''config'' opt v False u) ty = readers ''firewall'' own u ty"
    by (rule frame(2) [OF assms(2)]) simp
  show "fw_fresh (uci_set ''upnpd'' ''config'' opt v False u) i \<longleftrightarrow> fw_fresh u i" if "name_ok i"
    by (rule frame(3) [OF that]) simp
  show "pkg_isolated (uci_set ''upnpd'' ''config'' opt v False u) ''firewall''" by (rule frame(4) [OF assms(2)])
qed

text \<open>The container after the forwarding rules are written, until the opened ports are.\<close>

definition forwards_written :: "(bool \<times> (string \<times> string) list) list \<Rightarrow> uci \<Rightarrow> bool" where
  "forwards_written es u \<longleftrightarrow> uci_wf u \<and> pkg_isolated u ''firewall''
     \<and> (\<forall>b. readers ''firewall'' (\<lambda>_. True) u (on_type ''redirect'' b) = map (reader_of (on_type ''redirect'' b)) (entry_options b es))
     \<and> (\<forall>b. readers ''firewall'' is_portopen u (on_type ''rule'' b) = [])
     \<and> (\<forall>on k. fw_fresh u (rule_id ''portopen_rule_'' on k))"

lemma forwards_written_upnp:
  assumes "forwards_written es u" "list_all (name_ok \<circ> fst) options"
  shows "forwards_written es (upnp_set options u)"
  using assms
proof (induction options arbitrary: u)
  case Nil
  then show ?case by (simp add: upnp_set_def)
next
  case (Cons x options)
  obtain opt v where x: "x = (opt, v)" by (cases x)
  have "forwards_written es (uci_set ''upnpd'' ''config'' opt (Str v) False u)"
    using Cons.prems upnp_frame [of u opt] rule_id_ok [of "''portopen_rule_''"] x by (auto simp: forwards_written_def)
  then show ?case using Cons.IH Cons.prems(2) x by (simp add: upnp_set_def)
qed

lemma forwards_written_dmz:
  assumes "forwards_written es u" "fw_fresh u ''dmz''"
  shows "forwards_written es (write_section ''firewall'' ''dmz'' ''dmz'' [(''from'', ''wan''), (''to_ip'', ip)] u)"
proof -
  let ?o = "[(''from'', ''wan''), (''to_ip'', ip)]"
  have d: "name_ok ''dmz''" and o: "options_ok ?o" by (simp_all add: name_ok_def options_ok_def)
  have u: "uci_wf u" "pkg_isolated u ''firewall''" using assms(1) by (auto simp: forwards_written_def)
  have "rule_id ''portopen_rule_'' on k \<noteq> ''dmz''" for on k by (simp add: rule_id_def)
  then have "fw_fresh (write_section ''firewall'' ''dmz'' ''dmz'' ?o u) (rule_id ''portopen_rule_'' on k)" for on k
    using fw.write_section_fresh [OF u(1) assms(2) d o rule_id_ok] assms(1) by (simp add: forwards_written_def)
  moreover have "readers ''firewall'' own (write_section ''firewall'' ''dmz'' ''dmz'' ?o u) (on_type ty b) = readers ''firewall'' own u (on_type ty b)"
    if "ty \<in> {''redirect'', ''rule''}" for own ty b
    using that fw.readers_write [OF u assms(2) d o, of own "''dmz''" "on_type ty b"] by (auto simp: on_type_def)
  ultimately show ?thesis
    using assms(1) fw.write_section_wf [OF u(1)] fw.write_section_isolated [OF u(1) assms(2) d o u(2)] by (simp add: forwards_written_def)
qed

definition forward_entries :: "string \<Rightarrow> fwd_row list \<Rightarrow> range_row list \<Rightarrow> (bool \<times> (string \<times> string) list) list" where
  "forward_entries both rows ranges = row_entries fw_on fwd_opts fw_prot both rows @ row_entries rg_on range_opts rg_prot both ranges"

definition open_entries :: "string \<Rightarrow> open_row list \<Rightarrow> range_row list \<Rightarrow> (bool \<times> (string \<times> string) list) list" where
  "open_entries both rows ranges = row_entries op_on open_opts op_prot both rows @ row_entries rg_on open_range_opts rg_prot both ranges"

lemma entries_ok:
  "list_all (\<lambda>e. options_ok (snd e)) (forward_entries both rows ranges)"
  "list_all (\<lambda>e. options_ok (snd e)) (open_entries both opens oranges)"
  by (simp_all add: forward_entries_def open_entries_def rows_options_ok options_written_ok)

lemma rule_id_names:
  "rule_name (rule_id ''redirect_'' on k)" "rule_name (rule_id ''portopen_rule_'' on k)" "is_portopen (rule_id ''portopen_rule_'' on k)"
  "rule_id ''portopen_rule_'' on k \<noteq> rule_id ''redirect_'' on' k'" "''dmz'' \<noteq> rule_id ''redirect_'' on k"
  by (simp_all add: rule_name_def is_portopen_def rule_id_def)

lemma no_readers:
  assumes "removable ty u = []" "\<And>i. own i \<Longrightarrow> own_type ty i"
  shows "readers ''firewall'' own u ty = []"
proof -
  have "\<not> own_type ty i" if "i \<in> set (getAllSectionsOfType u ''firewall'' ty)" for i
    using assms(1) that by (auto simp: removable_def own_type_def filter_empty_conv)
  then show ?thesis using assms(2) by (auto simp: readers_def filter_empty_conv)
qed

lemma forwards_written_first:
  assumes "config_ok u" "names_reserved u"
  shows "forwards_written (forward_entries both rows ranges)
      (sv_uci (save_forwards both rows ranges \<lparr>sv_uci = fst (remove_rules u), sv_cmds = c, sv_enabled = 0, sv_disabled = 0\<rparr>))"
    and "fw_fresh (sv_uci (save_forwards both rows ranges \<lparr>sv_uci = fst (remove_rules u), sv_cmds = c, sv_enabled = 0, sv_disabled = 0\<rparr>)) ''dmz''"
proof -
  let ?u = "fst (remove_rules u)" and ?es = "forward_entries both rows ranges"
  let ?s = "\<lparr>sv_uci = ?u, sv_cmds = c, sv_enabled = 0, sv_disabled = 0\<rparr>"
  have saved: "save_forwards both rows ranges ?s = save_entries ''redirect_'' ''redirect'' ?es ?s"
    unfolding save_forwards_entries forward_entries_def ..
  have ok: "uci_wf ?u" "pkg_isolated ?u ''firewall''" using rules_removed(1) [OF assms(1)] by (auto simp: config_ok_def)
  have dmz: "name_ok ''dmz''" "rule_name ''dmz''" by (simp_all add: name_ok_def rule_name_def)
  note fresh = rules_removed(3) [OF assms]
  have po: "name_ok (rule_id ''portopen_rule_'' on k)" "name_ok (rule_id ''redirect_'' on k)" for on k by (simp_all add: rule_id_ok)
  have "fw_fresh ?u (rule_id ''redirect_'' on k)" for on k using fresh [OF po(2) rule_id_names(1)] .
  then have start: "store_ok ''redirect_'' ?s" using ok by (simp add: store_ok_def)
  have dot: "CHR ''.'' \<notin> set ''redirect_''" by simp
  note eff = save_entries_effect [OF start dot entries_ok(1)]
  have "on_type ''redirect'' b \<in> set rule_types" "on_type ''rule'' b \<in> set rule_types" for b by (simp_all add: rule_types_def on_type_def)
  note gone = rules_removed(2) [OF assms(1) this(1)] rules_removed(2) [OF assms(1) this(2)]
  have "readers ''firewall'' (\<lambda>_. True) ?u (on_type ''redirect'' b) = []" for b
    by (rule no_readers [OF gone(1)]) (simp add: own_type_def on_type_def)
  moreover have "readers ''firewall'' is_portopen ?u (on_type ''rule'' b) = []" for b
    by (rule no_readers [OF gone(2)]) (simp add: own_type_def)
  moreover have "on_type ''redirect'' on \<noteq> on_type ''rule'' b" for on b by (simp add: on_type_def)
  moreover have "fw_fresh (sv_uci (save_entries ''redirect_'' ''redirect'' ?es ?s)) (rule_id ''portopen_rule_'' on k)" for on k
    using eff(4) [OF po(1) rule_id_names(4)] fresh [OF po(1) rule_id_names(2)] by simp
  moreover have "uci_wf (sv_uci (save_entries ''redirect_'' ''redirect'' ?es ?s))"
      "pkg_isolated (sv_uci (save_entries ''redirect_'' ''redirect'' ?es ?s)) ''firewall''"
    using eff(1) by (simp_all add: store_ok_def)
  ultimately show "forwards_written ?es (sv_uci (save_forwards both rows ranges ?s))"
    unfolding saved forwards_written_def using eff(2) [of "\<lambda>_. True"] eff(3) by simp
  show "fw_fresh (sv_uci (save_forwards both rows ranges ?s)) ''dmz''"
    unfolding saved using eff(4) [OF dmz(1) rule_id_names(5)] fresh [OF dmz] by simp
qed

lemma opens_written_last:
  assumes "forwards_written es (sv_uci s)"
  shows "readers ''firewall'' (\<lambda>_. True) (sv_uci (save_opens both rows ranges s)) (on_type ''redirect'' b)
      = map (reader_of (on_type ''redirect'' b)) (entry_options b es)"
    and "readers ''firewall'' is_portopen (sv_uci (save_opens both rows ranges s)) (on_type ''rule'' b)
      = map (reader_of (on_type ''rule'' b)) (entry_options b (open_entries both rows ranges))"
proof -
  let ?s = "s\<lparr>sv_enabled := 0, sv_disabled := 0\<rparr>" and ?es = "open_entries both rows ranges"
  have saved: "save_opens both rows ranges s = save_entries ''portopen_rule_'' ''rule'' ?es ?s"
    unfolding save_opens_entries open_entries_def ..
  have start: "store_ok ''portopen_rule_'' ?s" using assms by (simp add: forwards_written_def store_ok_def)
  have dot: "CHR ''.'' \<notin> set ''portopen_rule_''" by simp
  note eff = save_entries_effect [OF start dot entries_ok(2)]
  have "on_type ''rule'' on \<noteq> on_type ''redirect'' b" for on b by (simp add: on_type_def)
  then show "readers ''firewall'' (\<lambda>_. True) (sv_uci (save_opens both rows ranges s)) (on_type ''redirect'' b)
      = map (reader_of (on_type ''redirect'' b)) (entry_options b es)"
    unfolding saved using eff(3) assms by (simp add: forwards_written_def)
  show "readers ''firewall'' is_portopen (sv_uci (save_opens both rows ranges s)) (on_type ''rule'' b)
      = map (reader_of (on_type ''rule'' b)) (entry_options b ?es)"
    unfolding saved using eff(2) [of is_portopen b] rule_id_names(3) assms by (simp add: forwards_written_def)
qed

lemma page_parts_saved:
  assumes "forwards_written es (sv_uci s)" "fw_fresh (sv_uci s) ''dmz''"
    and "\<forall>i \<in> {''dmz_enabled'', ''dmz_ip'', ''upnp_enabled'', ''upnp_up'', ''upnp_down''}. doc p i \<noteq> None"
  shows "\<exists>s2 u3 cmds. save_dmz p s = Inr s2 \<and> save_upnp haveUpnpd p (sv_uci s2) = Inr (u3, cmds) \<and> forwards_written es u3"
proof -
  have el: "\<exists>e. get_el p i = Inr e" if "i \<in> {''dmz_enabled'', ''dmz_ip'', ''upnp_enabled'', ''upnp_up'', ''upnp_down''}" for i
    using assms(3) that by (auto simp: get_el_def)
  obtain d dip e up down where els: "get_el p ''dmz_enabled'' = Inr d" "get_el p ''dmz_ip'' = Inr dip" "get_el p ''upnp_enabled'' = Inr e"
      "get_el p ''upnp_up'' = Inr up" "get_el p ''upnp_down'' = Inr down"
    using el [of "''dmz_enabled''"] el [of "''dmz_ip''"] el [of "''upnp_enabled''"] el [of "''upnp_up''"] el [of "''upnp_down''"] by auto
  obtain s2 where s2: "save_dmz p s = Inr s2" "forwards_written es (sv_uci s2)"
    using assms(1) forwards_written_dmz [OF assms(1,2), of "get_value dip"] by (cases "el_checked d") (simp_all add: save_dmz_def field_text_def els)
  have "forwards_written es (upnp_set [(''enabled'', a), (''enable_upnp'', b), (''enable_natpmp'', c)] (sv_uci s2))"
      "forwards_written es (upnp_set [(''enabled'', a), (''enable_upnp'', b), (''enable_natpmp'', c), (''upload'', x), (''download'', y)] (sv_uci s2))" for a b c x y
    by (rule forwards_written_upnp [OF s2(2)]; simp add: name_ok_def)+
  then have "\<exists>u3 cmds. save_upnp haveUpnpd p (sv_uci s2) = Inr (u3, cmds) \<and> forwards_written es u3"
    using s2(2) by (simp add: save_upnp_def field_text_def els)
  then show ?thesis using s2(1) by blast
qed

lemma rules_saved:
  assumes "config_ok original" "names_reserved original"
    and "\<forall>i \<in> {''dmz_enabled'', ''dmz_ip'', ''upnp_enabled'', ''upnp_up'', ''upnp_down''}. doc p i \<noteq> None"
  shows "\<exists>u commands. save_rules ts haveUpnpd original st p = Inr (u, commands)
    \<and> (\<forall>b. readers ''firewall'' (\<lambda>_. True) u (on_type ''redirect'' b)
        = map (reader_of (on_type ''redirect'' b)) (entry_options b (forward_entries (t_both ts) (portf st) (portfrange st))))
    \<and> (\<forall>b. readers ''firewall'' is_portopen u (on_type ''rule'' b)
        = map (reader_of (on_type ''rule'' b)) (entry_options b (open_entries (t_both ts) (porto st) (portorange st))))"
proof -
  obtain u0 dels where u0: "remove_rules original = (u0, dels)" by (cases "remove_rules original")
  let ?s1 = "save_forwards (t_both ts) (portf st) (portfrange st) \<lparr>sv_uci = u0, sv_cmds = dels, sv_enabled = 0, sv_disabled = 0\<rparr>"
  let ?es = "forward_entries (t_both ts) (portf st) (portfrange st)"
  have "config_ok u0" using rules_removed(1) [OF assms(1)] by (simp add: u0)
  then have clone: "uci_clone u0 = Inr u0" using clone_identity by (simp add: config_ok_def)
  have "forwards_written ?es (sv_uci ?s1)" "fw_fresh (sv_uci ?s1) ''dmz''" using forwards_written_first [OF assms(1,2)] by (simp_all add: u0)
  then obtain s2 u3 cmds where parts: "save_dmz p ?s1 = Inr s2" "save_upnp haveUpnpd p (sv_uci s2) = Inr (u3, cmds)" "forwards_written ?es u3"
    using page_parts_saved [OF _ _ assms(3), of ?es ?s1 haveUpnpd] by blast
  let ?s3 = "s2\<lparr>sv_uci := u3, sv_cmds := sv_cmds s2 @ [''uci commit'']\<rparr>"
  let ?s4 = "save_opens (t_both ts) (porto st) (portorange st) ?s3"
  have "forwards_written ?es (sv_uci ?s3)" using parts(3) by simp
  note last = opens_written_last [OF this]
  moreover have "\<exists>commands. save_rules ts haveUpnpd original st p = Inr (sv_uci ?s4, commands)"
    by (simp add: save_rules_def u0 clone parts(1,2) Let_def)
  ultimately show ?thesis by blast
qed

text \<open>
  C9. Saving and loading again. When the sections of the firewall that have the page's names are its
  rules only, the texts of the rows are single lines, no port of a single rule has a dash, and no two
  rows of a table differ in the protocol alone, then saving succeeds and loading the saved settings
  gives back all four tables, with every rule once, its protocols merged again, the enabled rules
  before the disabled ones.
\<close>

theorem rules_survive_saving:
  assumes "config_ok original" and "names_reserved original" and "both_ok (t_both ts)"
    and "saved_forwards (t_both ts) (portf st) (portfrange st)" and "saved_opens (t_both ts) (porto st) (portorange st)"
    and "\<forall>i \<in> {''dmz_enabled'', ''dmz_ip'', ''upnp_enabled'', ''upnp_up'', ''upnp_down''}. doc p i \<noteq> None"
  shows "\<exists>u commands. save_rules ts haveUpnpd original st p = Inr (u, commands)
    \<and> load_forwards (t_both ts) u = Inr (enabled_first fw_on (portf st), enabled_first rg_on (portfrange st))
    \<and> load_opens (t_both ts) u = Inr (enabled_first op_on (porto st), enabled_first rg_on (portorange st))"
proof -
  obtain u commands where saved: "save_rules ts haveUpnpd original st p = Inr (u, commands)"
    and redirects: "\<And>b. readers ''firewall'' (\<lambda>_. True) u (on_type ''redirect'' b)
        = map (reader_of (on_type ''redirect'' b)) (entry_options b (forward_entries (t_both ts) (portf st) (portfrange st)))"
    and opens: "\<And>b. readers ''firewall'' is_portopen u (on_type ''rule'' b)
        = map (reader_of (on_type ''rule'' b)) (entry_options b (open_entries (t_both ts) (porto st) (portorange st)))"
    using rules_saved [OF assms(1,2,6), of ts haveUpnpd st] by blast
  note forwards_loaded [OF assms(3,4) forward_entries_def redirects redirects] opens_loaded [OF assms(3,5) open_entries_def opens opens]
  with saved show ?thesis by blast
qed

text \<open>
  C35. Two forwarding rules that differ only in the protocol and in that the second is disabled come
  back from saving and loading as one rule for both protocols that is enabled: the disabled rule is
  merged into its twin, and is then in force.
\<close>

theorem disabled_twin_enabled:
  assumes "config_ok original" and "names_reserved original" and "both_ok (t_both ts)"
    and "forward_saved (t_both ts) r" and "fw_prot r = ''TCP''" and "fw_on r"
    and "portf st = [r, r\<lparr>fw_prot := ''UDP'', fw_on := False\<rparr>]" and "portfrange st = []"
    and "\<forall>i \<in> {''dmz_enabled'', ''dmz_ip'', ''upnp_enabled'', ''upnp_up'', ''upnp_down''}. doc p i \<noteq> None"
  shows "\<exists>u commands. save_rules ts haveUpnpd original st p = Inr (u, commands)
    \<and> load_forwards (t_both ts) u = Inr ([r\<lparr>fw_prot := t_both ts\<rparr>], [])"
proof -
  let ?q = "r\<lparr>fw_prot := ''UDP'', fw_on := False\<rparr>"
  obtain u commands where saved: "save_rules ts haveUpnpd original st p = Inr (u, commands)"
    and redirects: "\<And>b. readers ''firewall'' (\<lambda>_. True) u (on_type ''redirect'' b)
        = map (reader_of (on_type ''redirect'' b)) (entry_options b (forward_entries (t_both ts) (portf st) (portfrange st)))"
    using rules_saved [OF assms(1,2,9), of ts haveUpnpd st] by blast
  have low: "map lower_char ''TCP'' = ''tcp''" "map lower_char ''UDP'' = ''udp''" by code_simp+
  then have protos: "save_protos (t_both ts) ''TCP'' = [''tcp'']" "save_protos (t_both ts) ''UDP'' = [''udp'']"
    using assms(3) by (auto simp: save_protos_def both_ok_def)
  have "entry_options True (forward_entries (t_both ts) (portf st) (portfrange st)) = [fwd_opts r ''tcp'']"
      "entry_options False (forward_entries (t_both ts) (portf st) (portfrange st)) = [fwd_opts ?q ''udp'']"
    by (simp_all add: entry_options_def forward_entries_def row_entries_def assms(5,6,7,8) protos)
  then have rs: "readers ''firewall'' (\<lambda>_. True) u ''redirect'' = [reader_of ''redirect'' (fwd_opts r ''tcp'')]"
      "readers ''firewall'' (\<lambda>_. True) u ''redirect_disabled'' = [reader_of ''redirect_disabled'' (fwd_opts ?q ''udp'')]"
    using redirects [of True] redirects [of False] by (simp_all add: on_type_def)
  have q: "forward_saved (t_both ts) ?q" "fw_on ?q = False" "forward_text ?q = forward_text r"
    using assms(4) by (simp_all add: forward_saved_def proto_ok_def forward_text_def)
  have "load_redirect (t_both ts) True (reader_of ''redirect'' (fwd_opts r ''tcp'')) (no_rules, no_rules)
      = Inr (([r], (\<lambda>_. None)((''tcp'', forward_text r) \<mapsto> 0)), no_rules)"
    using forward_read [OF assms(3,4), of "''tcp''" "''redirect''" no_rules no_rules] assms(5,6)
    by (simp add: load_rule_def no_rules_def upper_proto_def)
  moreover have "load_redirect (t_both ts) False (reader_of ''redirect_disabled'' (fwd_opts ?q ''udp''))
        (([r], (\<lambda>_. None)((''tcp'', forward_text r) \<mapsto> 0)), no_rules)
      = Inr (([r\<lparr>fw_prot := t_both ts\<rparr>], (\<lambda>_. None)((''tcp'', forward_text r) \<mapsto> 0)), no_rules)"
    using forward_read [OF assms(3) q(1), of "''udp''" "''redirect_disabled''"] unfolding q(2,3)
    by (simp add: load_rule_def twin_proto_def)
  ultimately have "load_forwards (t_both ts) u = Inr ([r\<lparr>fw_prot := t_both ts\<rparr>], [])"
    by (simp add: load_forwards_def rs no_rules_def)
  then show ?thesis using saved by blast
qed

section \<open>A small configuration\<close>

definition demo_rules :: uci where
  "demo_rules = write_section ''firewall'' ''redirect_enabled_number_0'' ''redirect'' [(''proto'', ''tcp'')]
     (write_section ''firewall'' ''defaults'' ''defaults'' [(''forward'', ''REJECT'')] newUCIContainer)"

definition demo_rule_page :: page where
  "demo_rule_page = \<lparr>doc = map_of (map (\<lambda>i. (i, demo_text)) [''dmz_enabled'', ''dmz_ip'', ''upnp_enabled'', ''upnp_up'', ''upnp_down'']),
     alerts = [], gvalue = None\<rparr>"

lemma demo_rules_ok: "config_ok demo_rules" "names_reserved demo_rules"
proof -
  have keys: "ukeys demo_rules = [''firewall.defaults'', ''firewall.defaults.forward'', ''firewall.redirect_enabled_number_0'', ''firewall.redirect_enabled_number_0.proto'']"
    by code_simp
  have "uci_wf demo_rules" unfolding demo_rules_def by (intro fw.write_section_wf uci_wf_new)
  moreover have "keys_wf demo_rules" unfolding keys_wf_def keys by code_simp
  moreover have "pkg_isolated demo_rules ''firewall''" unfolding pkg_isolated_def keys by code_simp
  ultimately show "config_ok demo_rules" by (simp add: config_ok_def)
  show "names_reserved demo_rules" by code_simp
qed

lemma demo_both: "t_both demo_fwd_strings = ''Both''" "both_ok ''Both''"
  by (simp add: demo_fwd_strings_def) code_simp

lemma demo_page_ok: "\<forall>i \<in> {''dmz_enabled'', ''dmz_ip'', ''upnp_enabled'', ''upnp_up'', ''upnp_down''}. doc demo_rule_page i \<noteq> None"
  by (simp add: demo_rule_page_def)

theorem rules_survive_saving_witness:
  "\<exists>u commands. save_rules demo_fwd_strings True demo_rules demo_forwards demo_rule_page = Inr (u, commands)
    \<and> load_forwards ''Both'' u = Inr (portf demo_forwards, []) \<and> load_opens ''Both'' u = Inr ([], portorange demo_forwards)"
proof -
  have "saved_forwards ''Both'' (portf demo_forwards) (portfrange demo_forwards)" by code_simp
  moreover have "saved_opens ''Both'' (porto demo_forwards) (portorange demo_forwards)" by code_simp
  moreover have "enabled_first fw_on (portf demo_forwards) = portf demo_forwards" "enabled_first rg_on (portorange demo_forwards) = portorange demo_forwards"
      "portfrange demo_forwards = []" "porto demo_forwards = []"
    by (simp_all add: demo_forwards_def enabled_first_def)
  ultimately show ?thesis
    using rules_survive_saving [OF demo_rules_ok _ _ _ demo_page_ok, of demo_fwd_strings demo_forwards True] demo_both
    by (simp add: enabled_first_def)
qed

theorem disabled_twin_enabled_witness:
  "\<exists>r st u commands. fw_on r \<and> portf st = [r, r\<lparr>fw_prot := ''UDP'', fw_on := False\<rparr>]
    \<and> save_rules demo_fwd_strings True demo_rules st demo_rule_page = Inr (u, commands)
    \<and> load_forwards ''Both'' u = Inr ([r\<lparr>fw_prot := ''Both''\<rparr>], [])"
proof -
  define r where "r = hd (portf demo_forwards)"
  define st where "st = demo_forwards\<lparr>portf := [r, r\<lparr>fw_prot := ''UDP'', fw_on := False\<rparr>]\<rparr>"
  have "forward_saved ''Both'' r" unfolding r_def by code_simp
  moreover have r: "fw_prot r = ''TCP''" "fw_on r" "portf st = [r, r\<lparr>fw_prot := ''UDP'', fw_on := False\<rparr>]" "portfrange st = []"
    by (simp_all add: r_def st_def demo_forwards_def)
  ultimately have "\<exists>u commands. save_rules demo_fwd_strings True demo_rules st demo_rule_page = Inr (u, commands)
      \<and> load_forwards ''Both'' u = Inr ([r\<lparr>fw_prot := ''Both''\<rparr>], [])"
    using disabled_twin_enabled [OF demo_rules_ok _ _ _ _ _ _ demo_page_ok, of demo_fwd_strings r st True, unfolded demo_both(1)] demo_both(2) by blast
  then show ?thesis using r(2,3) by blast
qed

end
