(* ===== verification/Dhcp_Static.thy ===== *)
theory Dhcp_Static
  imports Page_Tables Page_Fields Ip6_Accept Uci_Script Uci_Sections
begin

text \<open>
  The DHCP page (\<open>dhcp.js\<close>): the table of static addresses with its checks, the pool of addresses, the list
  of connected hosts that are not in the table, and the sections of the hosts in the configuration. Shown:
  no sequence of additions, edits and removals gives a host, a hardware address or an address, as it is
  spelled, to two rows; a saved table is loaded as it was; which pools are accepted; and where the checks fail.
\<close>

section \<open>State\<close>

record dhcp_row =
  dr_host :: string
  dr_mac :: string
  dr_ip :: string
  dr_hostid :: string
  dr_duid :: string

record dhcp_state =
  ds_page :: page
  ds_rows :: "dhcp_row list"

text \<open>
  What the page was given of the network: leases (hardware address, address and host name), and the
  tables from addresses to host names, hardware addresses and client identifiers.
\<close>

record lan_info =
  leaseData :: "(string \<times> string \<times> string) list"
  ipHostHash :: "(string \<times> string) list"
  ipMacHash :: "(string \<times> string option) list"
  ipDUIDHash :: "string \<Rightarrow> string option"

record dhcp_strings =
  d_prfErr :: string
  d_dHErr :: string
  d_dMErr :: string
  d_dIPErr :: string
  d_dHIDErr :: string
  d_dDUIDErr :: string
  d_NoDUID :: string
  d_subErr :: string
  d_ipErr :: string
  d_AErr :: string
  d_upErr :: string
  d_dsubErr :: string
  d_dipErr :: string
  d_ErrChanges :: string
  d_SelH :: string

section \<open>Hosts that can be chosen\<close>

definition upper_char :: "char \<Rightarrow> char" where
  "upper_char c = (let n = (of_char c :: nat) in if 97 \<le> n \<and> n \<le> 122 then char_of (n - 32) else c)"

text \<open>The first identifier of the addresses whose entry satisfies the test.\<close>

definition find_duid :: "lan_info \<Rightarrow> ('v \<Rightarrow> bool) \<Rightarrow> (string \<times> 'v) list \<Rightarrow> string option" where
  "find_duid lan test tab =
     (case List.map_filter (\<lambda>(ip, v). if test v then ipDUIDHash lan ip else None) tab of [] \<Rightarrow> None | d # _ \<Rightarrow> Some d)"

definition lease_duid :: "lan_info \<Rightarrow> string \<Rightarrow> string \<Rightarrow> string option" where
  "lease_duid lan mac host =
     (case find_duid lan (\<lambda>h. h = host) (ipHostHash lan) of
        Some d \<Rightarrow> Some d
      | None \<Rightarrow> find_duid lan (\<lambda>m. case m of None \<Rightarrow> False | Some x \<Rightarrow> mac = map upper_char x) (ipMacHash lan))"

definition lease_option :: "lan_info \<Rightarrow> string list \<Rightarrow> string \<times> string \<times> string \<Rightarrow> (string \<times> string) option" where
  "lease_option lan staticMacs = (\<lambda>(leaseMac, ip, host).
     let mac = map upper_char leaseMac
     in if mac \<in> set staticMacs then None
        else Some (host @ '','' @ mac @ '','' @ (case lease_duid lan mac host of None \<Rightarrow> ''-'' | Some d \<Rightarrow> d),
                   (if host = [] \<or> host = ''*'' then ip else host) @ '' ('' @ mac @ '')''))"

definition resetHostnameMacList :: "dhcp_strings \<Rightarrow> lan_info \<Rightarrow> dhcp_row list \<Rightarrow> page \<Rightarrow> page js_result" where
  "resetHostnameMacList ts lan rows p =
     (let staticMacs = map (\<lambda>r. map upper_char (dr_mac r)) rows;
          found = List.map_filter (lease_option lan staticMacs) (leaseData lan);
          hmVals = ''none'' # map fst found; hmText = d_SelH ts # map snd found
      in res_bind (setAllowableSelections ''static_from_connected'' hmVals hmText p) (\<lambda>p1.
         res_bind (if length hmText > 1 then res_bind (get_el p1 ''dhcp_enabled'') (\<lambda>e. Inr (el_checked e)) else Inr False) (\<lambda>hmEnabled.
           setElementEnabled ''static_from_connected'' hmEnabled ''none'' p1)))"

text \<open>The fields that are enabled with the server; the shading of the table is left out.\<close>

definition setEnabled :: "dhcp_strings \<Rightarrow> lan_info \<Rightarrow> bool \<Rightarrow> dhcp_row list \<Rightarrow> page \<Rightarrow> page js_result" where
  "setEnabled ts lan enabled rows p =
     res_bind (fold_res (\<lambda>i. setElementEnabled i enabled [])
       [''dhcp_start'', ''dhcp_end'', ''dhcp_lease'', ''block_mismatches'', ''add_host'', ''add_mac'', ''add_ip'',
        ''add_hostid'', ''add_duid'', ''dhcpv6'', ''ra'', ''add_button''] p) (resetHostnameMacList ts lan rows)"

section \<open>Checks\<close>

definition host_char :: "char \<Rightarrow> bool" where
  "host_char c \<longleftrightarrow> is_digit c \<or> c = CHR ''-'' \<or> (let n = (of_char c :: nat) in 65 \<le> n \<and> n \<le> 90 \<or> 97 \<le> n \<and> n \<le> 122)"

definition validateDHCPHostName :: "string \<Rightarrow> nat" where
  "validateDHCPHostName hostname = (if hostname = [] then 0 else if list_all host_char hostname then 0 else 1)"

text \<open>
  \<open>/^::([0-9a-f]{0,4}:)?[0-9a-f]{0,4}/\<close>: the pattern has no end, and what follows the two colons may be
  empty, so that any text that begins with them matches.
\<close>

definition proofreadIP6Suffix :: "string \<Rightarrow> nat" where
  "proofreadIP6Suffix s = (if s = [] \<or> s = ''-'' then 0 else if prefix ''::'' s then 0 else 1)"

definition proofreadDUID :: "string \<Rightarrow> nat" where
  "proofreadDUID s = (if s = ''-'' then 0 else if length s \<le> 130 \<and> list_all hex_digit s then 0 else 1)"

definition static_rows :: "proof_row list" where
  "static_rows =
     [own_row ''add_host'' ''add_host_label'' validateDHCPHostName, own_row ''add_mac'' ''add_mac_label'' validateMac,
      own_row ''add_ip'' ''add_ip_label'' validateIP, own_row ''add_hostid'' ''add_hostid_label'' proofreadIP6Suffix,
      own_row ''add_duid'' ''add_duid_label'' proofreadDUID]"

text \<open>\<open>rangeInSubnet\<close> of numbers that may be \<open>NaN\<close>, and of options that may be lists.\<close>

definition num_range_in_subnet :: "string \<Rightarrow> string \<Rightarrow> int option \<Rightarrow> int option \<Rightarrow> bool" where
  "num_range_in_subnet msk ip start stop =
     (case getSubnetRange msk ip of
        Some (subnetStart, subnetEnd) \<Rightarrow> le_num (Some (int subnetStart)) start \<and> le_num stop (Some (int subnetEnd))
      | None \<Rightarrow> False)"

definition subnet_test :: "uci_val \<Rightarrow> uci_val \<Rightarrow> int option \<Rightarrow> int option \<Rightarrow> bool js_result" where
  "subnet_test msk ip start stop =
     (case msk of
        Lst _ \<Rightarrow> Inl TypeError
      | Str m \<Rightarrow>
          (case ip of
             Str i \<Rightarrow> Inr (num_range_in_subnet m i start stop)
           | Lst _ \<Rightarrow> if getSubnetRange m [] = None then Inr False else Inl TypeError))"

text \<open>\<open>parseInt((ip.split("."))[3])\<close>.\<close>

definition last_octet :: "string \<Rightarrow> int option" where
  "last_octet ip = (case nth_opt (split_on CHR ''.'' ip) 3 of None \<Rightarrow> None | Some s \<Rightarrow> js_parseInt s)"

definition row_errors :: "dhcp_strings \<Rightarrow> string list \<Rightarrow> dhcp_row \<Rightarrow> string list" where
  "row_errors ts v r =
     (if dr_host r \<noteq> [] \<and> dr_host r \<noteq> ''-'' \<and> dr_host r = v ! 0 then [d_dHErr ts] else [])
     @ (if dr_mac r = v ! 1 then [d_dMErr ts] else [])
     @ (if dr_ip r = v ! 2 then [d_dIPErr ts] else [])
     @ (if dr_hostid r \<noteq> ''-'' \<and> dr_hostid r = v ! 3 then [d_dHIDErr ts] else [])
     @ (if dr_duid r \<noteq> ''-'' \<and> dr_duid r = v ! 4 then [d_dDUIDErr ts] else [])"

definition static_ids :: "string list" where
  "static_ids = [''add_host'', ''add_mac'', ''add_ip'', ''add_hostid'', ''add_duid'']"

definition is_blank :: "string \<Rightarrow> bool" where
  "is_blank s \<longleftrightarrow> s = [] \<or> s = ''-''"

definition proofreadStatic :: "dhcp_strings \<Rightarrow> uci \<Rightarrow> nat option \<Rightarrow> dhcp_state \<Rightarrow> (page \<times> string list) js_result" where
  "proofreadStatic ts u excludeRow st =
     res_bind (proofreadFields (d_prfErr ts) static_rows (ds_page st)) (\<lambda>(p1, errors).
       if errors \<noteq> [] then Inr (p1, errors)
       else res_bind (read_values p1 static_ids) (\<lambda>v.
         let dups = concat (map (row_errors ts v) (other_rows excludeRow (ds_rows st)))
         in if dups \<noteq> [] then Inr (p1, dups)
            else if \<not> is_blank (v ! 3) \<and> is_blank (v ! 4) then Inr (p1, [d_NoDUID ts])
            else
              let msk = uci_get u ''network'' ''lan'' ''netmask''; ip = uci_get u ''network'' ''lan'' ''ipaddr'';
                  testEnd = last_octet (v ! 2)
              in res_bind (subnet_test msk ip testEnd testEnd) (\<lambda>inSubnet.
                   Inr (p1, (if \<not> inSubnet then [d_subErr ts] else [])
                            @ (if val_string ip = v ! 2 then [d_ipErr ts] else [])))))"

definition pool_rows :: "proof_row list" where
  "pool_rows =
     [own_row ''dhcp_start'' ''dhcp_start_label'' validateNumeric, own_row ''dhcp_end'' ''dhcp_end_label'' validateNumeric,
      own_row ''dhcp_lease'' ''dhcp_lease_label'' validateNumeric]"

definition dhcp_proofreadAll :: "dhcp_strings \<Rightarrow> uci \<Rightarrow> page \<Rightarrow> (page \<times> string list) js_result" where
  "dhcp_proofreadAll ts u p =
     res_bind (proofreadFields (d_prfErr ts) pool_rows p) (\<lambda>(p1, errors).
       if errors \<noteq> [] then Inr (p1, errors)
       else res_bind (get_el p1 ''dhcp_enabled'') (\<lambda>enabled.
         if \<not> el_checked enabled then Inr (p1, [])
         else res_bind (field_text p1 ''dhcp_start'') (\<lambda>s. res_bind (field_text p1 ''dhcp_end'') (\<lambda>e.
           let start = js_parseInt s; stop = js_parseInt e
           in res_bind (subnet_test (uci_get u ''network'' ''lan'' ''netmask'') (uci_get u ''network'' ''lan'' ''ipaddr'') start stop) (\<lambda>inSubnet.
              res_bind (text_value (uci_get u ''network'' ''lan'' ''ipaddr'')) (\<lambda>ip.
                let ipEnd = last_octet ip
                in Inr (p1, (if \<not> inSubnet then [d_dsubErr ts] else [])
                            @ (if le_num start ipEnd \<and> le_num ipEnd stop then [d_dipErr ts] else []))))))))"

section \<open>Adding, editing, removing\<close>

definition clear_static :: "page \<Rightarrow> page js_result" where
  "clear_static p = fold_res (\<lambda>i. upd_el i (put_value [])) static_ids p"

definition static_row :: "string list \<Rightarrow> dhcp_row" where
  "static_row v = \<lparr>dr_host = cell_text (dash (v ! 0)), dr_mac = cell_text (dash (v ! 1)), dr_ip = cell_text (dash (v ! 2)),
     dr_hostid = cell_text (dash (v ! 3)), dr_duid = cell_text (dash (v ! 4))\<rparr>"

text \<open>The values are read and the fields cleared one after the other; the fields are distinct.\<close>

definition addStatic :: "dhcp_strings \<Rightarrow> lan_info \<Rightarrow> uci \<Rightarrow> dhcp_state \<Rightarrow> dhcp_state js_result" where
  "addStatic ts lan u st =
     res_bind (proofreadStatic ts u None st) (\<lambda>(p1, errors).
       if errors \<noteq> [] then Inr (st\<lparr>ds_page := report errors ([LF, LF] @ d_AErr ts) p1\<rparr>)
       else res_bind (read_values p1 static_ids) (\<lambda>v. res_bind (clear_static p1) (\<lambda>p2.
         let rows = ds_rows st @ [static_row v]
         in res_bind (resetHostnameMacList ts lan rows p2) (\<lambda>p3. Inr (st\<lparr>ds_page := p3, ds_rows := rows\<rparr>)))))"

definition editStatic :: "dhcp_strings \<Rightarrow> lan_info \<Rightarrow> uci \<Rightarrow> nat \<Rightarrow> dhcp_state \<Rightarrow> dhcp_state js_result" where
  "editStatic ts lan u editRow st =
     res_bind (proofreadStatic ts u (Some editRow) st) (\<lambda>(p1, errors).
       if errors \<noteq> [] then Inr (st\<lparr>ds_page := report errors ([LF] @ d_upErr ts) p1\<rparr>)
       else res_bind (read_values p1 static_ids) (\<lambda>v.
         let rows = (ds_rows st)[editRow := \<lparr>dr_host = dash (v ! 0), dr_mac = v ! 1, dr_ip = v ! 2,
                                             dr_hostid = dash (v ! 3), dr_duid = dash (v ! 4)\<rparr>]
         in res_bind (resetHostnameMacList ts lan rows p1) (\<lambda>p2. Inr (st\<lparr>ds_page := p2, ds_rows := rows\<rparr>))))"

definition removeStaticIp :: "dhcp_strings \<Rightarrow> lan_info \<Rightarrow> nat \<Rightarrow> dhcp_state \<Rightarrow> dhcp_state js_result" where
  "removeStaticIp ts lan i st =
     (let rows = take i (ds_rows st) @ drop (Suc i) (ds_rows st)
      in res_bind (resetHostnameMacList ts lan rows (ds_page st)) (\<lambda>p. Inr (st\<lparr>ds_page := p, ds_rows := rows\<rparr>)))"

section \<open>Saving\<close>

definition getDhcpSection :: "uci \<Rightarrow> string" where
  "getDhcpSection u =
     (let allDhcpSections = getAllSections u ''dhcp''
      in fold (\<lambda>s dhcpSection. if val_string (uci_get u ''dhcp'' s ''interface'') = ''lan'' then s else dhcpSection) allDhcpSections
           (case allDhcpSections of [] \<Rightarrow> ''cfg1'' | s # _ \<Rightarrow> s))"

definition remove_hosts :: "uci \<Rightarrow> uci \<times> string list" where
  "remove_hosts u =
     (let sections = rev (getAllSectionsOfType u ''dhcp'' ''host'')
      in (fold (removeSection ''dhcp'') sections u, map (\<lambda>s. ''uci del dhcp.'' @ s) sections))"

definition pool_limit :: "string list \<Rightarrow> string" where
  "pool_limit values =
     num_print (case (js_parseInt (values ! 1), js_parseInt (values ! 0)) of
                  (Some e, Some s) \<Rightarrow> Some (e - s + 1) | _ \<Rightarrow> None)"

definition pool_field :: "string \<Rightarrow> string \<Rightarrow> string \<Rightarrow> field" where
  "pool_field dhcpSection i opt =
     \<lparr>fld_id = i, fld_vis = Some i, fld_pkg = ''dhcp'', fld_section = dhcpSection, fld_option = opt\<rparr>"

definition save_pool :: "string \<Rightarrow> page \<times> uci \<Rightarrow> (page \<times> uci) js_result" where
  "save_pool dhcpSection s =
     setVariables
       [(pool_field dhcpSection ''dhcp_start'' ''start'', setVariableFromValue False),
        (pool_field dhcpSection ''dhcp_end'' ''limit'', setVariableFromCombined [''dhcp_start'', ''dhcp_end''] False pool_limit),
        (pool_field dhcpSection ''dhcp_lease'' ''leasetime'', setVariableFromModifiedValue False (\<lambda>v. v @ ''h''))] s"

definition set_lan :: "string \<Rightarrow> string \<Rightarrow> uci \<Rightarrow> uci" where
  "set_lan opt v u = uci_set ''dhcp'' ''lan'' opt (Str v) False u"

definition save_server :: "page \<Rightarrow> uci \<Rightarrow> (uci \<times> bool) js_result" where
  "save_server p u =
     res_bind (get_el p ''dhcp_enabled'') (\<lambda>e.
       if el_checked e
       then res_bind (field_text p ''dhcpv6'') (\<lambda>dhcpv6. res_bind (field_text p ''ra'') (\<lambda>ra. res_bind (field_text p ''ra_slaac'') (\<lambda>slaac.
              Inr (set_lan ''ra_slaac'' slaac (set_lan ''ra'' ra (set_lan ''dhcpv6'' dhcpv6
                     (fst (uci_remove ''dhcp'' ''lan'' ''ignore'' u)))), True))))
       else Inr (set_lan ''ra_slaac'' ''0'' (set_lan ''ra'' ''disabled'' (set_lan ''dhcpv6'' ''disabled''
                   (set_lan ''ignore'' ''1'' u))), False))"

definition save_hostid :: "string \<Rightarrow> string" where
  "save_hostid hostid =
     (let splitHostId = split_on CHR '':'' hostid
      in concat (if length splitHostId = 4 then splitHostId[3 := last_n 4 (''0000'' @ splitHostId ! 3)] else splitHostId))"

definition host_options :: "dhcp_row \<Rightarrow> (string \<times> string) list" where
  "host_options r =
     (if is_blank (dr_host r) then [] else [(''name'', dr_host r)])
     @ [(''mac'', dr_mac r), (''ip'', dr_ip r)]
     @ (if dr_hostid r = ''-'' then [] else [(''hostid'', save_hostid (dr_hostid r))])
     @ (if dr_duid r = ''-'' then [] else [(''duid'', dr_duid r)])"

definition host_section :: "nat \<Rightarrow> string" where
  "host_section hostIdx = ''static_host_'' @ dec_str (hostIdx + 1)"

definition save_host :: "nat \<times> dhcp_row \<Rightarrow> uci \<times> string list \<Rightarrow> uci \<times> string list" where
  "save_host = (\<lambda>(hostIdx, r) (u, cmds).
     if is_blank (dr_mac r) then (u, cmds)
     else (write_section ''dhcp'' (host_section hostIdx) ''host'' (host_options r) u,
           cmds @ [''uci set dhcp.'' @ host_section hostIdx @ ''=host'']))"

definition save_hosts :: "dhcp_row list \<Rightarrow> uci \<times> string list \<Rightarrow> uci \<times> string list" where
  "save_hosts rows s = fold save_host (enumerate 0 rows) s"

text \<open>The first section of a list that may be empty.\<close>

definition first_section :: "string list \<Rightarrow> string" where
  "first_section ss = (case ss of [] \<Rightarrow> ''undefined'' | s # _ \<Rightarrow> s)"

definition save_ethers :: "uci \<Rightarrow> uci" where
  "save_ethers u =
     (case getAllSectionsOfType u ''dhcp'' ''dnsmasq'' of
        [] \<Rightarrow> u | s # _ \<Rightarrow> uci_set ''dhcp'' s ''readethers'' (Str ''0'') False u)"

definition save_mismatches :: "uci \<Rightarrow> page \<Rightarrow> uci \<Rightarrow> (uci \<times> string list) js_result" where
  "save_mismatches uciOriginal p u =
     (let s = first_section (getAllSectionsOfType u ''firewall'' ''defaults'');
          oldBlock = (val_string (uci_get uciOriginal ''firewall'' s ''enforce_dhcp_assignments'') = ''1'')
      in res_bind (get_el p ''block_mismatches'') (\<lambda>e.
           Inr (if el_checked e = oldBlock then (u, [])
                else if el_checked e
                then (uci_set ''firewall'' s ''enforce_dhcp_assignments'' (Str ''1'') False u,
                      [''uci set firewall.@defaults[0].enforce_dhcp_assignments=1'', ''uci commit''])
                else (fst (uci_remove ''firewall'' s ''enforce_dhcp_assignments'' u),
                      [''uci del firewall.@defaults[0].enforce_dhcp_assignments'', ''uci commit'']))))"

definition TAB :: char where "TAB = CHR 0x09"

definition ether_host_commands :: "string list" where
  "ether_host_commands =
     [''touch /etc/ethers'', ''rm /etc/ethers'', ''touch /etc/hosts'', ''rm /etc/hosts'',
      ''echo \"127.0.0.1'' @ [TAB] @ ''localhost localhost4\" >> /etc/hosts'',
      ''echo \"::1'' @ [TAB] @ ''localhost localhost6\" >> /etc/hosts'']"

text \<open>What is sent: the container to be kept, the commands, and whether the server will be enabled.\<close>

definition save_dhcp :: "string \<Rightarrow> uci \<Rightarrow> dhcp_row list \<Rightarrow> page \<Rightarrow> (uci \<times> string \<times> bool) js_result" where
  "save_dhcp dhcpSection uciOriginal rows p =
     (let (original, dels) = remove_hosts uciOriginal
      in res_bind (uci_clone original) (\<lambda>u0.
         let u1 = uci_set ''dhcp'' dhcpSection ''interface'' (Str ''lan'') False (fst (uci_remove ''dhcp'' dhcpSection ''ignore'' u0))
         in res_bind (save_pool dhcpSection (p, u1)) (\<lambda>(p2, u2).
            res_bind (save_server p2 u2) (\<lambda>(u3, willBeEnabled).
              let (u4, hostCommands) = save_hosts rows (u3, dels); u5 = save_ethers u4
              in res_bind (save_mismatches original p2 u5) (\<lambda>(u6, firewallCommands).
                   Inr (u6, join [LF] hostCommands @ [LF] @ getScriptCommands u6 original @ [LF]
                            @ join [LF] ether_host_commands @ [LF] @ join [LF] firewallCommands @ [LF]
                            @ [LF] @ ''/etc/init.d/dnsmasq restart ; '' @ [LF] @ ''/etc/init.d/odhcpd restart ; '' @ [LF]
                            @ ''sh /usr/lib/gargoyle/restart_firewall.sh'' @ [LF], willBeEnabled))))))"

datatype dhcp_result = DhcpRefused page | DhcpSent uci string bool

definition dhcp_saveChanges :: "dhcp_strings \<Rightarrow> string \<Rightarrow> uci \<Rightarrow> dhcp_state \<Rightarrow> dhcp_result js_result" where
  "dhcp_saveChanges ts dhcpSection uciOriginal st =
     res_bind (dhcp_proofreadAll ts uciOriginal (ds_page st)) (\<lambda>(p1, errorList).
       if errorList \<noteq> [] then Inr (DhcpRefused (report errorList ([LF, LF] @ d_ErrChanges ts) p1))
       else res_bind (save_dhcp dhcpSection uciOriginal (ds_rows st) p1) (\<lambda>(u, commands, enabled). Inr (DhcpSent u commands enabled)))"

section \<open>Loading\<close>

text \<open>
  \<open>("00000000" + hostid).slice(-8).replace(/([0-9a-f]{4})([0-9a-f]{4})/i, "::$1:$2")\<close>: of eight characters
  the pattern can match all or nothing.
\<close>

definition load_hostid :: "string \<Rightarrow> string" where
  "load_hostid hostid =
     (let digits = last_n 8 (''00000000'' @ hostid);
          ipv6 = (if hostid = [] then [] else if list_all hex_digit digits then ''::'' @ take 4 digits @ '':'' @ drop 4 digits else digits)
      in if validateIP6 ipv6 = 0 then ip6_canonical ipv6 else ''-'')"

definition load_host :: "(string \<Rightarrow> uci_val) \<Rightarrow> dhcp_row list \<Rightarrow> dhcp_row list js_result" where
  "load_host get rows =
     (if val_string (get ''mac'') = [] then Inr rows
      else res_bind (text_value (get ''name'')) (\<lambda>host. res_bind (text_value (get ''mac'')) (\<lambda>mac. res_bind (text_value (get ''ip'')) (\<lambda>ip.
           res_bind (if val_string (get ''duid'') = [] then Inr ''-'' else text_value (get ''duid'')) (\<lambda>duid.
             Inr (rows @ [\<lparr>dr_host = cell_text host, dr_mac = cell_text mac, dr_ip = cell_text ip,
                           dr_hostid = cell_text (load_hostid (val_string (get ''hostid''))), dr_duid = cell_text duid\<rparr>]))))))"

definition load_hosts :: "uci \<Rightarrow> dhcp_row list js_result" where
  "load_hosts u = fold_res load_host (readers ''dhcp'' (\<lambda>_. True) u ''host'') []"

definition show_option :: "uci \<Rightarrow> string \<Rightarrow> string \<Rightarrow> page \<Rightarrow> page js_result" where
  "show_option u i dflt p =
     upd_el i (put_value (let v = val_string (uci_get u ''dhcp'' ''lan'' i) in if v = [] then dflt else v)) p"

text \<open>
  \<open>resetData\<close> but for the fields of the pool (the lease time is divided in floating point) and the line with
  the IPv6 prefixes.
\<close>

definition dhcp_resetData :: "dhcp_strings \<Rightarrow> lan_info \<Rightarrow> uci \<Rightarrow> dhcp_state \<Rightarrow> dhcp_state js_result" where
  "dhcp_resetData ts lan u st =
     (let dhcpEnabled = (val_string (uci_get u ''dhcp'' ''lan'' ''ignore'') \<noteq> ''1'');
          defaults = first_section (getAllSectionsOfType u ''firewall'' ''defaults'')
      in res_bind (load_hosts u) (\<lambda>rows.
         res_bind (upd_el ''dhcp_enabled'' (\<lambda>e. e\<lparr>el_checked := dhcpEnabled\<rparr>) (ds_page st)) (\<lambda>p1.
         res_bind (setEnabled ts lan dhcpEnabled rows p1) (\<lambda>p2.
         res_bind (upd_el ''block_mismatches'' (\<lambda>e. e\<lparr>el_checked :=
            (val_string (uci_get u ''firewall'' defaults ''enforce_dhcp_assignments'') = ''1'')\<rparr>) p2) (\<lambda>p3.
         res_bind (show_option u ''dhcpv6'' ''disabled'' p3) (\<lambda>p4.
         res_bind (show_option u ''ra'' ''disabled'' p4) (\<lambda>p5.
         res_bind (show_option u ''ra_slaac'' ''0'' p5) (\<lambda>p6.
         res_bind (resetHostnameMacList ts lan rows p6) (\<lambda>p7.
           Inr (st\<lparr>ds_page := p7, ds_rows := rows\<rparr>))))))))))"

section \<open>Rows that clash\<close>

definition static_clash :: "dhcp_row \<Rightarrow> dhcp_row \<Rightarrow> bool" where
  "static_clash r s \<longleftrightarrow>
     \<not> is_blank (dr_host r) \<and> dr_host r = dr_host s \<or> dr_mac r = dr_mac s \<or> dr_ip r = dr_ip s
     \<or> dr_hostid r \<noteq> ''-'' \<and> dr_hostid r = dr_hostid s \<or> dr_duid r \<noteq> ''-'' \<and> dr_duid r = dr_duid s"

interpretation statics: conflict_table static_clash
  by unfold_locales (auto simp: static_clash_def)

text \<open>The form while the window with it is open: its fields are shown, and each holds one line.\<close>

definition static_form :: "page \<Rightarrow> bool" where
  "static_form p \<longleftrightarrow> (\<forall>i \<in> set static_ids. ready p i \<and> LF \<notin> set (val_at p i))"

lemma read_values_val: "read_values p ids = Inr vs \<Longrightarrow> vs = map (val_at p) ids"
  by (induction ids arbitrary: vs) (auto simp: res_bind_Inr_iff dest: get_el_val)

lemma static_accepted:
  assumes "proofreadStatic ts u ex st = Inr (p1, [])" "static_form (ds_page st)" "v = map (val_at (ds_page st)) static_ids"
  shows "read_values p1 static_ids = Inr v' \<Longrightarrow> v' = v"
    and "v ! 1 \<noteq> []" "v ! 2 \<noteq> []" "\<forall>s \<in> set (other_rows ex (ds_rows st)). row_errors ts v s = []"
proof -
  define p where "p = ds_page st"
  have docs: "ready p i" if "i \<in> set static_ids" for i using assms(2) that by (simp add: static_form_def p_def)
  have pr: "proofreadFields (d_prfErr ts) static_rows p = Inr (p1, [])"
    using assms(1) by (auto simp: proofreadStatic_def p_def res_bind_Inr_iff Let_def split: if_splits)
  have present: "\<forall>r \<in> set static_rows. row_present p r"
    using docs [THEN ready_doc] by (auto simp: static_rows_def static_ids_def intro!: own_row_facts(2))
  note checked = proofread_checked [OF pr present]
  have same: "map (val_at p1) static_ids = v"
    using same_fields_val [OF checked(1)] docs [THEN ready_doc] by (auto simp: assms(3) p_def)
  then show read: "v' = v" if "read_values p1 static_ids = Inr v'" for v' using read_values_val [OF that] by simp
  have "validateMac (val_at p ''add_mac'') = 0" "validateIP (val_at p ''add_ip'') = 0"
    using checked(2) [of "own_row ''add_mac'' ''add_mac_label'' validateMac"] checked(2) [of "own_row ''add_ip'' ''add_ip_label'' validateIP"]
      own_row_facts(1,3) docs [THEN ready_doc] docs by (auto simp: static_rows_def static_ids_def)
  moreover have "validateMac [] \<noteq> 0" "validateIP [] \<noteq> 0" by code_simp+
  ultimately show "v ! 1 \<noteq> []" "v ! 2 \<noteq> []" by (auto simp: assms(3) static_ids_def p_def)
  obtain v' where "read_values p1 static_ids = Inr v'" "concat (map (row_errors ts v') (other_rows ex (ds_rows st))) = []"
    using assms(1) pr by (auto simp: proofreadStatic_def p_def res_bind_Inr_iff Let_def split: if_splits)
  then show "\<forall>s \<in> set (other_rows ex (ds_rows st)). row_errors ts v s = []" using read by simp
qed

lemma static_clear:
  assumes "row_errors ts v s = []" "v ! 1 \<noteq> []" "v ! 2 \<noteq> []"
    and "dr_host r = dash (v ! 0)" "dr_mac r = v ! 1" "dr_ip r = v ! 2" "dr_hostid r = dash (v ! 3)" "dr_duid r = dash (v ! 4)"
  shows "\<not> static_clash r s"
proof -
  have "dr_host s = [] \<or> dr_host s = ''-'' \<or> dr_host s \<noteq> v ! 0" "dr_mac s \<noteq> v ! 1" "dr_ip s \<noteq> v ! 2"
      "dr_hostid s = ''-'' \<or> dr_hostid s \<noteq> v ! 3" "dr_duid s = ''-'' \<or> dr_duid s \<noteq> v ! 4"
    using assms(1) by (simp_all add: row_errors_def split: if_splits)
  then show ?thesis using assms(4-8) by (auto simp: static_clash_def dash_def is_blank_def split: if_splits)
qed

lemma static_row_line:
  assumes "\<forall>i < 5. LF \<notin> set (v ! i)" "v ! 1 \<noteq> []" "v ! 2 \<noteq> []"
  shows "static_row v = \<lparr>dr_host = dash (v ! 0), dr_mac = v ! 1, dr_ip = v ! 2, dr_hostid = dash (v ! 3), dr_duid = dash (v ! 4)\<rparr>"
proof -
  have "cell_text (dash (v ! i)) = dash (v ! i)" if "i < 5" for i
  proof -
    have "LF \<notin> set (dash (v ! i))" using assms(1) that by (auto simp: dash_def LF_def)
    then show ?thesis by (rule cell_line)
  qed
  then have "cell_text (dash (v ! 0)) = dash (v ! 0)" "cell_text (dash (v ! 1)) = dash (v ! 1)" "cell_text (dash (v ! 2)) = dash (v ! 2)"
      "cell_text (dash (v ! 3)) = dash (v ! 3)" "cell_text (dash (v ! 4)) = dash (v ! 4)" by simp_all
  moreover have "dash (v ! 1) = v ! 1" "dash (v ! 2) = v ! 2" using assms(2,3) by (simp_all add: dash_def)
  ultimately show ?thesis by (simp only: static_row_def)
qed

lemma addStatic_keeps:
  assumes "addStatic ts lan u st = Inr st'" "static_form (ds_page st)" "statics.conflict_free (ds_rows st)"
  shows "statics.conflict_free (ds_rows st')"
proof -
  obtain p1 errors where pe: "proofreadStatic ts u None st = Inr (p1, errors)"
    using assms(1) by (auto simp: addStatic_def res_bind_Inr_iff)
  show ?thesis
  proof (cases "errors = []")
    case False
    then show ?thesis using assms(1,3) pe by (auto simp: addStatic_def)
  next
    case True
    define v where "v = map (val_at (ds_page st)) static_ids"
    note acc = static_accepted [OF pe [unfolded True] assms(2) v_def, unfolded other_rows_eq]
    have rows: "ds_rows st' = ds_rows st @ [static_row v]"
      using assms(1) pe True acc(1) by (auto simp: addStatic_def res_bind_Inr_iff Let_def)
    have "\<forall>i < 5. LF \<notin> set (v ! i)" using assms(2) by (auto simp: v_def static_form_def static_ids_def less_Suc_eq eval_nat_numeral)
    note row = static_row_line [OF this acc(2,3)]
    have "statics.clear_of (static_row v) (ds_rows st)"
      using static_clear [OF _ acc(2,3)] acc(4) by (auto simp: statics.clear_of_def row)
    then show ?thesis using statics.conflict_free_insert [of "ds_rows st" "[]"] assms(3) rows by simp
  qed
qed

lemma editStatic_keeps:
  assumes "editStatic ts lan u i st = Inr st'" "i < length (ds_rows st)" "static_form (ds_page st)" "statics.conflict_free (ds_rows st)"
  shows "statics.conflict_free (ds_rows st')"
proof -
  obtain p1 errors where pe: "proofreadStatic ts u (Some i) st = Inr (p1, errors)"
    using assms(1) by (auto simp: editStatic_def res_bind_Inr_iff)
  show ?thesis
  proof (cases "errors = []")
    case False
    then show ?thesis using assms(1,4) pe by (auto simp: editStatic_def)
  next
    case True
    define v where "v = map (val_at (ds_page st)) static_ids"
    define r where "r = \<lparr>dr_host = dash (v ! 0), dr_mac = v ! 1, dr_ip = v ! 2, dr_hostid = dash (v ! 3), dr_duid = dash (v ! 4)\<rparr>"
    note acc = static_accepted [OF pe [unfolded True] assms(3) v_def, unfolded other_rows_eq(2) [OF assms(2)]]
    have "ds_rows st' = (ds_rows st)[i := r]"
      using assms(1) pe True acc(1) by (auto simp: editStatic_def res_bind_Inr_iff Let_def r_def)
    moreover have "statics.clear_of r (take i (ds_rows st) @ drop (Suc i) (ds_rows st))"
      unfolding statics.clear_of_def using static_clear [OF _ acc(2,3)] acc(4) by (metis r_def dhcp_row.select_convs)
    ultimately show ?thesis using statics.conflict_free_update [OF assms(4,2)] by simp
  qed
qed

text \<open>A user may fill in the form, press a button, and remove a row.\<close>

inductive dhcp_step :: "dhcp_strings \<Rightarrow> lan_info \<Rightarrow> uci \<Rightarrow> dhcp_state \<Rightarrow> dhcp_state \<Rightarrow> bool" for ts lan u where
  fill_in: "dhcp_step ts lan u st (st\<lparr>ds_page := p\<rparr>)"
| add_row: "static_form (ds_page st) \<Longrightarrow> addStatic ts lan u st = Inr st' \<Longrightarrow> dhcp_step ts lan u st st'"
| edit_row: "static_form (ds_page st) \<Longrightarrow> i < length (ds_rows st) \<Longrightarrow> editStatic ts lan u i st = Inr st' \<Longrightarrow> dhcp_step ts lan u st st'"
| remove_row: "removeStaticIp ts lan i st = Inr st' \<Longrightarrow> dhcp_step ts lan u st st'"

lemma removeStaticIp_keeps:
  assumes "removeStaticIp ts lan i st = Inr st'" "statics.conflict_free (ds_rows st)"
  shows "statics.conflict_free (ds_rows st')"
proof -
  have "ds_rows st' = take i (ds_rows st) @ drop (Suc i) (ds_rows st)"
    using assms(1) by (auto simp: removeStaticIp_def res_bind_Inr_iff Let_def)
  then show ?thesis using statics.conflict_free_remove [OF assms(2)] by simp
qed

lemma dhcp_step_keeps:
  assumes "dhcp_step ts lan u st st'" "statics.conflict_free (ds_rows st)"
  shows "statics.conflict_free (ds_rows st')"
  using assms by (cases rule: dhcp_step.cases) (auto intro: addStatic_keeps editStatic_keeps removeStaticIp_keeps)

text \<open>
  C11. Whatever a user does with the table of static addresses, adding, editing and removing rows in any order:
  if it begins without clashes, no two rows of it ever have the same hardware address, address, host name,
  IPv6 suffix or client identifier as they are spelled (blank ones apart). The comparison is of texts: the
  same hardware address with a letter in the other case counts as another one.
\<close>

theorem dhcp_session_unique:
  assumes "(dhcp_step ts lan u)\<^sup>*\<^sup>* st st'" "statics.conflict_free (ds_rows st)"
    and "i < length (ds_rows st')" "j < length (ds_rows st')" "i \<noteq> j"
  shows "\<not> static_clash (ds_rows st' ! i) (ds_rows st' ! j)"
proof -
  have "statics.conflict_free (ds_rows st')"
    using assms(1,2) by (induction rule: rtranclp_induct) (auto intro: dhcp_step_keeps)
  then have "sorted_wrt (\<lambda>r s. \<not> static_clash r s) (ds_rows st')" by (simp add: statics.conflict_free_def)
  then show ?thesis using assms(3-5) statics.clash_sym unfolding sorted_wrt_iff_nth_less by (metis linorder_neqE_nat)
qed

section \<open>Suffixes of IPv6 addresses\<close>

text \<open>The canonical spelling of an address whose first six groups are zero.\<close>

definition ip6_suffix :: "nat \<Rightarrow> nat \<Rightarrow> string" where
  "ip6_suffix a b = ip6_canonical (full_addr [0, 0, 0, 0, 0, 0, a, b])"

lemma compress_suffix:
  assumes "A \<noteq> ''0''" "B \<noteq> ''0''"
  shows "compress_zeros [''0'', ''0'', ''0'', ''0'', ''0'', ''0'', A, B] = [[], A, B]"
    "compress_zeros [''0'', ''0'', ''0'', ''0'', ''0'', ''0'', A, ''0''] = [[], A, ''0'']"
    "compress_zeros [''0'', ''0'', ''0'', ''0'', ''0'', ''0'', ''0'', B] = [[], B]"
  using assms by (simp_all add: compress_zeros_def zero_counts_def zero_step_def upt_rec [of _ "Suc _"] upt_rec [of _ "numeral _"] Let_def max_def)

lemma hex_zero: "num_str 16 g = ''0'' \<longleftrightarrow> g = 0" "num_str 16 0 = ''0''"
proof -
  show z: "num_str 16 0 = ''0''" by code_simp
  show "num_str 16 g = ''0'' \<longleftrightarrow> g = 0" using num_str_hd [of 16 g] z by (cases "g = 0") auto
qed

lemma suffix_split:
  assumes "a < 2 ^ 16" "b < 2 ^ 16" "a \<noteq> 0 \<or> b \<noteq> 0"
  shows "split_on CHR '':'' (ip6_suffix a b) = [] # [] # (if a = 0 then [num_str 16 b] else [num_str 16 a, num_str 16 b])"
proof -
  let ?cs = "[] # [] # (if a = 0 then [num_str 16 b] else [num_str 16 a, num_str 16 b])"
  have "groups_ok [0, 0, 0, 0, 0, 0, a, b]" using assms(1,2) by (simp add: groups_ok_def)
  note canonical = ip6_canonical_full_addr [OF this]
  have "compress_zeros (map (num_str 16) [0, 0, 0, 0, 0, 0, a, b]) = tl ?cs"
    using assms(3) compress_suffix(1) [of "num_str 16 a" "num_str 16 b"] compress_suffix(2) [of "num_str 16 a" "''1''"]
      compress_suffix(3) [of "''1''" "num_str 16 b"] by (cases "a = 0"; cases "b = 0") (simp_all add: hex_zero)
  then have "ip6_suffix a b = colon_join ?cs" by (simp add: ip6_suffix_def canonical outer_colons_def)
  moreover have "\<forall>x \<in> set ?cs. CHR '':'' \<notin> set x" using plain_hex(1) plain_group_free by auto
  ultimately show ?thesis using split_join_colon [of ?cs] by simp
qed

lemma padded_digits:
  assumes "a < 2 ^ 16" "b < 2 ^ 16"
  shows "last_n 8 (''00000000'' @ num_str 16 a @ hex4 b) = hex4 a @ hex4 b" "last_n 8 (''00000000'' @ num_str 16 b) = hex4 0 @ hex4 b"
proof -
  have z: "''00000000'' = replicate 8 CHR ''0''" by (simp add: numeral_eq_Suc)
  have "8 - length (num_str 16 b) = 4 + (4 - length (num_str 16 b))" using hex_str_length [OF assms(2)] by simp
  then have r: "replicate (8 - length (num_str 16 b)) c = replicate 4 c @ replicate (4 - length (num_str 16 b)) c" for c :: char
    by (simp only: replicate_add)
  have h0: "hex4 0 = replicate 4 CHR ''0''" by (simp add: hex4_def hex_zero padStart_def numeral_eq_Suc)
  show "last_n 8 (''00000000'' @ num_str 16 a @ hex4 b) = hex4 a @ hex4 b"
    unfolding z using hex4_length [OF assms(2)] hex_str_length [OF assms(1)] by (simp add: last_n_def hex4_def [of a] padStart_def)
  show "last_n 8 (''00000000'' @ num_str 16 b) = hex4 0 @ hex4 b"
    unfolding z h0 using r [of "CHR ''0''"] hex_str_length [OF assms(2)] by (simp add: last_n_def hex4_def [of b] padStart_def)
qed

lemma save_hostid_suffix:
  assumes "a < 2 ^ 16" "b < 2 ^ 16" "a \<noteq> 0 \<or> b \<noteq> 0"
  shows "save_hostid (ip6_suffix a b) = (if a = 0 then num_str 16 b else num_str 16 a @ hex4 b)"
  using last_n_zeros [OF hex_str_length [OF assms(2)]]
  by (simp add: save_hostid_def suffix_split [OF assms] hex4_def)

lemma canonical_of_full: "groups_ok gs \<Longrightarrow> ip6_full s = full_addr gs \<Longrightarrow> ip6_canonical s = ip6_canonical (full_addr gs)"
  by (simp add: ip6_canonical_def ip6_full_full_addr)

lemma two_groups:
  assumes "a < 2 ^ 16" "b < 2 ^ 16"
  shows "validateIP6 (''::'' @ hex4 a @ '':'' @ hex4 b) = 0" "ip6_canonical (''::'' @ hex4 a @ '':'' @ hex4 b) = ip6_suffix a b"
proof -
  have g: "groups_ok [0, 0, 0, 0, 0, 0, a, b]" using assms by (simp add: groups_ok_def)
  have h: "list_all group_text [hex4 a, hex4 b]"
    using hex4_length [OF assms(1)] hex4_length [OF assms(2)] plain_hex(2) by (simp add: group_text_def plain_group_def)
  have s: "''::'' @ hex4 a @ '':'' @ hex4 b = colon_join (outer_colons ([] @ [] # [hex4 a, hex4 b]))" by (simp add: outer_colons_def)
  have "\<forall>x \<in> set [[], [], hex4 a, hex4 b]. CHR '':'' \<notin> set x" using plain_hex(2) plain_group_free by auto
  then have "colon_split (''::'' @ hex4 a @ '':'' @ hex4 b) = [[], [], hex4 a, hex4 b]"
    using split_join_colon [of "[[], [], hex4 a, hex4 b]"] by simp
  then show "validateIP6 (''::'' @ hex4 a @ '':'' @ hex4 b) = 0"
    unfolding validateIP6_iff ip6_text_def ip6_components_def using h by (intro disjI2 exI [of _ "[]"] exI [of _ "[hex4 a, hex4 b]"]) simp
  have "hex4 0 = ''0000''" by (simp add: hex4_def hex_zero padStart_def numeral_eq_Suc)
  then have "ip6_full (''::'' @ hex4 a @ '':'' @ hex4 b) = full_addr [0, 0, 0, 0, 0, 0, a, b]"
    using full_of_short [of "[]" "[hex4 a, hex4 b]"] h full_group_hex(2) [OF assms(1)] full_group_hex(2) [OF assms(2)]
    unfolding s by (simp add: full_addr_def numeral_eq_Suc)
  from canonical_of_full [OF g this] show "ip6_canonical (''::'' @ hex4 a @ '':'' @ hex4 b) = ip6_suffix a b" by (simp add: ip6_suffix_def)
qed

lemma hostid_restored:
  assumes "a < 2 ^ 16" "b < 2 ^ 16" "a \<noteq> 0 \<or> b \<noteq> 0"
  shows "load_hostid (save_hostid (ip6_suffix a b)) = ip6_suffix a b"
proof -
  let ?h = "save_hostid (ip6_suffix a b)"
  have "?h \<noteq> []" "last_n 8 (''00000000'' @ ?h) = hex4 a @ hex4 b"
    using padded_digits [OF assms(1,2)] by (simp_all add: save_hostid_suffix [OF assms])
  moreover have "list_all hex_digit (hex4 a @ hex4 b)" using hex4_digits by (auto simp: list_all_iff)
  moreover have "take 4 (hex4 a @ hex4 b) = hex4 a" "drop 4 (hex4 a @ hex4 b) = hex4 b" using hex4_length [OF assms(1)] by simp_all
  ultimately show ?thesis using two_groups [OF assms(1,2)] by (simp add: load_hostid_def)
qed

section \<open>What saving does to the hosts\<close>

interpretation dh: uci_package "''dhcp''"
  by unfold_locales (simp add: name_ok_def)

definition is_host_name :: "string \<Rightarrow> bool" where
  "is_host_name i \<longleftrightarrow> prefix ''static_host_'' i"

text \<open>The sections whose names the page uses for hosts are hosts.\<close>

definition hosts_reserved :: "uci \<Rightarrow> bool" where
  "hosts_reserved u \<longleftrightarrow> list_all (\<lambda>k. case split_on CHR ''.'' k of
       pkg # i # _ \<Rightarrow> pkg = ''dhcp'' \<and> is_host_name i \<longrightarrow> i \<in> set (getAllSectionsOfType u ''dhcp'' ''host'')
     | _ \<Rightarrow> True) (ukeys u)"

definition dhcp_config_ok :: "uci \<Rightarrow> bool" where
  "dhcp_config_ok u \<longleftrightarrow> uci_wf u \<and> keys_wf u \<and> pkg_isolated u ''dhcp'' \<and> hosts_reserved u"

text \<open>The container after some hosts are written, with the names from \<open>k\<close> on still free.\<close>

definition hosts_written :: "dhcp_row list \<Rightarrow> nat \<Rightarrow> uci \<Rightarrow> bool" where
  "hosts_written rs k u \<longleftrightarrow> uci_wf u \<and> pkg_isolated u ''dhcp''
     \<and> readers ''dhcp'' (\<lambda>_. True) u ''host'' = map (\<lambda>r. reader_of ''host'' (host_options r)) rs
     \<and> (\<forall>j \<ge> k. sec_fresh ''dhcp'' u (host_section j))"

lemma host_section_ok: "name_ok (host_section k)" "is_host_name (host_section k)" "host_section j = host_section k \<longleftrightarrow> j = k"
proof -
  show "name_ok (host_section k)" "is_host_name (host_section k)" by (auto simp: host_section_def name_ok_def is_host_name_def)
  have "dec_str (j + 1) = dec_str (k + 1) \<longleftrightarrow> j + 1 = k + 1" by (metis js_number_dec_str option.inject)
  then show "host_section j = host_section k \<longleftrightarrow> j = k" by (simp add: host_section_def)
qed

lemma hosts_removed:
  assumes "dhcp_config_ok u"
  shows "uci_wf (fst (remove_hosts u))" "keys_wf (fst (remove_hosts u))" "hosts_written [] 0 (fst (remove_hosts u))"
proof -
  let ?w = "fst (remove_hosts u)" and ?is = "rev (getAllSectionsOfType u ''dhcp'' ''host'')"
  have u: "uci_wf u" "keys_wf u" "pkg_isolated u ''dhcp''" "hosts_reserved u" using assms by (auto simp: dhcp_config_ok_def)
  have "?w = fold (removeSection ''dhcp'') ?is u" by (simp add: remove_hosts_def Let_def)
  note removed = dh.removed_type [OF u(1-3) _ this, of "''host''", simplified]
  show "uci_wf ?w" "keys_wf ?w" using removed(1,2) .
  have "host_section j \<in> set ?is \<or> sec_fresh ''dhcp'' u (host_section j)" for j
  proof (rule disjCI)
    assume "\<not> sec_fresh ''dhcp'' u (host_section j)"
    then obtain opt where "uci_key ''dhcp'' (host_section j) opt \<in> set (ukeys u)" using u(1) by (auto simp: sec_fresh_def uci_wf_def)
    moreover obtain rest where "split_on CHR ''.'' (uci_key ''dhcp'' (host_section j) opt) = ''dhcp'' # host_section j # rest"
      using dh.key_split [OF host_section_ok(1)] by blast
    ultimately show "host_section j \<in> set ?is" using u(4) host_section_ok(2) [of j] by (fastforce simp: hosts_reserved_def list_all_iff)
  qed
  then show "hosts_written [] 0 ?w" using removed by (simp add: hosts_written_def readers_def)
qed

lemma hosts_option:
  assumes "hosts_written [] k u" "name_ok s" "\<not> is_host_name s" "name_ok opt"
  shows "hosts_written [] k (uci_set ''dhcp'' s opt v False u)" "hosts_written [] k (fst (uci_remove ''dhcp'' s opt u))"
proof -
  have u: "uci_wf u" "pkg_isolated u ''dhcp''" "getAllSectionsOfType u ''dhcp'' ''host'' = []" using assms(1) by (auto simp: hosts_written_def readers_def)
  have other: "host_section j \<noteq> s" for j using host_section_ok(2) assms(3) by metis
  note frame = dh.option_frame [OF dh.pkg_ok assms(2,4)]
  show "hosts_written [] k (uci_set ''dhcp'' s opt v False u)"
    using frame [OF set_option_changes [OF u(1)]] u other assms(1) host_section_ok(1) by (auto simp: hosts_written_def readers_def)
  show "hosts_written [] k (fst (uci_remove ''dhcp'' s opt u))"
    using frame [OF remove_option_changes [OF u(1)]] u other assms(1) host_section_ok(1) by (auto simp: hosts_written_def readers_def)
qed

lemma host_options_ok: "options_ok (host_options r)"
  by (auto simp: options_ok_def host_options_def name_ok_def)

lemma save_hosts_effect:
  assumes "hosts_written rs k u"
  shows "hosts_written (rs @ filter (\<lambda>r. \<not> is_blank (dr_mac r)) rows) (k + length rows) (fst (fold save_host (enumerate k rows) (u, cmds)))"
  using assms
proof (induction rows arbitrary: rs k u cmds)
  case Nil
  then show ?case by simp
next
  case (Cons r rows)
  show ?case
  proof (cases "is_blank (dr_mac r)")
    case True
    have "hosts_written rs (Suc k) u" using Cons.prems by (simp add: hosts_written_def)
    from Cons.IH [OF this] show ?thesis by (simp add: True save_host_def)
  next
    case False
    let ?w = "write_section ''dhcp'' (host_section k) ''host'' (host_options r) u"
    have u: "uci_wf u" "sec_fresh ''dhcp'' u (host_section k)" "pkg_isolated u ''dhcp''" using Cons.prems by (auto simp: hosts_written_def)
    note new = u(1,2) host_section_ok(1) host_options_ok
    have "readers ''dhcp'' (\<lambda>_. True) ?w ''host'' = readers ''dhcp'' (\<lambda>_. True) u ''host'' @ [reader_of ''host'' (host_options r)]"
      by (simp add: dh.readers_write [OF u(1,3,2) host_section_ok(1) host_options_ok])
    moreover have "sec_fresh ''dhcp'' ?w (host_section j)" if "Suc k \<le> j" for j
      using dh.write_section_fresh [OF new host_section_ok(1), of j] that host_section_ok(3) Cons.prems by (simp add: hosts_written_def)
    ultimately have "hosts_written (rs @ [r]) (Suc k) ?w"
      using Cons.prems dh.write_section_wf [OF u(1)] dh.write_section_isolated [OF new u(3)] by (simp add: hosts_written_def)
    from Cons.IH [OF this] show ?thesis by (simp add: False save_host_def)
  qed
qed

lemma pool_saved:
  assumes "hosts_written [] k u" "name_ok s" "\<not> is_host_name s" "ready p ''dhcp_start''" "ready p ''dhcp_end''" "ready p ''dhcp_lease''"
  shows "\<exists>p2 u2. save_pool s (p, u) = Inr (p2, u2) \<and> doc p2 = doc p \<and> hosts_written [] k u2"
proof -
  obtain a b c where els: "doc p ''dhcp_start'' = Some a" "doc p ''dhcp_end'' = Some b" "doc p ''dhcp_lease'' = Some c"
      "el_display a \<noteq> ''none''" "el_display b \<noteq> ''none''" "el_display c \<noteq> ''none''"
    using assms(4-6) by (auto simp: ready_def)
  have opts: "name_ok ''start''" "name_ok ''limit''" "name_ok ''leasetime''" by (simp_all add: name_ok_def)
  define f where "f opt cond v u' = (if cond then uci_set ''dhcp'' s opt (Str v) False u' else u')" for opt v u' and cond :: bool
  have keep: "hosts_written [] k (f opt cond v u')" if "hosts_written [] k u'" "name_ok opt" for opt cond v u'
    using hosts_option(1) [OF that(1) assms(2,3) that(2)] that(1) by (simp add: f_def)
  have "\<exists>q. save_pool s (p, u) = Inr (q, f ''leasetime'' (get_value c \<noteq> []) (get_value c @ ''h'')
      (f ''limit'' (get_value a \<noteq> []) (pool_limit [get_value a, get_value b]) (f ''start'' (get_value a \<noteq> []) (get_value a) u))) \<and> doc q = doc p"
    by (simp add: save_pool_def setVariables_def setVariableFromValue_def setVariableFromCombined_def setVariableFromModifiedValue_def
        pool_field_def vis_shown_def get_el_def els field_set_def f_def Let_def)
  then show ?thesis using keep [OF keep [OF keep [OF assms(1) opts(1)] opts(2)] opts(3)] by blast
qed

lemma server_saved:
  assumes "hosts_written [] k u" "\<forall>i \<in> {''dhcp_enabled'', ''dhcpv6'', ''ra'', ''ra_slaac''}. doc p i \<noteq> None"
  shows "\<exists>u2 enabled. save_server p u = Inr (u2, enabled) \<and> hosts_written [] k u2"
proof -
  have lan: "name_ok ''lan''" "\<not> is_host_name ''lan''" by (simp_all add: name_ok_def is_host_name_def)
  have opts: "name_ok ''ignore''" "name_ok ''dhcpv6''" "name_ok ''ra''" "name_ok ''ra_slaac''" by (simp_all add: name_ok_def)
  have set: "hosts_written [] k (set_lan opt v u')" if "hosts_written [] k u'" "name_ok opt" for opt v u'
    unfolding set_lan_def using hosts_option(1) [OF that(1) lan that(2)] .
  have all: "hosts_written [] k (set_lan ''ra_slaac'' x (set_lan ''ra'' y (set_lan ''dhcpv6'' z u')))" if "hosts_written [] k u'" for x y z u'
    using set [OF set [OF set [OF that opts(2)] opts(3)] opts(4)] .
  obtain e a b c where "get_el p ''dhcp_enabled'' = Inr e" "get_el p ''dhcpv6'' = Inr a" "get_el p ''ra'' = Inr b" "get_el p ''ra_slaac'' = Inr c"
    using assms(2) by (auto simp: get_el_def)
  then show ?thesis
    using all [OF hosts_option(2) [OF assms(1) lan opts(1)]] all [OF set [OF assms(1) opts(1)]]
    by (cases "el_checked e") (auto simp: save_server_def field_text_def)
qed

lemma ethers_saved:
  assumes "hosts_written rs k u"
  shows "uci_wf (save_ethers u)" "pkg_isolated (save_ethers u) ''dhcp''"
    "readers ''dhcp'' (\<lambda>_. True) (save_ethers u) ''host'' = readers ''dhcp'' (\<lambda>_. True) u ''host''"
proof -
  have u: "uci_wf u" "pkg_isolated u ''dhcp''" using assms by (auto simp: hosts_written_def)
  have "uci_wf (save_ethers u) \<and> pkg_isolated (save_ethers u) ''dhcp''
    \<and> readers ''dhcp'' (\<lambda>_. True) (save_ethers u) ''host'' = readers ''dhcp'' (\<lambda>_. True) u ''host''"
  proof (cases "getAllSectionsOfType u ''dhcp'' ''dnsmasq''")
    case Nil
    then show ?thesis using u by (simp add: save_ethers_def)
  next
    case (Cons s ss)
    have type: "i \<in> set (getAllSectionsOfType u ''dhcp'' ty) \<Longrightarrow> name_ok i \<and> map_option val_string (uvals u (uci_key ''dhcp'' i [])) = Some ty" for i ty
      using dh.listed_in_package [OF u(2)] by simp
    have s: "name_ok s" "map_option val_string (uvals u (uci_key ''dhcp'' s [])) = Some ''dnsmasq''" using type [of s "''dnsmasq''"] Cons by simp_all
    then have "\<forall>i \<in> set (getAllSectionsOfType u ''dhcp'' ''host''). i \<noteq> s" using type [of _ "''host''"] by fastforce
    moreover have "name_ok ''readethers''" by (simp add: name_ok_def)
    ultimately show ?thesis
      using dh.option_frame(2,4) [OF dh.pkg_ok s(1) _ set_option_changes [OF u(1)] u(2)] u uci_wf_set
      by (auto simp: save_ethers_def Cons)
  qed
  then show "uci_wf (save_ethers u)" "pkg_isolated (save_ethers u) ''dhcp''"
    "readers ''dhcp'' (\<lambda>_. True) (save_ethers u) ''host'' = readers ''dhcp'' (\<lambda>_. True) u ''host''" by blast+
qed

lemma first_section_ok: "name_ok (first_section (getAllSectionsOfType u pkg ty))"
proof (cases "getAllSectionsOfType u pkg ty")
  case Nil
  then show ?thesis by (simp add: first_section_def name_ok_def)
next
  case (Cons s ss)
  then have "s \<in> set (getAllSectionsOfType u pkg ty)" by simp
  then have "name_ok s" unfolding getAllSectionsOfType_def set_map_filter_iff by (auto simp: match_section_key_Some split: if_splits option.splits)
  then show ?thesis by (simp add: first_section_def Cons)
qed

lemma mismatches_saved:
  assumes "uci_wf u" "pkg_isolated u ''dhcp''" "doc p ''block_mismatches'' \<noteq> None"
  shows "\<exists>u2 cmds. save_mismatches original p u = Inr (u2, cmds)
    \<and> readers ''dhcp'' (\<lambda>_. True) u2 ''host'' = readers ''dhcp'' (\<lambda>_. True) u ''host''"
proof -
  obtain e where "get_el p ''block_mismatches'' = Inr e" using assms(3) by (auto simp: get_el_def)
  moreover have "name_ok ''firewall''" "name_ok ''enforce_dhcp_assignments''" by (simp_all add: name_ok_def)
  moreover note dh.option_frame(2) [OF \<open>name_ok ''firewall''\<close> first_section_ok \<open>name_ok ''enforce_dhcp_assignments''\<close> set_option_changes [OF assms(1)] assms(2)]
    dh.option_frame(2) [OF \<open>name_ok ''firewall''\<close> first_section_ok \<open>name_ok ''enforce_dhcp_assignments''\<close> remove_option_changes [OF assms(1)] assms(2)]
  ultimately show ?thesis by (simp add: save_mismatches_def Let_def)
qed

text \<open>
  A row that can be saved: single lines, an IPv6 suffix in its canonical spelling, and an identifier that
  is not empty. A blank host name is loaded as an empty text.
\<close>

definition row_saved :: "dhcp_row \<Rightarrow> bool" where
  "row_saved r \<longleftrightarrow> LF \<notin> set (dr_host r) \<and> LF \<notin> set (dr_mac r) \<and> LF \<notin> set (dr_ip r) \<and> LF \<notin> set (dr_duid r) \<and> dr_duid r \<noteq> []
     \<and> (dr_hostid r = ''-'' \<or> (\<exists>a < 2 ^ 16. \<exists>b < 2 ^ 16. (a \<noteq> 0 \<or> b \<noteq> 0) \<and> dr_hostid r = ip6_suffix a b))"

definition row_loaded :: "dhcp_row \<Rightarrow> dhcp_row" where
  "row_loaded r = (if is_blank (dr_host r) then r\<lparr>dr_host := []\<rparr> else r)"

lemma suffix_facts:
  assumes "a < 2 ^ 16" "b < 2 ^ 16" "a \<noteq> 0 \<or> b \<noteq> 0"
  shows "save_hostid (ip6_suffix a b) \<noteq> []" "ip6_suffix a b \<noteq> ''-''" "cell_text (ip6_suffix a b) = ip6_suffix a b"
proof -
  show "save_hostid (ip6_suffix a b) \<noteq> []" by (simp add: save_hostid_suffix [OF assms])
  show "ip6_suffix a b \<noteq> ''-''" using suffix_split [OF assms] by auto
  have "ip6_suffix a b = colon_join ([] # [] # (if a = 0 then [num_str 16 b] else [num_str 16 a, num_str 16 b]))"
    using join_split_on [of "CHR '':''" "ip6_suffix a b"] by (simp only: suffix_split [OF assms])
  moreover have "\<not> hex_digit LF" by code_simp
  then have "LF \<notin> set (num_str 16 g)" for g using hex_str_digits by blast
  moreover have "LF \<noteq> CHR '':''" by (simp add: LF_def)
  ultimately have "LF \<notin> set (ip6_suffix a b)" by (cases "a = 0") (simp_all add: join_Cons)
  then show "cell_text (ip6_suffix a b) = ip6_suffix a b" by (rule cell_line)
qed

lemma load_hostid_blank: "load_hostid [] = ''-''"
proof -
  have "validateIP6 [] \<noteq> 0" by code_simp
  then show ?thesis by (simp add: load_hostid_def)
qed

lemma host_read:
  assumes "row_saved r" "\<not> is_blank (dr_mac r)"
  shows "load_host (reader_of ''host'' (host_options r)) rows = Inr (rows @ [row_loaded r])"
proof -
  let ?get = "reader_of ''host'' (host_options r)"
  have line: "cell_text (dr_host r) = dr_host r" "cell_text (dr_mac r) = dr_mac r" "cell_text (dr_ip r) = dr_ip r" "cell_text (dr_duid r) = dr_duid r"
    using assms(1) by (auto simp: row_saved_def cell_line)
  have blank: "cell_text [] = []" "cell_text ''-'' = ''-''" by (simp_all add: cell_text_def LF_def)
  have get: "?get ''name'' = Str (if is_blank (dr_host r) then [] else dr_host r)" "?get ''mac'' = Str (dr_mac r)" "?get ''ip'' = Str (dr_ip r)"
      "?get ''hostid'' = Str (if dr_hostid r = ''-'' then [] else save_hostid (dr_hostid r))"
      "?get ''duid'' = Str (if dr_duid r = ''-'' then [] else dr_duid r)"
    by (simp_all add: reader_of_def host_options_def)
  have hostid: "cell_text (load_hostid (if dr_hostid r = ''-'' then [] else save_hostid (dr_hostid r))) = dr_hostid r"
    using assms(1) hostid_restored suffix_facts(2,3) by (auto simp: row_saved_def load_hostid_blank blank)
  have "dr_mac r \<noteq> []" "dr_duid r \<noteq> []" using assms by (auto simp: is_blank_def row_saved_def)
  then show ?thesis
    by (cases "is_blank (dr_host r)"; cases "dr_duid r = ''-''")
      (simp_all add: load_host_def get text_value_def line blank hostid row_loaded_def)
qed

lemma hosts_read:
  assumes "\<forall>r \<in> set rs. row_saved r \<and> \<not> is_blank (dr_mac r)"
  shows "fold_res load_host (map (\<lambda>r. reader_of ''host'' (host_options r)) rs) rows = Inr (rows @ map row_loaded rs)"
  using assms by (induction rs arbitrary: rows) (simp_all add: host_read)

text \<open>What the page needs to be saved: its fields, those of the pool shown.\<close>

definition dhcp_page_ok :: "page \<Rightarrow> bool" where
  "dhcp_page_ok p \<longleftrightarrow> list_all (ready p) [''dhcp_start'', ''dhcp_end'', ''dhcp_lease'']
     \<and> list_all (\<lambda>i. doc p i \<noteq> None) [''dhcp_enabled'', ''dhcpv6'', ''ra'', ''ra_slaac'', ''block_mismatches'']"

text \<open>
  C10. Saving and loading the table of static addresses. When the sections that have the page's names are
  those of hosts, the texts of the rows are single lines, and their IPv6 suffixes are canonical, then
  saving succeeds, with the server enabled or not, and loading what was saved gives the rows back in
  their order: all that have a hardware address, their suffixes as they were.
\<close>

theorem static_hosts_survive:
  assumes "dhcp_config_ok original" "name_ok dhcpSection" "\<not> is_host_name dhcpSection" "list_all row_saved rows" "dhcp_page_ok p"
  shows "\<exists>u commands enabled. save_dhcp dhcpSection original rows p = Inr (u, commands, enabled)
    \<and> load_hosts u = Inr (map row_loaded (filter (\<lambda>r. \<not> is_blank (dr_mac r)) rows))"
proof -
  let ?rs = "filter (\<lambda>r. \<not> is_blank (dr_mac r)) rows"
  obtain u0 dels where u0: "remove_hosts original = (u0, dels)" by (cases "remove_hosts original")
  let ?u1 = "uci_set ''dhcp'' dhcpSection ''interface'' (Str ''lan'') False (fst (uci_remove ''dhcp'' dhcpSection ''ignore'' u0))"
  have opts: "name_ok ''ignore''" "name_ok ''interface''" by (simp_all add: name_ok_def)
  have clone: "uci_clone u0 = Inr u0" and clear: "hosts_written [] 0 u0"
    using hosts_removed [OF assms(1)] clone_identity by (simp_all add: u0)
  have "hosts_written [] 0 ?u1" using hosts_option(1) [OF hosts_option(2) [OF clear assms(2,3) opts(1)] assms(2,3) opts(2)] .
  then obtain p2 u2 where u2: "save_pool dhcpSection (p, ?u1) = Inr (p2, u2)" "doc p2 = doc p" "hosts_written [] 0 u2"
    using pool_saved [OF _ assms(2,3), of 0 ?u1 p] assms(5) by (auto simp: dhcp_page_ok_def)
  then obtain u3 enabled where u3: "save_server p2 u2 = Inr (u3, enabled)" "hosts_written [] 0 u3"
    using server_saved [OF u2(3), of p2] assms(5) by (auto simp: dhcp_page_ok_def)
  obtain u4 cmds where u4: "save_hosts rows (u3, dels) = (u4, cmds)" by (cases "save_hosts rows (u3, dels)")
  then have hosts: "hosts_written ?rs (length rows) u4" using save_hosts_effect [OF u3(2), of rows dels] by (simp add: save_hosts_def)
  note ethers = ethers_saved [OF hosts]
  obtain u6 fcmds where u6: "save_mismatches u0 p2 (save_ethers u4) = Inr (u6, fcmds)"
      "readers ''dhcp'' (\<lambda>_. True) u6 ''host'' = readers ''dhcp'' (\<lambda>_. True) (save_ethers u4) ''host''"
    using mismatches_saved [OF ethers(1,2), of p2 u0] assms(5) u2(2) by (auto simp: dhcp_page_ok_def)
  have "load_hosts u6 = Inr (map row_loaded ?rs)"
    using hosts_read [of ?rs "[]"] hosts assms(4) by (simp add: load_hosts_def u6(2) ethers(3) hosts_written_def list_all_iff)
  moreover have "\<exists>commands. save_dhcp dhcpSection original rows p = Inr (u6, commands, enabled)"
    by (simp add: save_dhcp_def u0 clone u2(1) u3(1) u4 u6(1) Let_def)
  ultimately show ?thesis by blast
qed

section \<open>What the checks accept\<close>

lemma read_values_defined: "\<forall>i \<in> set ids. doc p i \<noteq> None \<Longrightarrow> read_values p ids = Inr (map (val_at p) ids)"
  by (induction ids) (auto simp: get_el_def)

lemma own_rows_proofread:
  assumes "\<forall>(i, l, f) \<in> set rows. ready p i"
  shows "\<exists>p1 errors. proofreadFields err (map (\<lambda>(i, l, f). own_row i l f) rows) p = Inr (p1, errors) \<and> same_fields p p1
    \<and> (errors = [] \<longleftrightarrow> (\<forall>(i, l, f) \<in> set rows. f (val_at p i) = 0))"
proof -
  let ?rows = "map (\<lambda>(i, l, f). own_row i l f) rows"
  have shown: "row_shown p (own_row i l f)" and present: "row_present p (own_row i l f)"
    and ok: "row_ok p (own_row i l f) \<longleftrightarrow> f (val_at p i) = 0" if "(i, l, f) \<in> set rows" for i l f
  proof -
    have "ready p i" using that assms by auto
    then show "row_shown p (own_row i l f)" "row_present p (own_row i l f)" "row_ok p (own_row i l f) \<longleftrightarrow> f (val_at p i) = 0"
      using own_row_facts ready_doc by simp_all
  qed
  have "\<forall>r \<in> set ?rows. row_present p r" using present by auto
  moreover have "(\<forall>r \<in> set ?rows. row_shown p r \<longrightarrow> row_ok p r) \<longleftrightarrow> (\<forall>(i, l, f) \<in> set rows. f (val_at p i) = 0)"
    using shown ok by (force simp: ball_simps)
  ultimately show ?thesis using proofread_rows_result [of ?rows p err "[]"] by (auto simp: proofreadFields_def)
qed

lemma last_octet_quad: "last_octet (quad a b c d) = Some (int d)"
  by (simp add: last_octet_def nth_opt_def)

text \<open>
  C13. Which pools of addresses are accepted, in every subnet: the three fields are numbers and, when the
  server is enabled, the start is not before the first address of the router's block, the end is not after
  the last one, and the router is not between them. A start after the end is not refused.
\<close>

theorem pool_accepted:
  assumes "uci_get u ''network'' ''lan'' ''netmask'' = Str (netmask n)" "uci_get u ''network'' ''lan'' ''ipaddr'' = Str (quad a b c d)"
    and "n \<le> 32" "list_all (ready p) [''dhcp_start'', ''dhcp_end'', ''dhcp_lease'']" "doc p ''dhcp_enabled'' = Some e"
    and "start = dec_val (val_at p ''dhcp_start'')" "stop = dec_val (val_at p ''dhcp_end'')"
    and "len = 2 ^ (32 - n)" "lo = (d - 1) div len * len"
  shows "(\<exists>p1. dhcp_proofreadAll ts u p = Inr (p1, [])) \<longleftrightarrow>
    list_all (\<lambda>i. number_text (val_at p i)) [''dhcp_start'', ''dhcp_end'', ''dhcp_lease'']
    \<and> (el_checked e \<longrightarrow> lo \<le> start \<and> stop \<le> lo + len - 1 \<and> \<not> (start \<le> d \<and> d \<le> stop))"
proof -
  let ?ids = "[''dhcp_start'', ''dhcp_end'', ''dhcp_lease'']"
  have ready: "\<forall>i \<in> set ?ids. ready p i" using assms(4) by simp
  have rows: "pool_rows = map (\<lambda>(i, l, f). own_row i l f) [(''dhcp_start'', ''dhcp_start_label'', validateNumeric),
      (''dhcp_end'', ''dhcp_end_label'', validateNumeric), (''dhcp_lease'', ''dhcp_lease_label'', validateNumeric)]"
    by (simp add: pool_rows_def)
  obtain p1 errors where p1: "proofreadFields (d_prfErr ts) pool_rows p = Inr (p1, errors)" "same_fields p p1"
      "errors = [] \<longleftrightarrow> list_all (\<lambda>i. number_text (val_at p i)) ?ids"
    unfolding rows using own_rows_proofread [of "[(''dhcp_start'', ''dhcp_start_label'', validateNumeric),
      (''dhcp_end'', ''dhcp_end_label'', validateNumeric), (''dhcp_lease'', ''dhcp_lease_label'', validateNumeric)]" p "d_prfErr ts"] ready
    by (auto simp: numeric.code_iff)
  show ?thesis
  proof (cases "errors = []")
    case False
    then show ?thesis using p1(3) by (auto simp: dhcp_proofreadAll_def p1(1))
  next
    case True
    have same: "doc p1 i \<noteq> None \<and> val_at p1 i = val_at p i" if "i \<in> set ?ids" for i
      using same_fields_val [OF p1(2)] ready ready_doc that by blast
    obtain e' where e': "get_el p1 ''dhcp_enabled'' = Inr e'" "el_checked e' = el_checked e"
      using same_fieldsD [OF p1(2) assms(5)] by (auto simp: get_el_def)
    have field: "field_text p1 i = Inr (val_at p i)" if "i \<in> set ?ids" for i
      using same [OF that] by (auto simp: field_text_def get_el_def)
    have num: "js_parseInt (val_at p ''dhcp_start'') = Some (int start)" "js_parseInt (val_at p ''dhcp_end'') = Some (int stop)"
      using True p1(3) assms(6,7) js_parseInt_digits by (auto simp: number_text_def)
    have range: "getSubnetRange (netmask n) (quad a b c d) = Some (lo, lo + len - 1)"
      using subnet_range_netmask [OF assms(3), of d a b c] by (simp add: Let_def assms(8,9))
    have "dhcp_proofreadAll ts u p = Inr (p1, if \<not> el_checked e then [] else
        (if \<not> (lo \<le> start \<and> stop \<le> lo + len - 1) then [d_dsubErr ts] else []) @ (if start \<le> d \<and> d \<le> stop then [d_dipErr ts] else []))"
      using field [of "''dhcp_start''"] field [of "''dhcp_end''"]
      by (simp add: dhcp_proofreadAll_def p1(1) True e' assms(1,2) num range subnet_test_def num_range_in_subnet_def text_value_def
          last_octet_quad le_num_def Let_def)
    then show ?thesis using True p1(3) by auto
  qed
qed

text \<open>
  C38. Where the checks fail. With a netmask of 24 bits or fewer, a static address is compared with the
  router's network in its last byte only: every valid address but the router's own is accepted, of whatever
  network. And any text that begins with two colons is taken for an IPv6 suffix: one with more than two
  groups is saved as the suffix of another host.
\<close>

theorem static_checks_fail:
  assumes "uci_get u ''network'' ''lan'' ''netmask'' = Str (netmask n)" "uci_get u ''network'' ''lan'' ''ipaddr'' = Str (quad a b c d)"
    and "n \<le> 24" "d < 256" "static_form (ds_page st)" "ds_rows st = []"
    and "map (val_at (ds_page st)) static_ids = [host, mac, quad a' b' c' d', [], []]" "d' < 256" "quad a' b' c' d' \<noteq> quad a b c d"
    and "validateDHCPHostName host = 0" "validateMac mac = 0" "validateIP (quad a' b' c' d') = 0"
  shows "(\<exists>p1. proofreadStatic ts u None st = Inr (p1, []))
    \<and> proofreadIP6Suffix ''::1:2:3:4'' = 0 \<and> load_hostid (save_hostid ''::1:2:3:4'') = ''::1234''"
proof -
  define p where "p = ds_page st"
  let ?rows = "[(''add_host'', ''add_host_label'', validateDHCPHostName), (''add_mac'', ''add_mac_label'', validateMac),
      (''add_ip'', ''add_ip_label'', validateIP), (''add_hostid'', ''add_hostid_label'', proofreadIP6Suffix),
      (''add_duid'', ''add_duid_label'', proofreadDUID)]"
  have rows: "static_rows = map (\<lambda>(i, l, f). own_row i l f) ?rows" by (simp add: static_rows_def)
  have ready: "\<forall>i \<in> set static_ids. ready p i" using assms(5) by (simp add: static_form_def p_def)
  have vals: "val_at p ''add_host'' = host" "val_at p ''add_mac'' = mac" "val_at p ''add_ip'' = quad a' b' c' d'" "val_at p ''add_hostid'' = []"
      "val_at p ''add_duid'' = []"
    using assms(7) by (simp_all add: static_ids_def p_def)
  have "\<forall>(i, l, f) \<in> set ?rows. ready p i" using ready by (simp add: static_ids_def)
  moreover have "\<forall>(i, l, f) \<in> set ?rows. f (val_at p i) = 0"
    using assms(10-12) vals by (simp add: proofreadIP6Suffix_def proofreadDUID_def)
  ultimately obtain p1 where p1: "proofreadFields (d_prfErr ts) static_rows p = Inr (p1, [])" "same_fields p p1"
    unfolding rows using own_rows_proofread [of ?rows p "d_prfErr ts"] by blast
  have "read_values p1 static_ids = Inr (map (val_at p) static_ids)"
    using same_fields_val [OF p1(2)] ready ready_doc read_values_defined [of static_ids p1] by auto
  then have read: "read_values p1 static_ids = Inr [host, mac, quad a' b' c' d', [], []]" using assms(7) by (simp only: p_def)
  have "256 \<le> (2::nat) ^ (32 - n)" using power_increasing [of 8 "32 - n" "2::nat"] assms(3) by simp
  then have range: "getSubnetRange (netmask n) (quad a b c d) = Some (0, 2 ^ (32 - n) - 1)" "d' \<le> 2 ^ (32 - n) - 1"
    using subnet_range_netmask [of n d a b c] assms(3,4,8) by (simp_all add: Let_def div_less)
  have "le_num (Some (int d')) (Some (int (2 ^ (32 - n) - 1)))" using range(2) by (simp add: le_num_def del: of_nat_diff)
  then have "subnet_test (Str (netmask n)) (Str (quad a b c d)) (Some (int d')) (Some (int d')) = Inr True"
    using range(1) by (simp add: subnet_test_def num_range_in_subnet_def le_num_def [of "Some 0"])
  then have "proofreadStatic ts u None st = Inr (p1, [])"
    using p1(1) assms(9) by (simp add: proofreadStatic_def p_def [symmetric] read assms(1,2,6) last_octet_quad other_rows_eq is_blank_def Let_def)
  moreover have "proofreadIP6Suffix ''::1:2:3:4'' = 0" "load_hostid (save_hostid ''::1:2:3:4'') = ''::1234''" by code_simp+
  ultimately show ?thesis by blast
qed

section \<open>A small network\<close>

definition demo_dhcp :: uci where
  "demo_dhcp = write_section ''dhcp'' ''static_host_1'' ''host'' [(''mac'', ''00:00:00:00:00:01'')]
     (write_section ''dhcp'' ''lan'' ''dhcp'' [(''interface'', ''lan'')]
     (write_section ''network'' ''lan'' ''interface'' [(''ipaddr'', ''192.168.1.1''), (''netmask'', ''255.255.255.0'')] newUCIContainer))"

definition demo_dhcp_page :: page where
  "demo_dhcp_page = \<lparr>doc = map_of ((''static_from_connected'', demo_text\<lparr>el_type := ''select-one''\<rparr>)
       # (''dhcp_enabled'', demo_text\<lparr>el_checked := True\<rparr>)
       # map (\<lambda>(i, v). (i, demo_text\<lparr>el_value := v\<rparr>))
         [(''add_host'', ''box''), (''add_mac'', ''00:00:00:00:00:02''), (''add_ip'', ''10.9.8.7''), (''add_hostid'', []), (''add_duid'', []),
          (''dhcp_start'', ''500''), (''dhcp_end'', ''100''), (''dhcp_lease'', ''12''), (''dhcpv6'', []), (''ra'', []), (''ra_slaac'', []),
          (''block_mismatches'', [])]),
     alerts = [], gvalue = None\<rparr>"

definition demo_dhcp_strings :: dhcp_strings where
  "demo_dhcp_strings = \<lparr>d_prfErr = ''Error in'', d_dHErr = ''host'', d_dMErr = ''mac'', d_dIPErr = ''ip'', d_dHIDErr = ''hostid'', d_dDUIDErr = ''duid'',
     d_NoDUID = ''no duid'', d_subErr = ''subnet'', d_ipErr = ''router'', d_AErr = ''no'', d_upErr = ''no'', d_dsubErr = ''subnet'', d_dipErr = ''router'',
     d_ErrChanges = ''no'', d_SelH = ''Select''\<rparr>"

definition demo_lan :: lan_info where
  "demo_lan = \<lparr>leaseData = [], ipHostHash = [], ipMacHash = [], ipDUIDHash = (\<lambda>_. None)\<rparr>"

definition demo_host :: dhcp_row where
  "demo_host = \<lparr>dr_host = ''tv'', dr_mac = ''00:00:00:00:00:01'', dr_ip = ''192.168.1.9'', dr_hostid = ''::1'', dr_duid = ''0a''\<rparr>"

lemma demo_network:
  "uci_get demo_dhcp ''network'' ''lan'' ''netmask'' = Str (netmask 24)" "uci_get demo_dhcp ''network'' ''lan'' ''ipaddr'' = Str (quad 192 168 1 1)"
  by code_simp+

lemma demo_form: "static_form demo_dhcp_page" "map (val_at demo_dhcp_page) static_ids = [''box'', ''00:00:00:00:00:02'', quad 10 9 8 7, [], []]"
proof -
  have q: "quad 10 9 8 7 = ''10.9.8.7''" by code_simp
  show "map (val_at demo_dhcp_page) static_ids = [''box'', ''00:00:00:00:00:02'', quad 10 9 8 7, [], []]" unfolding q by code_simp
  show "static_form demo_dhcp_page"
    by (simp add: static_form_def static_ids_def ready_def demo_dhcp_page_def demo_text_def get_value_def is_select_def LF_def)
qed

theorem dhcp_session_unique_witness:
  "\<exists>st'. dhcp_step demo_dhcp_strings demo_lan demo_dhcp \<lparr>ds_page = demo_dhcp_page, ds_rows = [demo_host]\<rparr> st'
    \<and> length (ds_rows st') = 2 \<and> \<not> static_clash (ds_rows st' ! 0) (ds_rows st' ! 1)"
proof -
  let ?st = "\<lparr>ds_page = demo_dhcp_page, ds_rows = [demo_host]\<rparr>"
  have "(case addStatic demo_dhcp_strings demo_lan demo_dhcp ?st of Inl e \<Rightarrow> False | Inr st' \<Rightarrow> length (ds_rows st') = 2)" by code_simp
  then obtain st' where st': "addStatic demo_dhcp_strings demo_lan demo_dhcp ?st = Inr st'" "length (ds_rows st') = 2" by (auto split: sum.splits)
  have step: "dhcp_step demo_dhcp_strings demo_lan demo_dhcp ?st st'" using demo_form(1) st'(1) by (intro dhcp_step.add_row) simp_all
  have "statics.conflict_free (ds_rows ?st)" by (simp add: statics.clear_of_def)
  from dhcp_session_unique [OF r_into_rtranclp, of demo_dhcp_strings demo_lan demo_dhcp ?st st' 0 1, OF step this] show ?thesis
    using step st'(2) by auto
qed

theorem static_hosts_survive_witness:
  "\<exists>u commands enabled. save_dhcp ''lan'' demo_dhcp [demo_host] demo_dhcp_page = Inr (u, commands, enabled) \<and> load_hosts u = Inr [demo_host]"
proof -
  have keys: "ukeys demo_dhcp = [''network.lan'', ''network.lan.ipaddr'', ''network.lan.netmask'', ''dhcp.lan'', ''dhcp.lan.interface'',
      ''dhcp.static_host_1'', ''dhcp.static_host_1.mac'']" by code_simp
  have "uci_wf demo_dhcp" unfolding demo_dhcp_def write_section_def by (intro uci_wf_fold uci_wf_set uci_wf_new) auto
  moreover have "keys_wf demo_dhcp" unfolding keys_wf_def keys by code_simp
  moreover have "pkg_isolated demo_dhcp ''dhcp''" unfolding pkg_isolated_def keys by code_simp
  moreover have "hosts_reserved demo_dhcp" by code_simp
  ultimately have "dhcp_config_ok demo_dhcp" by (simp add: dhcp_config_ok_def)
  moreover have "ip6_suffix 0 1 = ''::1''" by code_simp
  then have "\<exists>a < 2 ^ 16. \<exists>b < 2 ^ 16. (a \<noteq> 0 \<or> b \<noteq> 0) \<and> ''::1'' = ip6_suffix a b"
    by (intro exI [of _ "0::nat"] exI [of _ "1::nat"] conjI) simp_all
  then have "row_saved demo_host" by (simp add: row_saved_def demo_host_def LF_def)
  moreover have "dhcp_page_ok demo_dhcp_page" by (simp add: dhcp_page_ok_def ready_def demo_dhcp_page_def demo_text_def)
  ultimately show ?thesis
    using static_hosts_survive [of demo_dhcp "''lan''" "[demo_host]" demo_dhcp_page]
    by (simp add: name_ok_def is_host_name_def is_blank_def row_loaded_def demo_host_def)
qed

theorem pool_accepted_witness: "\<exists>p1. dhcp_proofreadAll demo_dhcp_strings demo_dhcp demo_dhcp_page = Inr (p1, [])"
proof -
  have v: "val_at demo_dhcp_page ''dhcp_start'' = ''500''" "val_at demo_dhcp_page ''dhcp_end'' = ''100''" "val_at demo_dhcp_page ''dhcp_lease'' = ''12''"
    by (simp_all add: demo_dhcp_page_def demo_text_def get_value_def is_select_def)
  have "number_text ''500''" "number_text ''100''" "number_text ''12''" "dec_val ''500'' = 500" "dec_val ''100'' = 100"
    by (simp_all add: number_text_def is_digit_def base_val_def digit_val_def)
  moreover have "list_all (ready demo_dhcp_page) [''dhcp_start'', ''dhcp_end'', ''dhcp_lease'']"
      "doc demo_dhcp_page ''dhcp_enabled'' = Some (demo_text\<lparr>el_checked := True\<rparr>)"
    by (simp_all add: ready_def demo_dhcp_page_def demo_text_def)
  ultimately show ?thesis using pool_accepted [OF demo_network _ _ _ refl refl refl refl, of demo_dhcp_page _ demo_dhcp_strings] v by simp
qed

theorem static_checks_fail_witness:
  "(\<exists>p1. proofreadStatic demo_dhcp_strings demo_dhcp None \<lparr>ds_page = demo_dhcp_page, ds_rows = []\<rparr> = Inr (p1, []))
    \<and> load_hostid (save_hostid ''::1:2:3:4'') = ''::1234''"
proof -
  have "validateDHCPHostName ''box'' = 0" "validateMac ''00:00:00:00:00:02'' = 0" "validateIP (quad 10 9 8 7) = 0"
      "quad 10 9 8 7 \<noteq> quad 192 168 1 1" by code_simp+
  then show ?thesis
    using static_checks_fail [OF demo_network, of "\<lparr>ds_page = demo_dhcp_page, ds_rows = []\<rparr>" "''box''" "''00:00:00:00:00:02''" 10 9 8 7 demo_dhcp_strings]
      demo_form by simp
qed

end
