(* ===== verification/Spec2Isabelle.thy ===== *)
theory Spec2Isabelle
  imports Uci_Script Quota_Store Wifi_Schedule Vpn_Subnets Port_Store Dhcp_Static
begin

text \<open>
  Gargoyle is a router firmware whose web interface is written in JavaScript. The pages run in the
  browser: a page receives the router's configuration as a \<open>UCIContainer\<close>, shows it in form fields,
  checks what the user enters with the validators of \<open>common.js\<close>, writes the fields back into a copy of
  the container, and sends to the router a shell script computed from the container before and after the
  edit. This development models that code, function by function, and proves what the pages rely on.

  \<^bold>\<open>Theories.\<close> Paths are relative to \<open>src/package/gargoyle/files/www/js\<close> unless a plugin is named.

  \<^item> \<open>Js_Prelude\<close>: errors as values (\<open>js_error\<close>, \<open>js_result\<close>, \<open>fold_res\<close>), text splitting and joining, regular
    expression tokens, and the lemma collections the other theories share.
  \<^item> \<open>Js_Number\<close>: \<open>parseInt\<close>, number printing, and the bitwise operators, which work on 32-bit words; \<open>NaN\<close>
    and \<open>null\<close> are \<open>None\<close>. Integers are unbounded: numbers above 2 to the 53, where JavaScript rounds, are
    outside the model.
  \<^item> \<open>Js_Regex\<close>: the regular expressions of the validators as data, with a matcher.
  \<^item> \<open>Uci_Container\<close>: \<open>UCIContainer\<close> of \<open>common.js\<close> as a record of ordered keys, values and list markers, one
    definition for each method. The interface \<open>config_store\<close> states what the clients use, and is interpreted
    on the container. Shown: the invariant and its preservation, reading after writing, removal of a
    section, the round trip of multi-line texts, and that the section listings are not exact.
  \<^item> \<open>Uci_Script\<close>: \<open>getScriptCommands\<close>. The \<open>uci\<close> program and the shell are parameters with their documented
    behaviour as hypotheses (\<open>uci_program\<close>, quote removal). Shown: the script takes the router from the old
    settings to the new ones, values survive quoting, an unedited page sends \<open>uci commit\<close> only.
  \<^item> \<open>Ip4_Address\<close>, \<open>Validators\<close>: addresses as text and as numbers, the \<open>validate*\<close> functions with their return
    codes, and the interface \<open>validator\<close>, interpreted on every validator. Shown: which texts are accepted,
    what an accepted text denotes, round trips, address classes, and the cases the code gets wrong.
  \<^item> \<open>Ip6_Address\<close>, \<open>Ip6_Accept\<close>: \<open>ip6_full\<close>, \<open>ip6_canonical\<close>, bit strings, masks, scopes, \<open>validateIP6\<close>. Shown:
    the round trips, what a mask keeps, and which addresses are accepted.
  \<^item> \<open>Addr_Overlap\<close>: the overlap tests and the address tables, over the interface \<open>addr_range\<close>. Shown: for IPv4
    the test decides whether two entries share an address, and the rows of a table stay disjoint.
  \<^item> \<open>Page_Dom\<close>: the document as a map from ids to elements; select lists, visibility, enabling of fields,
    \<open>proofreadFields\<close>. Shown: proofreading reports an error exactly when a visible field is not valid.
  \<^item> \<open>Page_Fields\<close>: the load and save functions between page and container. Shown: what saving writes, and
    what loading and then saving leaves in the configuration, which is what was there when every option
    has a text.
  \<^item> \<open>Quota_Times\<close>, \<open>Quota_Store\<close>: \<open>quotas.js\<close>, the times at which a quota is active and their overlap, quota ids,
    reading and writing of the times, \<open>validateQuota\<close>, removal. Shown: the overlap test is right on ordered
    ranges, ids are fresh and the search for one ends, an accepted quota has nobody, or no second of the week, in
    common with another (IPv6 addresses by spelling only), and where the overlap of times is misjudged.
  \<^item> \<open>Wifi_Schedule\<close>: \<open>wifi_schedule.js\<close> of the plugin \<open>wifi-schedule\<close>, the hour tables and their crontab lines.
    Shown: a saved schedule is loaded as it was, clicks keep the cells in range, and which schedules are
    lost.
  \<^item> \<open>Vpn_Subnets\<close>: \<open>wireguard.js\<close> and \<open>openvpn.js\<close> of the VPN plugins, client addresses, masks and subnets,
    validation of a client. Shown: a free address is found, the overlap test is exact, an accepted client
    subnet does not touch the router's own subnets, and what the conflict test of OpenVPN misses.
  \<^item> \<open>Port_Conflicts\<close>: \<open>getUsedPorts\<close> and \<open>checkForPortConflict\<close> of \<open>common.js\<close>. Shown: on ports and ranges of digits the
    test is exact on the definitions it is given, and these never contain a forwarded port.
  \<^item> \<open>Uci_Sections\<close>, \<open>Page_Tables\<close>: what the pages with a table of rows share. \<open>uci_package\<close> is the interface of a
    package whose sections are written, listed, read and removed, interpreted on \<open>firewall\<close> and \<open>dhcp\<close>;
    \<open>conflict_table\<close> that of a table no two rows of which clash, interpreted on rules and static addresses.
  \<^item> \<open>Port_Forwarding\<close>, \<open>Port_Store\<close>: \<open>port_forwarding.js\<close>, the tables of forwarded and opened ports with their checks,
    adding and editing, user actions as the steps \<open>user_step\<close>, and saving and
    loading of the rules over the interface \<open>rule_rows\<close>. Shown: no sequence of actions forwards a port twice,
    saved rules are loaded as they were, and where the code fails.
  \<^item> \<open>Dhcp_Static\<close>: \<open>dhcp.js\<close>, the table of static addresses and the pool, user actions as the steps \<open>dhcp_step\<close>. Shown:
    no sequence of actions gives an address or a host, as spelled, to two rows, a saved table is loaded as it was, which
    pools are accepted, and which addresses and suffixes pass the checks that should not.
  \<^item> This theory: the composition of form, container and script.

  \<^bold>\<open>Conventions.\<close> A function that changes the page or the container takes and returns it; \<open>Inl\<close> is a raised
  error. Translated strings are arguments. Arrays are modelled by value. A dictionary used as a set is
  the list or predicate of its keys. Characters are 8-bit.

  \<^bold>\<open>Termination.\<close> Every loop of the model is a total function with a measure, except \<open>ac_ip_loop\<close>, which is a
  partial function because the code need not end on texts that are not addresses; \<open>getUnusedAcIp_fresh\<close>
  proves that it returns for a server address \<open>a.b.c.d\<close> with b and c below 255 and d at most 253 while fewer
  clients are defined than positions follow it (16516350 positions in all). There is no fuel.

  \<^bold>\<open>Not modelled.\<close> Requests to the router and timers, construction of tables, menus and modal windows,
  colours and summaries; floating point amounts (\<open>parseBytes\<close>, \<open>toBytes\<close>, the limits of a quota, the
  lease time of the DHCP page); the pages that only list fields for the functions above (\<open>basic.js\<close> and
  others); third-party libraries; translations; the C modules and shell scripts of the firmware.
\<close>

section \<open>From the form to the router\<close>

text \<open>A field of a form that edits an option the configuration already has, as a text.\<close>

definition option_field :: "uci \<Rightarrow> field \<Rightarrow> bool" where
  "option_field u f \<longleftrightarrow> match_section_key (fld_key f) = None
     \<and> (case uvals u (fld_key f) of Some (Str _) \<Rightarrow> True | _ \<Rightarrow> False)"

lemma option_field_facts:
  assumes "option_field u f" "uci_wf u"
  shows "fld_key f \<in> set (ukeys u)" "\<not> ulists u (fld_key f)"
  using assms by (auto simp: option_field_def uci_wf_def split: option.splits uci_val.splits)

lemma page_uci_options_changed:
  assumes "page_uci u" "uci_wf u'" "ukeys u' = ukeys u"
    and "\<And>k. match_section_key k \<noteq> None \<Longrightarrow> uvals u' k = uvals u k"
  shows "page_uci u'"
  using assms by (auto simp: page_uci_def keys_wf_def sections_typed_def)

text \<open>
  C14. What a form shows when it is saved is what the router ends up with: for a page whose fields edit
  existing options, \<open>setVariables\<close> returns, and the script generated from the container before and after,
  run by any \<open>uci\<close> program that behaves as documented on the database the container was read from,
  leaves under the key of every field that is saved the value shown (no option for a blank one) and under
  every other key what was there.
\<close>

theorem saved_form_reaches_router:
  assumes "uci_program run" "page_uci u" "distinct (map (\<lambda>r. fld_key (fst r)) rows)"
    and "\<forall>r \<in> set rows. field_present p (fst r) \<and> option_field u (fst r)"
  shows "\<exists>q u'. setVariables (save_rows rows) (p, u) = Inr (q, u')
    \<and> (\<forall>r \<in> set rows. field_written p r \<longrightarrow>
         effective (fold run (scriptCommands u' u) (uvals u) (fld_key (fst r))) = effective (Some (Str (field_value p (fst r)))))
    \<and> (\<forall>k. (\<forall>r \<in> set rows. field_written p r \<longrightarrow> k \<noteq> fld_key (fst r)) \<longrightarrow>
         effective (fold run (scriptCommands u' u) (uvals u) k) = effective (uvals u k))"
proof -
  have wf: "uci_wf u" using assms(2) by (simp add: page_uci_def)
  have pre: "\<forall>r \<in> set rows. field_present p (fst r) \<and> \<not> ulists u (fld_key (fst r))"
      "\<forall>r \<in> set rows. fld_key (fst r) \<in> set (ukeys u)"
    using assms(4) option_field_facts [OF _ wf] by auto
  obtain q u' where u': "setVariables (save_rows rows) (p, u) = Inr (q, u')" "uci_wf u'" "ukeys u' = ukeys u"
      "\<forall>r \<in> set rows. field_written p r \<longrightarrow> uvals u' (fld_key (fst r)) = Some (Str (field_value p (fst r)))"
      "\<forall>k. (\<forall>r \<in> set rows. field_written p r \<longrightarrow> k \<noteq> fld_key (fst r)) \<longrightarrow> uvals u' k = uvals u k"
    using setVariables_effect [OF pre(1) assms(3) wf] pre(2) by blast
  have "uvals u' k = uvals u k" if "match_section_key k \<noteq> None" for k
  proof -
    have "\<forall>r \<in> set rows. k \<noteq> fld_key (fst r)" using assms(4) that by (auto simp: option_field_def)
    then show ?thesis using u'(5) by blast
  qed
  then have "page_uci u'" using page_uci_options_changed assms(2) u'(2,3) by blast
  moreover have "no_list_blanked u' u"
    unfolding no_list_blanked_def
  proof (intro ballI impI)
    fix k assume "uvals u' k = Some (Str [])"
    moreover have "uvals u' k = uvals u k \<or> (\<exists>r \<in> set rows. k = fld_key (fst r))" using u'(5) by blast
    ultimately show "case uvals u k of Some (Lst _) \<Rightarrow> False | _ \<Rightarrow> True"
      using assms(4) by (auto simp: option_field_def split: option.splits uci_val.splits)
  qed
  ultimately have "effective (fold run (scriptCommands u' u) (uvals u) k) = effective (uvals u' k)" for k
    using assms(1,2) by (intro script_refines)
  then show ?thesis using u'(1,4,5) by (intro exI [of _ q] exI [of _ u']) simp
qed

theorem saved_form_reaches_router_witness:
  "\<exists>q u'. setVariables (save_rows [(demo_port_field, False)]) (demo_page, demo_conf) = Inr (q, u')
     \<and> effective (fold demo_run (scriptCommands u' demo_conf) (uvals demo_conf) (fld_key demo_port_field)) = Some (Str ''8080'')"
proof -
  have "keys_wf demo_conf" "sections_first [] (ukeys demo_conf)" "sections_typed demo_conf" by code_simp+
  then have "page_uci demo_conf" using demo_conf_facts(1) by (simp add: page_uci_def)
  moreover have "match_section_key (fld_key demo_port_field) = None" by code_simp
  then have "option_field demo_conf demo_port_field" using demo_conf_facts(3) by (simp add: option_field_def)
  moreover have "field_value demo_page demo_port_field = ''8080''" "field_written demo_page (demo_port_field, False)"
    by (simp_all add: field_value_def field_written_def field_shown_def vis_shown_def demo_port_field_def
        demo_text_def demo_select_def get_value_def is_select_def)
  ultimately show ?thesis
    using saved_form_reaches_router [OF demo_run_uci_program, of demo_conf "[(demo_port_field, False)]" demo_page] by auto
qed

end
